(* ===== verification/Prelude.thy ===== *)
theory Prelude
  imports Main "HOL-Library.Word" "HOL-Library.Monad_Syntax" "HOL-Library.Multiset"
begin

text \<open>
  Shared vocabulary of the development: the names of the machine types, the reading of
  \<^typ>\<open>'a option\<close> as "defined behaviour or not", raw memory as a list of cells, and the
  generic lemmas on lists, options and words that the component theories use.

  Every operation of the C code that can run into undefined behaviour (a NULL or dangling
  pointer, an access outside an allocation, a signed overflow, a failed assert, an abort) is a
  function into \<^typ>\<open>'a option\<close>: \<^term>\<open>None\<close> is that path, \<^term>\<open>Some\<close> is a run that stays inside
  the language. The \<open>do\<close> notation of the library sequences such operations.
\<close>

section \<open>Machine types\<close>

type_synonym u32 = "32 word"
type_synonym u64 = "64 word"
type_synonym addr = nat

unbundle bit_operations_syntax

text \<open>The ranges of \<open>int\<close> and \<open>long long\<close> on the LP64 targets the Makefile builds for.\<close>

definition INT_MAX :: int where "INT_MAX = 2 ^ 31 - 1"
definition INT_MIN :: int where "INT_MIN = - (2 ^ 31)"
definition LLONG_MAX :: int where "LLONG_MAX = 2 ^ 63 - 1"
definition LLONG_MIN :: int where "LLONG_MIN = - (2 ^ 63)"

lemmas c_limits = INT_MAX_def INT_MIN_def LLONG_MAX_def LLONG_MIN_def

text \<open>Conversion of a signed value to \<open>size_t\<close>.\<close>

definition to_size_t :: "int \<Rightarrow> nat" where
  "to_size_t x = nat (x mod 2 ^ 64)"

lemma to_size_t_nonneg [simp]: "0 \<le> x \<Longrightarrow> x < 2 ^ 64 \<Longrightarrow> to_size_t x = nat x"
  by (simp add: to_size_t_def)

lemma unat_of_nat_u32 [simp]: "n < 2 ^ 32 \<Longrightarrow> unat (of_nat n :: u32) = n"
  by (simp add: unat_of_nat)

lemma u32_bound: "unat (w :: u32) < 2 ^ 32"
  using unsigned_less [of w, where 'a = nat] by simp

lemma u32_of_unat: "unat (w :: u32) = n \<Longrightarrow> w = of_nat n"
  by auto

lemma u32_eq_0_iff [simp]:
  assumes "n < 2 ^ 32"
  shows "(of_nat n :: u32) = 0 \<longleftrightarrow> n = 0"
proof
  assume "(of_nat n :: u32) = 0"
  then have "unat (of_nat n :: u32) = unat (0 :: u32)" by simp
  then show "n = 0" unfolding unat_of_nat_u32 [OF assms] by simp
qed simp

text \<open>A power of two as a table size: masking a hash gives an index below it.\<close>

lemma and_mask_u32: "n < 32 \<Longrightarrow> unat ((h :: u32) AND (2 ^ n - 1)) = unat h mod 2 ^ n"
  by (simp only: mask_eq_exp_minus_1 [symmetric] take_bit_eq_mask [symmetric] unsigned_take_bit_eq)
    (simp add: take_bit_eq_mod)

lemma unat_power_u32:
  assumes "n < 32"
  shows "unat ((2 :: u32) ^ n) = 2 ^ n"
proof -
  have "(2 :: nat) ^ n < 2 ^ 32" using assms by (intro power_strict_increasing) simp_all
  then have "unat (of_nat (2 ^ n) :: u32) = 2 ^ n" by (rule unat_of_nat_u32)
  then show ?thesis by simp
qed

section \<open>Named collections\<close>

named_theorems sds_simps \<open>rewrite rules of the string buffer operations\<close>
named_theorems dict_intros \<open>preservation of the hash table invariant\<close>
named_theorems store_simps \<open>rewrite rules of the object store\<close>

section \<open>Guards and loops in the option monad\<close>

definition guard :: "bool \<Rightarrow> unit option" where
  "guard b = (if b then Some () else None)"

lemma guard_eq [simp]: "guard True = Some ()" "guard False = None"
  by (simp_all add: guard_def)

lemma guard_bind_Some [simp]: "(guard b \<bind> f) = Some y \<longleftrightarrow> b \<and> f () = Some y"
  by (simp add: guard_def)

text \<open>A loop over a list whose body threads a state and may run into undefined behaviour.\<close>

fun foldM :: "('a \<Rightarrow> 's \<Rightarrow> 's option) \<Rightarrow> 'a list \<Rightarrow> 's \<Rightarrow> 's option" where
  "foldM f [] s = Some s"
| "foldM f (x # xs) s = (case f x s of None \<Rightarrow> None | Some s' \<Rightarrow> foldM f xs s')"

lemma foldM_append: "foldM f (xs @ ys) s = foldM f xs s \<bind> foldM f ys"
  by (induction xs arbitrary: s) (auto split: option.splits)

text \<open>An invariant indexed by what is still to do: the rule by which loops are verified.\<close>

lemma foldM_rule:
  assumes "I xs s"
    and "\<And>x ys s. I (x # ys) s \<Longrightarrow> \<exists>s'. f x s = Some s' \<and> I ys s'"
  shows "\<exists>s'. foldM f xs s = Some s' \<and> I [] s'"
  using assms(1)
proof (induction xs arbitrary: s)
  case Nil
  then show ?case by simp
next
  case (Cons x xs)
  from assms(2) [OF Cons.prems] obtain s' where "f x s = Some s'" and "I xs s'" by blast
  with Cons.IH [of s'] show ?case by simp
qed

text \<open>A counted loop.\<close>

fun timesM :: "nat \<Rightarrow> ('s \<Rightarrow> 's option) \<Rightarrow> 's \<Rightarrow> 's option" where
  "timesM 0 f s = Some s"
| "timesM (Suc n) f s = (case f s of None \<Rightarrow> None | Some s' \<Rightarrow> timesM n f s')"

section \<open>Raw memory\<close>

text \<open>
  An allocation is a list of cells; a cell of indeterminate content is \<^term>\<open>None\<close>. \<open>poke\<close>
  writes a run of cells at an offset, \<open>peek\<close> reads a run of determinate ones; both are
  undefined outside the allocation.
\<close>

definition poke :: "nat \<Rightarrow> 'a list \<Rightarrow> 'a list \<Rightarrow> 'a list option" where
  "poke off xs m =
     (if off + length xs \<le> length m
      then Some (take off m @ xs @ drop (off + length xs) m) else None)"

definition peek :: "nat \<Rightarrow> nat \<Rightarrow> 'a option list \<Rightarrow> 'a list option" where
  "peek off n m =
     (let w = take n (drop off m)
      in if off + n \<le> length m \<and> None \<notin> set w then Some (map the w) else None)"

lemma poke_Some_iff: "(\<exists>m'. poke off xs m = Some m') \<longleftrightarrow> off + length xs \<le> length m"
  by (simp add: poke_def)

lemma length_poke: "poke off xs m = Some m' \<Longrightarrow> length m' = length m"
  by (auto simp: poke_def split: if_splits)

lemma peek_full: "peek 0 (length xs) (map Some xs @ ys) = Some xs"
  by (auto simp: peek_def Let_def comp_def)

section \<open>Lists\<close>

text \<open>An array access; outside the array it is undefined.\<close>

definition nth_opt :: "'a list \<Rightarrow> nat \<Rightarrow> 'a option" where
  "nth_opt xs i = (if i < length xs then Some (xs ! i) else None)"

lemma nth_opt_Some [simp]: "i < length xs \<Longrightarrow> nth_opt xs i = Some (xs ! i)"
  by (simp add: nth_opt_def)

text \<open>Changing, and removing, the first element with a property: pointer surgery on a chain.\<close>

fun upd_first :: "('a \<Rightarrow> bool) \<Rightarrow> ('a \<Rightarrow> 'a) \<Rightarrow> 'a list \<Rightarrow> 'a list" where
  "upd_first P f [] = []"
| "upd_first P f (x # xs) = (if P x then f x # xs else x # upd_first P f xs)"

fun remove_first :: "('a \<Rightarrow> bool) \<Rightarrow> 'a list \<Rightarrow> 'a list" where
  "remove_first P [] = []"
| "remove_first P (x # xs) = (if P x then xs else x # remove_first P xs)"

lemma upd_first_split: "\<forall>y \<in> set xs. \<not> P y \<Longrightarrow> P x \<Longrightarrow> upd_first P f (xs @ x # ys) = xs @ f x # ys"
  by (induction xs) auto

lemma remove_first_split: "\<forall>y \<in> set xs. \<not> P y \<Longrightarrow> P x \<Longrightarrow> remove_first P (xs @ x # ys) = xs @ ys"
  by (induction xs) auto

lemma find_split: "\<forall>y \<in> set xs. \<not> P y \<Longrightarrow> P x \<Longrightarrow> find P (xs @ x # ys) = Some x"
  by (induction xs) auto

lemma find_SomeD: "find P xs = Some x \<Longrightarrow> x \<in> set xs \<and> P x"
  by (induction xs) (auto split: if_splits)

lemma find_Some_split: "find P xs = Some x \<Longrightarrow> \<exists>ys zs. xs = ys @ x # zs \<and> P x \<and> (\<forall>y \<in> set ys. \<not> P y)"
proof (induction xs)
  case Nil
  then show ?case by simp
next
  case (Cons a xs)
  show ?case
  proof (cases "P a")
    case True
    then show ?thesis using Cons.prems by (intro exI [of _ "[]"] exI [of _ xs]) simp
  next
    case False
    with Cons obtain ys zs where "xs = ys @ x # zs" "P x" "\<forall>y \<in> set ys. \<not> P y" by auto
    then show ?thesis using False by (intro exI [of _ "a # ys"] exI [of _ zs]) simp
  qed
qed

lemma find_None_iff_all: "find P xs = None \<longleftrightarrow> (\<forall>x \<in> set xs. \<not> P x)"
  by (induction xs) auto

lemma concat_update_perm:
  "i < length xss \<Longrightarrow> mset (concat (xss[i := ys])) + mset (xss ! i) = mset (concat xss) + mset ys"
proof (induction xss arbitrary: i)
  case Nil
  then show ?case by simp
next
  case (Cons x xss)
  then show ?case by (cases i) (auto simp: ac_simps)
qed

lemma nth_concat_split:
  "i < length xss \<Longrightarrow> concat xss = concat (take i xss) @ xss ! i @ concat (drop (Suc i) xss)"
  by (metis concat.simps(2) concat_append id_take_nth_drop)

lemma set_concat_nth: "x \<in> set (concat xss) \<longleftrightarrow> (\<exists>i < length xss. x \<in> set (xss ! i))"
proof
  assume "x \<in> set (concat xss)"
  then obtain xs where "xs \<in> set xss" "x \<in> set xs" by auto
  then show "\<exists>i < length xss. x \<in> set (xss ! i)" by (metis in_set_conv_nth)
next
  assume "\<exists>i < length xss. x \<in> set (xss ! i)"
  then show "x \<in> set (concat xss)" using nth_mem by fastforce
qed

lemma map_of_perm:
  assumes "mset xs = mset ys" and "distinct (map fst xs)"
  shows "map_of xs = map_of ys"
proof -
  have "set xs = set ys" using assms(1) by (metis set_mset_mset)
  moreover have "distinct (map fst ys)"
    using assms mset_eq_imp_distinct_iff [of "map fst xs" "map fst ys"] by simp
  ultimately show ?thesis using map_of_inject_set [of xs ys] assms(2) by simp
qed

end
