(* ===== verification/Libc.thy ===== *)
theory Libc
  imports Prelude
begin

text \<open>
  The part of the C library the program calls: C strings, character classes of the C locale,
  \<open>strtoll\<close> and \<open>atoi\<close> (with the saturation and the truncation of the platform's C library),
  decimal output of \<open>printf\<close>, \<open>memcmp\<close>. Characters are bytes.
\<close>

section \<open>Characters and C strings\<close>

definition NUL :: char where "NUL = CHR 0x00"
definition LF :: char where "LF = CHR 0x0A"
definition CR :: char where "CR = CHR 0x0D"
definition crlf :: string where "crlf = [CR, LF]"

lemmas control_chars = NUL_def LF_def CR_def crlf_def

text \<open>The C string that starts at a pointer ends before the first NUL.\<close>

definition cstr :: "string \<Rightarrow> string" where
  "cstr s = takeWhile (\<lambda>c. c \<noteq> NUL) s"

definition strlen :: "string \<Rightarrow> nat" where
  "strlen s = length (cstr s)"

text \<open>\<open>strchr(cset, c)\<close> finds the terminator too.\<close>

definition strchr_in :: "string \<Rightarrow> char \<Rightarrow> bool" where
  "strchr_in cset c \<longleftrightarrow> c = NUL \<or> c \<in> set (cstr cset)"

text \<open>\<open>char\<close> is signed on the target.\<close>

definition schar :: "char \<Rightarrow> int" where
  "schar c = (let n = int (of_char c) in if n < 128 then n else n - 256)"

definition tolower :: "char \<Rightarrow> char" where
  "tolower c = (let n = of_char c :: nat in if 65 \<le> n \<and> n \<le> 90 then char_of (n + 32) else c)"

definition toupper :: "char \<Rightarrow> char" where
  "toupper c = (let n = of_char c :: nat in if 97 \<le> n \<and> n \<le> 122 then char_of (n - 32) else c)"

definition isspace :: "char \<Rightarrow> bool" where
  "isspace c = (let n = of_char c :: nat in n = 32 \<or> 9 \<le> n \<and> n \<le> 13)"

definition isdigit :: "char \<Rightarrow> bool" where
  "isdigit c = (let n = of_char c :: nat in 48 \<le> n \<and> n \<le> 57)"

definition digit_char :: "nat \<Rightarrow> char" where
  "digit_char d = char_of (48 + d)"

lemma of_char_bound [simp]: "(of_char c :: nat) < 256"
  by (metis of_char_mod_256 mod_less_divisor zero_less_numeral)

lemma tolower_idem [simp]: "tolower (tolower c) = tolower c"
  by (auto simp: tolower_def Let_def)

lemma cstr_no_nul: "NUL \<notin> set s \<Longrightarrow> cstr s = s"
  by (auto simp: cstr_def intro!: takeWhile_eq_all_conv [THEN iffD2])

lemma cstr_idem [simp]: "cstr (cstr s) = cstr s"
  by (rule cstr_no_nul) (auto simp: cstr_def dest: set_takeWhileD)

lemma cstr_snoc: "NUL \<notin> set s \<Longrightarrow> cstr (s @ NUL # t) = s"
  by (induction s) (auto simp: cstr_def)

lemma strlen_no_nul: "NUL \<notin> set s \<Longrightarrow> strlen s = length s"
  by (simp add: strlen_def cstr_no_nul)

lemma strlen_le: "strlen s \<le> length s"
  by (simp add: strlen_def cstr_def length_takeWhile_le)

section \<open>Reading numbers\<close>

fun read_digits :: "int \<Rightarrow> string \<Rightarrow> int" where
  "read_digits acc [] = acc"
| "read_digits acc (c # cs) =
     (if isdigit c then read_digits (10 * acc + (int (of_char c) - 48)) cs else acc)"

definition parse_int :: "string \<Rightarrow> int" where
  "parse_int s =
     (case dropWhile isspace s of
        [] \<Rightarrow> 0
      | c # cs \<Rightarrow> if c = CHR ''-'' then - read_digits 0 cs
                  else if c = CHR ''+'' then read_digits 0 cs
                  else read_digits 0 (c # cs))"

text \<open>\<open>strtoll\<close> saturates at the ends of the range.\<close>

definition strtoll :: "string \<Rightarrow> int" where
  "strtoll s = max LLONG_MIN (min LLONG_MAX (parse_int s))"

text \<open>Conversion of an integer to \<open>int\<close> keeps the low 32 bits.\<close>

definition as_int :: "int \<Rightarrow> int" where
  "as_int x = sint (word_of_int x :: 32 word)"

lemma as_int_id [simp]: "INT_MIN \<le> x \<Longrightarrow> x \<le> INT_MAX \<Longrightarrow> as_int x = x"
  by (simp add: as_int_def c_limits signed_of_int signed_take_bit_int_eq_self)

lemma as_int_range: "INT_MIN \<le> as_int x \<and> as_int x \<le> INT_MAX"
  using sint_ge [of "word_of_int x :: 32 word"] sint_lt [of "word_of_int x :: 32 word"]
  by (simp add: as_int_def c_limits)

text \<open>\<open>atoi\<close> is \<open>strtol\<close> converted to \<open>int\<close>.\<close>

definition atoi :: "string \<Rightarrow> int" where
  "atoi s = as_int (strtoll s)"

section \<open>Writing numbers\<close>

fun show_nat :: "nat \<Rightarrow> string" where
  "show_nat n = (if n < 10 then [digit_char n] else show_nat (n div 10) @ [digit_char (n mod 10)])"

declare show_nat.simps [simp del]

definition show_int :: "int \<Rightarrow> string" where
  "show_int x = (if x < 0 then CHR ''-'' # show_nat (nat (- x)) else show_nat (nat x))"

lemma of_char_digit [simp]: "d < 10 \<Longrightarrow> (of_char (digit_char d) :: nat) = 48 + d"
  by (simp add: digit_char_def of_char_of)

lemma of_char_digit_int [simp]: "d < 10 \<Longrightarrow> (of_char (digit_char d) :: int) = 48 + int d"
  by (metis of_char_digit of_nat_add of_nat_numeral of_nat_of_char)

lemma isdigit_digit [simp]: "d < 10 \<Longrightarrow> isdigit (digit_char d)"
  by (simp add: isdigit_def)

lemma read_digits_append:
  "list_all isdigit xs \<Longrightarrow> read_digits acc (xs @ ys) = read_digits (read_digits acc xs) ys"
  by (induction xs arbitrary: acc) auto

lemma show_nat_digits: "list_all isdigit (show_nat n)"
  by (induction n rule: show_nat.induct) (subst show_nat.simps, auto)

lemma show_nat_nonempty [simp]: "show_nat n \<noteq> []"
  by (subst show_nat.simps) simp

lemma read_show_nat: "read_digits 0 (show_nat n) = int n"
proof (induction n rule: show_nat.induct)
  case (1 n)
  show ?case
  proof (cases "n < 10")
    case True
    then show ?thesis by (subst show_nat.simps) simp
  next
    case False
    with 1 show ?thesis
      by (subst show_nat.simps)
        (simp add: read_digits_append show_nat_digits of_nat_mod of_nat_div)
  qed
qed

lemma isdigit_not_sign: "isdigit c \<Longrightarrow> c \<noteq> CHR ''-'' \<and> c \<noteq> CHR ''+'' \<and> \<not> isspace c \<and> c \<noteq> NUL \<and> c \<noteq> LF"
  by (auto simp: isdigit_def isspace_def Let_def control_chars)

lemma parse_show_int: "parse_int (show_int x) = x"
proof -
  obtain c cs where c: "show_nat (nat x) = c # cs"
    using show_nat_nonempty by (meson neq_Nil_conv)
  have "isdigit c" using show_nat_digits [of "nat x"] by (simp add: c)
  from isdigit_not_sign [OF this] have nn: "parse_int (show_nat (nat x)) = int (nat x)"
    using read_show_nat [of "nat x"] by (simp add: parse_int_def c)
  have "\<not> isspace CHR ''-''" by (simp add: isspace_def)
  then show ?thesis
    using nn by (auto simp: show_int_def parse_int_def read_show_nat)
qed

lemma strtoll_show_int: "LLONG_MIN \<le> x \<Longrightarrow> x \<le> LLONG_MAX \<Longrightarrow> strtoll (show_int x) = x"
  by (simp add: strtoll_def parse_show_int)

lemma atoi_show_int: "INT_MIN \<le> x \<Longrightarrow> x \<le> INT_MAX \<Longrightarrow> atoi (show_int x) = x"
  by (simp add: atoi_def strtoll_def parse_show_int c_limits as_int_id)

lemma strtoll_range: "LLONG_MIN \<le> strtoll s \<and> strtoll s \<le> LLONG_MAX"
  by (auto simp: strtoll_def c_limits)

section \<open>Comparing memory\<close>

text \<open>\<open>memcmp\<close>: the sign is that of the first difference, compared as unsigned bytes.\<close>

fun memcmp :: "string \<Rightarrow> string \<Rightarrow> int" where
  "memcmp (a # as) (b # bs) = (if a = b then memcmp as bs else int (of_char a) - int (of_char b))"
| "memcmp _ _ = 0"

lemma memcmp_eq_0: "length xs = length ys \<Longrightarrow> memcmp xs ys = 0 \<longleftrightarrow> xs = ys"
  by (induction xs ys rule: list_induct2) (auto simp: of_char_eq_iff)

text \<open>\<open>strcmp\<close> is used for equality only.\<close>

definition strcmp_eq :: "string \<Rightarrow> string \<Rightarrow> bool" where
  "strcmp_eq a b \<longleftrightarrow> cstr a = cstr b"

end
