(* ===== verification/Zmalloc.thy ===== *)
theory Zmalloc
  imports Libc
begin

text \<open>
  The allocator wrapper of \<open>memory/zmalloc.c\<close>. Every block starts with a header that holds its
  size, and a counter of the bytes in use is kept in a \<open>size_t\<close>. The live blocks are listed with
  the pointer the caller was given and the size in the header. The results of \<open>malloc\<close> and
  \<open>realloc\<close> are parameters: the address of the memory they found, or \<^term>\<open>None\<close>. Writing the
  header through a NULL pointer, and passing a pointer that is not live, is undefined.
\<close>

record zstate =
  used_memory :: u64
  z_blocks :: "(addr \<times> u64) list"

definition drop_block :: "addr \<Rightarrow> (addr \<times> u64) list \<Rightarrow> (addr \<times> u64) list" where
  "drop_block p xs = filter (\<lambda>b. fst b \<noteq> p) xs"

definition HEADER :: nat where "HEADER = 8"

definition zmalloc :: "addr option \<Rightarrow> u64 \<Rightarrow> zstate \<Rightarrow> (addr \<times> zstate) option" where
  "zmalloc mem sz st =
     do { ptr \<leftarrow> mem;
          let p = ptr + HEADER;
          Some (p, st\<lparr>used_memory := used_memory st + (sz + of_nat HEADER),
                      z_blocks := (p, sz) # z_blocks st\<rparr>) }"

definition zrealloc :: "addr option \<Rightarrow> addr option \<Rightarrow> u64 \<Rightarrow> zstate \<Rightarrow> (addr option \<times> zstate) option" where
  "zrealloc mem ptr sz st =
     (case ptr of
        None \<Rightarrow> map_option (apfst Some) (zmalloc mem sz st)
      | Some p \<Rightarrow>
          do { oldsize \<leftarrow> map_of (z_blocks st) p;
               case mem of
                 None \<Rightarrow> Some (None, st)
               | Some q \<Rightarrow>
                   Some (Some (q + HEADER),
                     st\<lparr>used_memory := used_memory st - oldsize + sz,
                        z_blocks := (q + HEADER, sz) # drop_block p (z_blocks st)\<rparr>) })"

definition zfree :: "addr option \<Rightarrow> zstate \<Rightarrow> zstate option" where
  "zfree ptr st =
     (case ptr of
        None \<Rightarrow> Some st
      | Some p \<Rightarrow>
          do { oldsize \<leftarrow> map_of (z_blocks st) p;
               Some (st\<lparr>used_memory := used_memory st - (oldsize + of_nat HEADER),
                        z_blocks := drop_block p (z_blocks st)\<rparr>) })"

definition zstrdup :: "addr option \<Rightarrow> string \<Rightarrow> zstate \<Rightarrow> (addr \<times> string \<times> zstate) option" where
  "zstrdup mem s st =
     (let l = of_nat (strlen s) + 1 in
      do { (p, st) \<leftarrow> zmalloc mem l st; Some (p, cstr s @ [NUL], st) })"

definition zmalloc_used_memory :: "zstate \<Rightarrow> u64" where
  "zmalloc_used_memory st = used_memory st"

section \<open>The accounting invariant\<close>

text \<open>The counter is the sum of the live blocks with their headers, modulo the word.\<close>

definition z_ok :: "zstate \<Rightarrow> bool" where
  "z_ok st \<longleftrightarrow> distinct (map fst (z_blocks st)) \<and>
     used_memory st = (\<Sum>(p, sz) \<leftarrow> z_blocks st. sz + of_nat HEADER)"

text \<open>What \<open>malloc\<close> promises: memory that belongs to no live block.\<close>

definition fresh_for :: "addr option \<Rightarrow> zstate \<Rightarrow> bool" where
  "fresh_for mem st \<longleftrightarrow> (\<forall>q. mem = Some q \<longrightarrow> q + HEADER \<notin> fst ` set (z_blocks st))"

lemma map_of_drop_block: "map_of (drop_block p xs) = (map_of xs)(p := None)"
  by (induction xs) (auto simp: drop_block_def)

lemma distinct_drop_block: "distinct (map fst xs) \<Longrightarrow> distinct (map fst (drop_block p xs))"
  by (induction xs) (auto simp: drop_block_def)

lemma set_drop_block: "set (drop_block p xs) = {b \<in> set xs. fst b \<noteq> p}"
  by (simp add: drop_block_def)

lemma sum_delete:
  "distinct (map fst xs) \<Longrightarrow> map_of xs p = Some sz \<Longrightarrow>
   (\<Sum>(p, sz) \<leftarrow> drop_block p xs. sz + h) = (\<Sum>(p, sz) \<leftarrow> xs. sz + h) - (sz + h :: u64)"
proof (induction xs)
  case (Cons x xs)
  show ?case
  proof (cases "fst x = p")
    case True
    then have "drop_block p xs = xs"
      using Cons.prems(1) unfolding drop_block_def by (intro filter_True) (auto simp: rev_image_eqI)
    then show ?thesis using True Cons.prems by (cases x) (simp add: drop_block_def)
  next
    case False
    then show ?thesis using Cons by (cases x) (auto simp: drop_block_def algebra_simps)
  qed
qed simp

lemma zmalloc_ok:
  assumes "z_ok st" and "fresh_for (Some q) st"
  shows "\<exists>st'. zmalloc (Some q) sz st = Some (q + HEADER, st') \<and> z_ok st' \<and>
    map_of (z_blocks st') = (map_of (z_blocks st))(q + HEADER \<mapsto> sz)"
  using assms by (auto simp: zmalloc_def Let_def z_ok_def fresh_for_def algebra_simps)

lemma zfree_ok:
  assumes "z_ok st" and "map_of (z_blocks st) p = Some sz"
  shows "\<exists>st'. zfree (Some p) st = Some st' \<and> z_ok st' \<and>
    map_of (z_blocks st') = (map_of (z_blocks st))(p := None) \<and>
    used_memory st' = used_memory st - (sz + of_nat HEADER)"
  using assms by (auto simp: zfree_def z_ok_def sum_delete distinct_drop_block map_of_drop_block)

lemma zrealloc_ok:
  assumes "z_ok st" and "map_of (z_blocks st) p = Some old"
    and "q + HEADER = p \<or> fresh_for (Some q) st"
  shows "\<exists>st'. zrealloc (Some q) (Some p) sz st = Some (Some (q + HEADER), st') \<and> z_ok st' \<and>
    map_of (z_blocks st') = (map_of (z_blocks st))(p := None, q + HEADER \<mapsto> sz)"
proof -
  have "q + HEADER \<notin> fst ` set (drop_block p (z_blocks st))"
    using assms(3) by (auto simp: fresh_for_def set_drop_block)
  then show ?thesis using assms(1,2)
    by (auto simp: zrealloc_def z_ok_def sum_delete distinct_drop_block map_of_drop_block algebra_simps)
qed

lemma zrealloc_fails:
  assumes "map_of (z_blocks st) p = Some old"
  shows "zrealloc None (Some p) sz st = Some (None, st)"
  using assms by (simp add: zrealloc_def)

lemma zstrdup_ok:
  assumes "z_ok st" and "fresh_for (Some q) st"
  shows "\<exists>st'. zstrdup (Some q) s st = Some (q + HEADER, cstr s @ [NUL], st') \<and> z_ok st' \<and>
    map_of (z_blocks st') (q + HEADER) = Some (of_nat (length (cstr s @ [NUL])))"
  using zmalloc_ok [OF assms, of "of_nat (strlen s) + 1"]
  by (auto simp: zstrdup_def strlen_def Let_def add.commute)

text \<open>A block that was allocated and freed leaves the counter where it was.\<close>

lemma zmalloc_zfree:
  assumes "z_ok st" and "fresh_for (Some q) st" and "zmalloc (Some q) sz st = Some (p, st1)"
  shows "\<exists>st2. zfree (Some p) st1 = Some st2 \<and> zmalloc_used_memory st2 = zmalloc_used_memory st \<and>
    map_of (z_blocks st2) = map_of (z_blocks st)"
proof -
  from zmalloc_ok [OF assms(1,2), of sz] assms(3) have st1: "p = q + HEADER" "z_ok st1"
    "map_of (z_blocks st1) = (map_of (z_blocks st))(q + HEADER \<mapsto> sz)" by auto
  have "used_memory st1 = used_memory st + (sz + of_nat HEADER)"
    using assms(3) by (auto simp: zmalloc_def Let_def)
  moreover have "map_of (z_blocks st) (q + HEADER) = None"
    using assms(2) by (simp add: fresh_for_def map_of_eq_None_iff)
  then have "(map_of (z_blocks st1))(p := None) = map_of (z_blocks st)"
    using st1 by auto
  ultimately show ?thesis using zfree_ok [OF st1(2), of p sz] st1
    by (auto simp: zmalloc_used_memory_def)
qed

lemma malloc_free_accounts:
  assumes "z_ok st" and "fresh_for (Some q) st"
  shows "\<exists>p st1 st2. zmalloc (Some q) sz st = Some (p, st1) \<and> z_ok st1 \<and> map_of (z_blocks st1) p = Some sz \<and>
    zfree (Some p) st1 = Some st2 \<and> z_ok st2 \<and> zmalloc_used_memory st2 = zmalloc_used_memory st \<and>
    map_of (z_blocks st2) = map_of (z_blocks st)"
proof -
  from zmalloc_ok [OF assms, of sz] obtain st1 where 1: "zmalloc (Some q) sz st = Some (q + HEADER, st1)" "z_ok st1"
    "map_of (z_blocks st1) = (map_of (z_blocks st))(q + HEADER \<mapsto> sz)" by blast
  from zmalloc_zfree [OF assms 1(1)] zfree_ok [OF 1(2), of "q + HEADER" sz] 1 show ?thesis by auto
qed

end
