(* ===== verification/Adlist.thy ===== *)
theory Adlist
  imports Prelude
begin

text \<open>
  The doubly linked lists of \<open>data_struct/adlist.c\<close>, over an explicit heap of nodes: a node is an
  address with a \<open>prev\<close> and a \<open>next\<close> pointer, and every dereference of NULL or of an address that
  holds no node is undefined. The three function pointers of a list are fields of the record;
  \<open>free\<close> acts on a state of its own, since the values a list owns live elsewhere. The result of
  \<open>zmalloc\<close> is an argument of the operations that allocate (NULL is \<^term>\<open>None\<close>).

  The second half shows that the pointer operations implement operations on the sequence of
  values: \<open>list_rep\<close> relates a list header and a heap to the nodes it links, in order.
\<close>

section \<open>Nodes, lists, iterators\<close>

record 'a ListNode =
  n_prev :: "addr option"
  n_next :: "addr option"
  n_value :: 'a

record ('a, 's) List =
  head :: "addr option"
  tail :: "addr option"
  l_dup :: "('a \<Rightarrow> 'a option) option"
  l_free :: "('a \<Rightarrow> 's \<Rightarrow> 's option) option"
  l_match :: "('a \<Rightarrow> 'a \<Rightarrow> bool) option"
  l_len :: u32

record ListIter =
  it_next :: "addr option"
  it_direction :: nat

type_synonym 'a nodes = "addr \<rightharpoonup> 'a ListNode"

definition AL_START_HEAD :: nat where "AL_START_HEAD = 0"
definition AL_START_TAIL :: nat where "AL_START_TAIL = 1"

definition upd_node :: "addr \<Rightarrow> ('a ListNode \<Rightarrow> 'a ListNode) \<Rightarrow> 'a nodes \<Rightarrow> 'a nodes option" where
  "upd_node p f h = (case h p of None \<Rightarrow> None | Some n \<Rightarrow> Some (h(p \<mapsto> f n)))"

section \<open>Operations\<close>

definition listCreate :: "('a, 's) List" where
  "listCreate = \<lparr>head = None, tail = None, l_dup = None, l_free = None, l_match = None, l_len = 0\<rparr>"

definition free_value :: "('a, 's) List \<Rightarrow> 'a \<Rightarrow> 's \<Rightarrow> 's option" where
  "free_value l v s = (case l_free l of None \<Rightarrow> Some s | Some f \<Rightarrow> f v s)"

fun release_loop ::
  "('a, 's) List \<Rightarrow> nat \<Rightarrow> addr option \<Rightarrow> 'a nodes \<times> 's \<Rightarrow> ('a nodes \<times> 's) option"
where
  "release_loop l 0 current (h, s) = Some (h, s)"
| "release_loop l (Suc n) None (h, s) = None"
| "release_loop l (Suc n) (Some p) (h, s) =
     (case h p of None \<Rightarrow> None
      | Some node \<Rightarrow>
          (case free_value l (n_value node) s of None \<Rightarrow> None
           | Some s' \<Rightarrow> release_loop l n (n_next node) (h(p := None), s')))"

definition listRelease :: "('a, 's) List \<Rightarrow> 'a nodes \<Rightarrow> 's \<Rightarrow> ('a nodes \<times> 's) option" where
  "listRelease l h s = release_loop l (unat (l_len l)) (head l) (h, s)"

text \<open>A failed allocation returns NULL, here \<^term>\<open>None\<close> in the second component.\<close>

definition listAddNodeHead ::
  "addr option \<Rightarrow> 'a \<Rightarrow> ('a, 's) List \<Rightarrow> 'a nodes \<Rightarrow> ('a nodes \<times> ('a, 's) List option) option"
where
  "listAddNodeHead mem v l h =
     (case mem of
        None \<Rightarrow> Some (h, None)
      | Some p \<Rightarrow>
          if l_len l = 0
          then Some (h(p \<mapsto> \<lparr>n_prev = None, n_next = None, n_value = v\<rparr>),
                     Some (l\<lparr>head := Some p, tail := Some p, l_len := l_len l + 1\<rparr>))
          else do { old \<leftarrow> head l;
                    h \<leftarrow> upd_node old (n_prev_update (\<lambda>_. Some p))
                           (h(p \<mapsto> \<lparr>n_prev = None, n_next = head l, n_value = v\<rparr>));
                    Some (h, Some (l\<lparr>head := Some p, l_len := l_len l + 1\<rparr>)) })"

definition listAddNodeTail ::
  "addr option \<Rightarrow> 'a \<Rightarrow> ('a, 's) List \<Rightarrow> 'a nodes \<Rightarrow> ('a nodes \<times> ('a, 's) List option) option"
where
  "listAddNodeTail mem v l h =
     (case mem of
        None \<Rightarrow> Some (h, None)
      | Some p \<Rightarrow>
          if l_len l = 0
          then Some (h(p \<mapsto> \<lparr>n_prev = None, n_next = None, n_value = v\<rparr>),
                     Some (l\<lparr>head := Some p, tail := Some p, l_len := l_len l + 1\<rparr>))
          else do { old \<leftarrow> tail l;
                    h \<leftarrow> upd_node old (n_next_update (\<lambda>_. Some p))
                           (h(p \<mapsto> \<lparr>n_prev = tail l, n_next = None, n_value = v\<rparr>));
                    Some (h, Some (l\<lparr>tail := Some p, l_len := l_len l + 1\<rparr>)) })"

definition listDelNode ::
  "('a, 's) List \<Rightarrow> addr \<Rightarrow> 'a nodes \<Rightarrow> 's \<Rightarrow> ('a nodes \<times> ('a, 's) List \<times> 's) option"
where
  "listDelNode l p h s =
     do { node \<leftarrow> h p;
          (h, l) \<leftarrow> (case n_prev node of
                       Some q \<Rightarrow> map_option (\<lambda>h. (h, l)) (upd_node q (n_next_update (\<lambda>_. n_next node)) h)
                     | None \<Rightarrow> Some (h, l\<lparr>head := n_next node\<rparr>));
          (h, l) \<leftarrow> (case n_next node of
                       Some q \<Rightarrow> map_option (\<lambda>h. (h, l)) (upd_node q (n_prev_update (\<lambda>_. n_prev node)) h)
                     | None \<Rightarrow> Some (h, l\<lparr>tail := n_prev node\<rparr>));
          s \<leftarrow> free_value l (n_value node) s;
          Some (h(p := None), l\<lparr>l_len := l_len l - 1\<rparr>, s) }"

definition listGetIterator :: "('a, 's) List \<Rightarrow> nat \<Rightarrow> ListIter" where
  "listGetIterator l direction =
     \<lparr>it_next = (if direction = AL_START_HEAD then head l else tail l), it_direction = direction\<rparr>"

definition listNextElement :: "'a nodes \<Rightarrow> ListIter \<Rightarrow> (addr option \<times> ListIter) option" where
  "listNextElement h iter =
     (case it_next iter of
        None \<Rightarrow> Some (None, iter)
      | Some p \<Rightarrow>
          (case h p of None \<Rightarrow> None
           | Some node \<Rightarrow>
               Some (Some p, iter\<lparr>it_next := (if it_direction iter = AL_START_HEAD
                                              then n_next node else n_prev node)\<rparr>)))"

text \<open>
  \<open>listSearchKey\<close> and \<open>listDup\<close> run an iterator to its end; the number of elements bounds the
  number of steps.
\<close>

definition value_matches :: "('a, 's) List \<Rightarrow> 'a \<Rightarrow> 'a \<Rightarrow> bool" where
  "value_matches l v key = (case l_match l of Some m \<Rightarrow> m v key | None \<Rightarrow> key = v)"

partial_function (option) search_loop ::
  "('a, 's) List \<Rightarrow> 'a \<Rightarrow> 'a nodes \<Rightarrow> ListIter \<Rightarrow> addr option option"
where
  "search_loop l key h iter =
     do { (cur, iter) \<leftarrow> listNextElement h iter;
          case cur of
            None \<Rightarrow> Some None
          | Some p \<Rightarrow> do { node \<leftarrow> h p;
                          if value_matches l (n_value node) key then Some (Some p)
                          else search_loop l key h iter } }"

definition listSearchKey :: "('a, 's) List \<Rightarrow> 'a \<Rightarrow> 'a nodes \<Rightarrow> addr option option" where
  "listSearchKey l key h = search_loop l key h (listGetIterator l AL_START_HEAD)"

fun walk :: "('a ListNode \<Rightarrow> addr option) \<Rightarrow> nat \<Rightarrow> addr option \<Rightarrow> 'a nodes \<Rightarrow> addr option option" where
  "walk dir 0 node h = Some node"
| "walk dir (Suc n) None h = Some None"
| "walk dir (Suc n) (Some p) h = (case h p of None \<Rightarrow> None | Some node \<Rightarrow> walk dir n (dir node) h)"

text \<open>Negating \<open>INT_MIN\<close> overflows.\<close>

definition listIndex :: "('a, 's) List \<Rightarrow> int \<Rightarrow> 'a nodes \<Rightarrow> addr option option" where
  "listIndex l index h =
     (if index < 0
      then (if - index > INT_MAX then None else walk n_prev (nat (- index - 1)) (tail l) h)
      else walk n_next (nat index) (head l) h)"

text \<open>
  \<open>listDup\<close>: \<open>mems\<close> are the results of the successive calls of \<open>zmalloc\<close> for the nodes, and \<open>first_mem\<close>
  says whether the header could be allocated. The result is the copy, or NULL with everything
  released that had been built.
\<close>

fun dup_loop ::
  "('a, 's) List \<Rightarrow> ListIter \<Rightarrow> ('a, 's) List \<Rightarrow> addr option list \<Rightarrow> 'a nodes \<Rightarrow> 's \<Rightarrow>
   ('a nodes \<times> 's \<times> ('a, 's) List option) option"
where
  "dup_loop orig iter copy [] h s =
     do { (cur, iter) \<leftarrow> listNextElement h iter;
          case cur of None \<Rightarrow> Some (h, s, Some copy) | Some p \<Rightarrow> None }"
| "dup_loop orig iter copy (mem # mems) h s =
     do { (cur, iter) \<leftarrow> listNextElement h iter;
          case cur of
            None \<Rightarrow> Some (h, s, Some copy)
          | Some p \<Rightarrow>
              do { node \<leftarrow> h p;
                   case (case l_dup copy of Some d \<Rightarrow> d (n_value node) | None \<Rightarrow> Some (n_value node)) of
                     None \<Rightarrow> map_option (\<lambda>(h, s). (h, s, None)) (listRelease copy h s)
                   | Some v \<Rightarrow>
                       do { (h, r) \<leftarrow> listAddNodeTail mem v copy h;
                            case r of
                              None \<Rightarrow> map_option (\<lambda>(h, s). (h, s, None)) (listRelease copy h s)
                            | Some copy \<Rightarrow> dup_loop orig iter copy mems h s } } }"

definition listDup ::
  "bool \<Rightarrow> addr option list \<Rightarrow> ('a, 's) List \<Rightarrow> 'a nodes \<Rightarrow> 's \<Rightarrow>
   ('a nodes \<times> 's \<times> ('a, 's) List option) option"
where
  "listDup first_mem mems orig h s =
     (if \<not> first_mem then Some (h, s, None)
      else dup_loop orig (listGetIterator orig AL_START_HEAD)
             (listCreate\<lparr>l_dup := l_dup orig, l_free := l_free orig, l_match := l_match orig\<rparr>) mems h s)"

section \<open>The sequence a list represents\<close>

definition first_of :: "(addr \<times> 'a) list \<Rightarrow> addr option \<Rightarrow> addr option" where
  "first_of xs nx = (case xs of [] \<Rightarrow> nx | (p, _) # _ \<Rightarrow> Some p)"

definition last_of :: "addr option \<Rightarrow> (addr \<times> 'a) list \<Rightarrow> addr option" where
  "last_of pr xs = (if xs = [] then pr else Some (fst (last xs)))"

fun dchain :: "'a nodes \<Rightarrow> addr option \<Rightarrow> (addr \<times> 'a) list \<Rightarrow> addr option \<Rightarrow> bool" where
  "dchain h pr [] nx = True"
| "dchain h pr ((p, v) # xs) nx =
     (h p = Some \<lparr>n_prev = pr, n_next = first_of xs nx, n_value = v\<rparr> \<and> dchain h (Some p) xs nx)"

definition list_rep :: "'a nodes \<Rightarrow> ('a, 's) List \<Rightarrow> (addr \<times> 'a) list \<Rightarrow> bool" where
  "list_rep h l xs \<longleftrightarrow> dchain h None xs None \<and> distinct (map fst xs) \<and> head l = first_of xs None \<and>
     tail l = last_of None xs \<and> l_len l = of_nat (length xs) \<and> length xs < 2 ^ 32"

lemma first_of_simps [simp]:
  "first_of [] nx = nx" "first_of ((p, v) # xs) nx = Some p"
  "first_of (xs @ ys) nx = first_of xs (first_of ys nx)"
  by (auto simp: first_of_def split: list.splits)

lemma last_of_simps [simp]:
  "last_of pr [] = pr" "last_of pr ((p, v) # xs) = last_of (Some p) xs"
  "last_of pr (xs @ ys) = last_of (last_of pr xs) ys"
  by (auto simp: last_of_def)

lemma dchain_append:
  "dchain h pr (xs @ ys) nx \<longleftrightarrow> dchain h pr xs (first_of ys nx) \<and> dchain h (last_of pr xs) ys nx"
  by (induction xs arbitrary: pr) auto

lemma dchain_frame [simp]: "p \<notin> fst ` set xs \<Longrightarrow> dchain (h(p := n)) pr xs nx = dchain h pr xs nx"
  by (induction xs arbitrary: pr) auto

lemma dchain_cong: "(\<And>p. p \<in> fst ` set xs \<Longrightarrow> h p = h' p) \<Longrightarrow> dchain h pr xs nx = dchain h' pr xs nx"
  by (induction xs arbitrary: pr) auto

text \<open>Relinking the neighbours of a segment.\<close>

lemma dchain_set_next:
  assumes "dchain h pr (xs @ [(q, v)]) nx" and "distinct (map fst (xs @ [(q, v)]))"
  shows "\<exists>h'. upd_node q (n_next_update (\<lambda>_. nx')) h = Some h' \<and> dchain h' pr (xs @ [(q, v)]) nx' \<and>
    (\<forall>p. p \<noteq> q \<longrightarrow> h' p = h p) \<and> h' q = Some \<lparr>n_prev = last_of pr xs, n_next = nx', n_value = v\<rparr>"
  using assms by (auto simp: dchain_append upd_node_def image_iff)

lemma dchain_set_prev:
  assumes "dchain h pr ((q, v) # ys) nx" and "distinct (map fst ((q, v) # ys))"
  shows "\<exists>h'. upd_node q (n_prev_update (\<lambda>_. pr')) h = Some h' \<and> dchain h' pr' ((q, v) # ys) nx \<and>
    (\<forall>p. p \<noteq> q \<longrightarrow> h' p = h p)"
  using assms by (auto simp: upd_node_def image_iff)

lemma list_rep_len_0 [simp]: "list_rep h l xs \<Longrightarrow> l_len l = 0 \<longleftrightarrow> xs = []"
  by (auto simp: list_rep_def)

lemma list_rep_unat_len: "list_rep h l xs \<Longrightarrow> unat (l_len l) = length xs"
  by (simp add: list_rep_def)

section \<open>The operations implement the sequence operations\<close>

lemma list_rep_create: "list_rep h listCreate []"
  by (simp add: list_rep_def listCreate_def)

lemma list_rep_frame:
  "list_rep h l xs \<Longrightarrow> (\<And>p. p \<in> fst ` set xs \<Longrightarrow> h' p = h p) \<Longrightarrow> list_rep h' l xs"
  using dchain_cong [of xs h' h] by (simp add: list_rep_def)

lemma len_Suc: "length xs + 1 < 2 ^ 32 \<Longrightarrow> (of_nat (length xs) :: u32) + 1 = of_nat (Suc (length xs))"
  by simp

text \<open>Unlinking from the left neighbour, or moving the head if there is none; and the mirror image.\<close>

lemma unlink_left:
  assumes "dchain h None xs nx" and "distinct (map fst xs)"
  shows "\<exists>h1. (case last_of None xs of
        Some q \<Rightarrow> map_option (\<lambda>h. (h, l)) (upd_node q (n_next_update (\<lambda>_. nx')) h)
      | None \<Rightarrow> Some (h, l\<lparr>head := nx'\<rparr>)) = Some (h1, if xs = [] then l\<lparr>head := nx'\<rparr> else l) \<and>
    dchain h1 None xs nx' \<and> (\<forall>p. p \<notin> fst ` set xs \<longrightarrow> h1 p = h p)"
proof (cases xs rule: rev_cases)
  case Nil
  then show ?thesis by simp
next
  case (snoc us q)
  obtain a w where q: "q = (a, w)" by (cases q)
  from dchain_set_next [of h None us a w nx nx'] assms
  obtain h' where "upd_node a (n_next_update (\<lambda>_. nx')) h = Some h'" "dchain h' None (us @ [(a, w)]) nx'"
    "\<forall>p. p \<noteq> a \<longrightarrow> h' p = h p" unfolding snoc q by blast
  then show ?thesis unfolding snoc q by auto
qed

lemma unlink_right:
  assumes "dchain h pr ys None" and "distinct (map fst ys)"
  shows "\<exists>h1. (case first_of ys None of
        Some q \<Rightarrow> map_option (\<lambda>h. (h, l)) (upd_node q (n_prev_update (\<lambda>_. pr')) h)
      | None \<Rightarrow> Some (h, l\<lparr>tail := pr'\<rparr>)) = Some (h1, if ys = [] then l\<lparr>tail := pr'\<rparr> else l) \<and>
    dchain h1 pr' ys None \<and> (\<forall>p. p \<notin> fst ` set ys \<longrightarrow> h1 p = h p)"
proof (cases ys)
  case Nil
  then show ?thesis by simp
next
  case (Cons q us)
  obtain a w where q: "q = (a, w)" by (cases q)
  from dchain_set_prev [of h pr a w us None pr'] assms
  obtain h' where "upd_node a (n_prev_update (\<lambda>_. pr')) h = Some h'" "dchain h' pr' ((a, w) # us) None"
    "\<forall>p. p \<noteq> a \<longrightarrow> h' p = h p" unfolding Cons q by blast
  then show ?thesis unfolding Cons q by auto
qed

lemma listDelNode_rep:
  assumes rep: "list_rep h l (xs @ (p, v) # ys)" and free: "free_value l v s = Some s'"
  shows "\<exists>h' l'. listDelNode l p h s = Some (h', l', s') \<and> list_rep h' l' (xs @ ys) \<and> h' p = None \<and>
    (\<forall>q. q \<notin> fst ` set (xs @ (p, v) # ys) \<longrightarrow> h' q = h q) \<and>
    l_free l' = l_free l \<and> l_dup l' = l_dup l \<and> l_match l' = l_match l"
proof -
  let ?pr = "last_of None xs" and ?nx = "first_of ys None"
  from rep have ch: "dchain h None xs (Some p)" "h p = Some \<lparr>n_prev = ?pr, n_next = ?nx, n_value = v\<rparr>"
    "dchain h (Some p) ys None" and d: "distinct (map fst xs)" "distinct (map fst ys)"
    "p \<notin> fst ` set xs" "p \<notin> fst ` set ys" "fst ` set xs \<inter> fst ` set ys = {}"
    and hd: "head l = first_of xs (Some p)" and tl: "tail l = last_of (Some p) ys"
    and len: "l_len l = of_nat (Suc (length xs + length ys))" "Suc (length xs + length ys) < 2 ^ 32"
    by (auto simp: list_rep_def dchain_append)
  define l1 where "l1 = (if xs = [] then l\<lparr>head := ?nx\<rparr> else l)"
  define l2 where "l2 = (if ys = [] then l1\<lparr>tail := ?pr\<rparr> else l1)"
  from unlink_left [OF ch(1) d(1), where l = l and nx' = ?nx] obtain h1 where
    h1: "(case ?pr of Some q \<Rightarrow> map_option (\<lambda>h. (h, l)) (upd_node q (n_next_update (\<lambda>_. ?nx)) h)
      | None \<Rightarrow> Some (h, l\<lparr>head := ?nx\<rparr>)) = Some (h1, l1)" "dchain h1 None xs ?nx"
    "\<forall>p. p \<notin> fst ` set xs \<longrightarrow> h1 p = h p" unfolding l1_def by blast
  have "dchain h1 (Some p) ys None"
    using ch(3) dchain_cong [of ys h1 h] h1(3) d(5) by blast
  from unlink_right [OF this d(2), where l = l1 and pr' = ?pr] obtain h2 where
    h2: "(case ?nx of Some q \<Rightarrow> map_option (\<lambda>h. (h, l1)) (upd_node q (n_prev_update (\<lambda>_. ?pr)) h1)
      | None \<Rightarrow> Some (h1, l1\<lparr>tail := ?pr\<rparr>)) = Some (h2, l2)" "dchain h2 ?pr ys None"
    "\<forall>p. p \<notin> fst ` set ys \<longrightarrow> h2 p = h1 p" unfolding l2_def by blast
  have "dchain h2 None xs ?nx"
    using h1(2) dchain_cong [of xs h2 h1] h2(3) d(5) by blast
  then have chain: "dchain (h2(p := None)) None (xs @ ys) None"
    using h2(2) d(3,4) by (simp add: dchain_append)
  have "l_len l2 - 1 = of_nat (length (xs @ ys))" using len by (simp add: l1_def l2_def)
  moreover have "head l2 = first_of (xs @ ys) None" "tail l2 = last_of None (xs @ ys)"
    using hd tl by (auto simp: l1_def l2_def first_of_def last_of_def split: list.splits)
  ultimately have rep': "list_rep (h2(p := None)) (l2\<lparr>l_len := l_len l2 - 1\<rparr>) (xs @ ys)"
    using chain d len(2) by (auto simp: list_rep_def)
  have fv: "free_value l2 v s = Some s'" using free by (simp add: free_value_def l1_def l2_def)
  define nd where "nd = \<lparr>n_prev = ?pr, n_next = ?nx, n_value = v\<rparr>"
  have nd: "h p = Some nd" "n_prev nd = ?pr" "n_next nd = ?nx" "n_value nd = v"
    by (simp_all add: nd_def ch(2))
  have "listDelNode l p h s = Some (h2(p := None), l2\<lparr>l_len := l_len l2 - 1\<rparr>, s')"
    unfolding listDelNode_def nd(1) bind.bind_lunit nd(2-4) h1(1) prod.case h2(1) fv ..
  with rep' show ?thesis using h1(3) h2(3)
    by (intro exI [of _ "h2(p := None)"] exI [of _ "l2\<lparr>l_len := l_len l2 - 1\<rparr>"] conjI)
      (auto simp: l1_def l2_def image_Un)
qed

lemma listAddNodeHead_rep:
  assumes rep: "list_rep h l xs" and fresh: "p \<notin> fst ` set xs" and room: "length xs + 1 < 2 ^ 32"
  shows "\<exists>h' l'. listAddNodeHead (Some p) v l h = Some (h', Some l') \<and> list_rep h' l' ((p, v) # xs) \<and>
    (\<forall>q. q \<notin> insert p (fst ` set xs) \<longrightarrow> h' q = h q) \<and>
    l_free l' = l_free l \<and> l_dup l' = l_dup l \<and> l_match l' = l_match l"
proof (cases xs)
  case Nil
  with rep show ?thesis by (auto simp: listAddNodeHead_def list_rep_def)
next
  case (Cons q us)
  obtain a w where q: "q = (a, w)" by (cases q)
  let ?h = "h(p \<mapsto> \<lparr>n_prev = None, n_next = head l, n_value = v\<rparr>)"
  have hd: "head l = Some a" using rep by (simp add: list_rep_def Cons q)
  have "dchain ?h None ((a, w) # us) None" using rep fresh by (auto simp: list_rep_def Cons q)
  from dchain_set_prev [OF this, of "Some p"] rep obtain h' where
    h': "upd_node a (n_prev_update (\<lambda>_. Some p)) ?h = Some h'" "dchain h' (Some p) ((a, w) # us) None"
    "\<forall>r. r \<noteq> a \<longrightarrow> h' r = ?h r" by (auto simp: list_rep_def Cons q)
  have "p \<noteq> a" using fresh by (auto simp: Cons q)
  then have hp: "h' p = Some \<lparr>n_prev = None, n_next = Some a, n_value = v\<rparr>" using h'(3) hd by simp
  have "list_rep h' (l\<lparr>head := Some p, l_len := l_len l + 1\<rparr>) ((p, v) # xs)"
    using rep h'(2) hp fresh room len_Suc [OF room] by (auto simp: list_rep_def Cons q add.commute)
  moreover have "listAddNodeHead (Some p) v l h =
      Some (h', Some (l\<lparr>head := Some p, l_len := l_len l + 1\<rparr>))"
    using rep hd h'(1) by (simp add: listAddNodeHead_def list_rep_len_0 Cons)
  ultimately show ?thesis using h'(3) 
    by (intro exI [of _ h'] exI [of _ "l\<lparr>head := Some p, l_len := l_len l + 1\<rparr>"] conjI) (auto simp: Cons q)
qed

lemma listAddNodeTail_rep:
  assumes rep: "list_rep h l xs" and fresh: "p \<notin> fst ` set xs" and room: "length xs + 1 < 2 ^ 32"
  shows "\<exists>h' l'. listAddNodeTail (Some p) v l h = Some (h', Some l') \<and> list_rep h' l' (xs @ [(p, v)]) \<and>
    (\<forall>q. q \<notin> insert p (fst ` set xs) \<longrightarrow> h' q = h q) \<and>
    l_free l' = l_free l \<and> l_dup l' = l_dup l \<and> l_match l' = l_match l"
proof (cases xs rule: rev_cases)
  case Nil
  with rep show ?thesis by (auto simp: listAddNodeTail_def list_rep_def)
next
  case (snoc us q)
  obtain a w where q: "q = (a, w)" by (cases q)
  let ?h = "h(p \<mapsto> \<lparr>n_prev = tail l, n_next = None, n_value = v\<rparr>)"
  have tl: "tail l = Some a" using rep by (simp add: list_rep_def snoc q)
  have "dchain ?h None (us @ [(a, w)]) None" using rep fresh by (auto simp: list_rep_def snoc q)
  from dchain_set_next [OF this, of "Some p"] rep obtain h' where
    h': "upd_node a (n_next_update (\<lambda>_. Some p)) ?h = Some h'" "dchain h' None (us @ [(a, w)]) (Some p)"
    "\<forall>r. r \<noteq> a \<longrightarrow> h' r = ?h r" by (auto simp: list_rep_def snoc q)
  have "p \<noteq> a" using fresh by (auto simp: snoc q)
  then have hp: "h' p = Some \<lparr>n_prev = Some a, n_next = None, n_value = v\<rparr>" using h'(3) tl by simp
  have chain: "dchain h' None (xs @ [(p, v)]) None"
    using h'(2) hp dchain_append [of h' None xs "[(p, v)]" None] by (simp add: snoc q)
  have "list_rep h' (l\<lparr>tail := Some p, l_len := l_len l + 1\<rparr>) (xs @ [(p, v)])"
    using rep chain fresh room len_Suc [OF room]
    by (auto simp: list_rep_def add.commute snoc q)
  moreover have "listAddNodeTail (Some p) v l h =
      Some (h', Some (l\<lparr>tail := Some p, l_len := l_len l + 1\<rparr>))"
    using rep tl h'(1) by (simp add: listAddNodeTail_def list_rep_len_0 snoc)
  ultimately show ?thesis using h'(3) 
    by (intro exI [of _ h'] exI [of _ "l\<lparr>tail := Some p, l_len := l_len l + 1\<rparr>"] conjI) (auto simp: snoc q)
qed

text \<open>Walking: \<open>listIndex\<close> finds the node at the (possibly negative) index, or NULL outside the list.\<close>

lemma walk_next:
  "dchain h pr xs None \<Longrightarrow> walk n_next n (first_of xs None) h =
     Some (if n < length xs then Some (fst (xs ! n)) else None)"
proof (induction xs arbitrary: n pr)
  case Nil
  then show ?case by (cases n) auto
next
  case (Cons x xs)
  then show ?case by (cases n; cases x) auto
qed

lemma walk_prev:
  "dchain h None xs nx \<Longrightarrow> walk n_prev n (last_of None xs) h =
     Some (if n < length xs then Some (fst (rev xs ! n)) else None)"
proof (induction xs arbitrary: n nx rule: rev_induct)
  case Nil
  then show ?case by (cases n) auto
next
  case (snoc x xs)
  then show ?case by (cases n; cases x) (auto simp: dchain_append)
qed

definition index_spec :: "'a list \<Rightarrow> int \<Rightarrow> 'a option" where
  "index_spec xs i =
     (let n = int (length xs); j = (if i < 0 then n + i else i)
      in if 0 \<le> j \<and> j < n then Some (xs ! nat j) else None)"

lemma listIndex_rep:
  assumes "list_rep h l xs" and "INT_MIN < i"
  shows "listIndex l i h = Some (map_option fst (index_spec xs i))"
proof (cases "i < 0")
  case True
  then have "listIndex l i h = walk n_prev (nat (- i - 1)) (tail l) h"
    using assms(2) by (simp add: listIndex_def c_limits)
  also have "\<dots> = Some (if nat (- i - 1) < length xs then Some (fst (rev xs ! nat (- i - 1))) else None)"
    using assms(1) walk_prev [of h xs None] by (simp add: list_rep_def)
  also have "\<dots> = Some (map_option fst (index_spec xs i))"
  proof (cases "nat (- i - 1) < length xs")
    case lt: True
    have "length xs - Suc (nat (- i - 1)) = nat (int (length xs) + i)" using True lt by linarith
    then show ?thesis using True lt by (simp add: index_spec_def rev_nth Let_def)
  qed (use True in \<open>auto simp: index_spec_def Let_def\<close>)
  finally show ?thesis .
next
  case False
  then show ?thesis using assms(1) walk_next [of h None xs "nat i"]
    by (auto simp: listIndex_def list_rep_def index_spec_def Let_def)
qed

text \<open>Iterating from the head meets every node once, in order; from the tail in reverse.\<close>

lemma listNextElement_head:
  assumes "dchain h pr xs None"
  shows "listNextElement h \<lparr>it_next = first_of xs None, it_direction = AL_START_HEAD\<rparr> =
    Some (case xs of [] \<Rightarrow> (None, \<lparr>it_next = None, it_direction = AL_START_HEAD\<rparr>)
          | (p, v) # ys \<Rightarrow> (Some p, \<lparr>it_next = first_of ys None, it_direction = AL_START_HEAD\<rparr>))"
  using assms by (auto simp: listNextElement_def split: list.splits)

lemma listNextElement_tail:
  assumes "dchain h None xs nx"
  shows "listNextElement h \<lparr>it_next = last_of None xs, it_direction = AL_START_TAIL\<rparr> =
    Some (if xs = [] then (None, \<lparr>it_next = None, it_direction = AL_START_TAIL\<rparr>)
          else (Some (fst (last xs)), \<lparr>it_next = last_of None (butlast xs), it_direction = AL_START_TAIL\<rparr>))"
  using assms
  by (cases xs rule: rev_cases)
    (auto simp: listNextElement_def dchain_append AL_START_HEAD_def AL_START_TAIL_def)

text \<open>Search returns the first node whose value matches.\<close>

lemma search_loop_rep:
  "dchain h pr xs None \<Longrightarrow>
   search_loop l key h \<lparr>it_next = first_of xs None, it_direction = AL_START_HEAD\<rparr> =
     Some (map_option fst (find (\<lambda>(p, v). value_matches l v key) xs))"
proof (induction xs arbitrary: pr)
  case Nil
  then show ?case by (subst search_loop.simps) (simp add: listNextElement_def)
next
  case (Cons x xs)
  obtain p v where x: "x = (p, v)" by (cases x)
  have "dchain h (Some p) xs None" using Cons.prems by (simp add: x)
  from Cons.IH [OF this] show ?case using Cons.prems
    by (subst search_loop.simps, subst listNextElement_head [OF Cons.prems]) (simp add: x)
qed

lemma listSearchKey_rep:
  "list_rep h l xs \<Longrightarrow>
   listSearchKey l key h = Some (map_option fst (find (\<lambda>(p, v). value_matches l v key) xs))"
  using search_loop_rep [of h None xs l key]
  by (simp add: listSearchKey_def listGetIterator_def list_rep_def)

text \<open>Release frees every value in order and every node, and touches nothing else.\<close>

lemma release_loop_rep:
  assumes "dchain h pr xs None" and "distinct (map fst xs)" and "foldM (free_value l) (map snd xs) s = Some s'"
  shows "\<exists>h'. release_loop l (length xs) (first_of xs None) (h, s) = Some (h', s') \<and>
    (\<forall>p. h' p = (if p \<in> fst ` set xs then None else h p))"
  using assms
proof (induction xs arbitrary: h pr s)
  case Nil
  then show ?case by simp
next
  case (Cons x xs)
  obtain p v where x: "x = (p, v)" by (cases x)
  from Cons.prems obtain s1 where s1: "free_value l v s = Some s1"
    "foldM (free_value l) (map snd xs) s1 = Some s'" by (auto simp: x split: option.splits)
  have "dchain (h(p := None)) (Some p) xs None" using Cons.prems by (auto simp: x)
  moreover have "distinct (map fst xs)" using Cons.prems(2) by (simp add: x)
  ultimately obtain h' where
    "release_loop l (length xs) (first_of xs None) (h(p := None), s1) = Some (h', s')"
    "\<forall>q. h' q = (if q \<in> fst ` set xs then None else (h(p := None)) q)"
    using Cons.IH s1(2) by blast
  then show ?case using Cons.prems(1) s1(1) by (auto simp: x)
qed

theorem listRelease_rep:
  assumes "list_rep h l xs" and "foldM (free_value l) (map snd xs) s = Some s'"
  shows "\<exists>h'. listRelease l h s = Some (h', s') \<and> (\<forall>p. h' p = (if p \<in> fst ` set xs then None else h p))"
  using release_loop_rep [of h None xs l s s'] assms list_rep_unat_len [OF assms(1)]
  by (simp add: listRelease_def list_rep_def)

section \<open>Interfaces\<close>

text \<open>
  What a list may ask of its \<open>free\<close> method: as long as the state says that the listed values are
  owned, freeing any one of them succeeds and leaves the others owned.
\<close>

locale value_owner =
  fixes freev :: "'a \<Rightarrow> 's \<Rightarrow> 's option"
    and owns :: "'a list \<Rightarrow> 's \<Rightarrow> bool"
  assumes free_owned: "owns (xs @ x # ys) s \<Longrightarrow> \<exists>s'. freev x s = Some s' \<and> owns (xs @ ys) s'"
begin

lemma free_all: "owns xs s \<Longrightarrow> \<exists>s'. foldM freev xs s = Some s' \<and> owns [] s'"
proof (rule foldM_rule [where I = owns])
  fix x ys s
  assume "owns (x # ys) s"
  then show "\<exists>s'. freev x s = Some s' \<and> owns ys s'" using free_owned [of "[]" x ys s] by simp
qed

end

text \<open>
  What the clients of a list rely on when they take elements off its ends: the queue of replies
  (from the head), \<open>LPOP\<close> and \<open>RPOP\<close>, the two loops of \<open>LTRIM\<close>.
\<close>

locale deque =
  fixes rep :: "'st \<Rightarrow> 'a list \<Rightarrow> bool"
    and pop_first :: "'st \<Rightarrow> 'st option"
    and pop_last :: "'st \<Rightarrow> 'st option"
  assumes pop_first_rep: "rep st (x # xs) \<Longrightarrow> \<exists>st'. pop_first st = Some st' \<and> rep st' xs"
    and pop_last_rep: "rep st (xs @ [x]) \<Longrightarrow> \<exists>st'. pop_last st = Some st' \<and> rep st' xs"
begin

lemma pop_first_times:
  "rep st xs \<Longrightarrow> n \<le> length xs \<Longrightarrow> \<exists>st'. timesM n pop_first st = Some st' \<and> rep st' (drop n xs)"
proof (induction n arbitrary: st xs)
  case 0
  then show ?case by simp
next
  case (Suc n)
  then obtain y ys where xs: "xs = y # ys" by (cases xs) auto
  from pop_first_rep [OF Suc.prems(1) [unfolded xs]] obtain st' where
    "pop_first st = Some st'" "rep st' ys" by blast
  then show ?case using Suc.IH [of st' ys] Suc.prems(2) by (simp add: xs)
qed

lemma pop_last_times:
  "rep st xs \<Longrightarrow> n \<le> length xs \<Longrightarrow>
   \<exists>st'. timesM n pop_last st = Some st' \<and> rep st' (take (length xs - n) xs)"
proof (induction n arbitrary: st xs)
  case 0
  then show ?case by simp
next
  case (Suc n)
  then obtain ys y where xs: "xs = ys @ [y]" by (cases xs rule: rev_cases) auto
  from pop_last_rep [OF Suc.prems(1) [unfolded xs]] obtain st' where
    "pop_last st = Some st'" "rep st' ys" by blast
  then show ?case using Suc.IH [of st' ys] Suc.prems(2) by (simp add: xs)
qed

lemma trim_both:
  assumes "rep st xs" and "a + b \<le> length xs"
  shows "\<exists>st'. (timesM a pop_first st \<bind> timesM b pop_last) = Some st' \<and>
    rep st' (take (length xs - a - b) (drop a xs))"
proof -
  from pop_first_times [OF assms(1), of a] assms(2) obtain st1 where
    "timesM a pop_first st = Some st1" "rep st1 (drop a xs)" by auto
  moreover have "b \<le> length xs - a" using assms(2) by linarith
  moreover from pop_last_times [OF calculation(2), of b] this obtain st2 where
    "timesM b pop_last st1 = Some st2" "rep st2 (take (length xs - a - b) (drop a xs))" by auto
  ultimately show ?thesis by auto
qed

end

text \<open>The calls \<open>listDelNode(l, listFirst(l))\<close> and \<open>listDelNode(l, listLast(l))\<close> of the commands.\<close>

definition listDelFirst :: "'a nodes \<times> ('a, 's) List \<times> 's \<Rightarrow> ('a nodes \<times> ('a, 's) List \<times> 's) option" where
  "listDelFirst st = (case st of (h, l, s) \<Rightarrow> head l \<bind> (\<lambda>p. listDelNode l p h s))"

definition listDelLast :: "'a nodes \<times> ('a, 's) List \<times> 's \<Rightarrow> ('a nodes \<times> ('a, 's) List \<times> 's) option" where
  "listDelLast st = (case st of (h, l, s) \<Rightarrow> tail l \<bind> (\<lambda>p. listDelNode l p h s))"

definition owned_rep ::
  "('a \<Rightarrow> 's \<Rightarrow> 's option) \<Rightarrow> ('a list \<Rightarrow> 's \<Rightarrow> bool) \<Rightarrow> 'a nodes \<times> ('a, 's) List \<times> 's \<Rightarrow> 'a list \<Rightarrow> bool"
where
  "owned_rep f owns st vs \<longleftrightarrow> (case st of (h, l, s) \<Rightarrow>
     free_value l = f \<and> owns vs s \<and> (\<exists>xs. list_rep h l xs \<and> map snd xs = vs))"

sublocale value_owner \<subseteq> owned: deque "owned_rep freev owns" listDelFirst listDelLast
proof
  have del: "\<exists>st'. listDelNode l p h s = Some st' \<and> owned_rep freev owns st' (map snd (us @ ws))"
    if asm: "list_rep h l (us @ (p, v) # ws)" "free_value l = freev" "owns (map snd us @ v # map snd ws) s"
    for h l s us p v ws
  proof -
    from free_owned [OF asm(3)] obtain s' where
      s': "free_value l v s = Some s'" "owns (map snd us @ map snd ws) s'" using asm(2) by auto
    from listDelNode_rep [OF asm(1) s'(1)] obtain h' l' where
      "listDelNode l p h s = Some (h', l', s')" "list_rep h' l' (us @ ws)" "l_free l' = l_free l" by blast
    moreover from this(3) have "free_value l' = freev" using asm(2) by (auto simp: free_value_def fun_eq_iff)
    ultimately show ?thesis using s'(2) by (auto simp: owned_rep_def)
  qed
  fix st x and xs :: "'a list"
  show "\<exists>st'. listDelFirst st = Some st' \<and> owned_rep freev owns st' xs"
    if "owned_rep freev owns st (x # xs)"
  proof -
    from that obtain h l s p v ws where st: "st = (h, l, s)" "list_rep h l ((p, v) # ws)"
      "free_value l = freev" "owns (v # map snd ws) s" "v = x" "map snd ws = xs"
      by (auto simp: owned_rep_def Cons_eq_map_conv)
    then have "head l = Some p" by (simp add: list_rep_def)
    with del [of h l "[]" p v ws s] st show ?thesis by (auto simp: listDelFirst_def)
  qed
  show "\<exists>st'. listDelLast st = Some st' \<and> owned_rep freev owns st' xs"
    if "owned_rep freev owns st (xs @ [x])"
  proof -
    from that obtain h l s ws where st: "st = (h, l, s)" "list_rep h l ws"
      "free_value l = freev" "owns (xs @ [x]) s" "map snd ws = xs @ [x]"
      by (auto simp: owned_rep_def)
    moreover from st(5) obtain us p v where ws: "ws = us @ [(p, v)]" "v = x" "map snd us = xs"
      by (cases ws rule: rev_cases) auto
    ultimately have "tail l = Some p" by (simp add: list_rep_def)
    with del [of h l us p v "[]" s] st ws show ?thesis by (auto simp: listDelLast_def)
  qed
qed

text \<open>Lists without a free method (the client list, the free list of objects) own nothing.\<close>

interpretation plain: value_owner "\<lambda>_ s. Some s" "\<lambda>_ _. True"
  by unfold_locales simp

end
