(* ===== verification/Ae.thy ===== *)
theory Ae
  imports Libc "HOL-Library.Signed_Division"
begin

text \<open>
  The event loop of \<open>event/ae.c\<close>: the two lists of registered events, their creation and deletion,
  and one turn of the loop. The callbacks are named by identifiers of type \<open>'p\<close> (file) and \<open>'t\<close>
  (time); what they do, the clock and \<open>select\<close> are functions on a state \<open>'w\<close> of the world, given to
  the loop in a record. The lists are those the \<open>next\<close> pointers make, head first. A \<open>fd_set\<close> is
  the list of its members; a descriptor outside it (\<open>FD_SETSIZE\<close>) is undefined behaviour.
\<close>

section \<open>Types\<close>

definition AE_OK :: int where "AE_OK = 0"
definition AE_ERR :: int where "AE_ERR = -1"
definition AE_NOMORE :: int where "AE_NOMORE = -1"
definition FD_SETSIZE :: int where "FD_SETSIZE = 1024"

text \<open>The bits of a mask and of the flags, as the positions of \<open>1\<close>, \<open>2\<close> and \<open>4\<close>.\<close>

definition AE_READABLE :: u32 where "AE_READABLE = 1"
definition AE_WRITABLE :: u32 where "AE_WRITABLE = 2"
definition AE_EXCEPTION :: u32 where "AE_EXCEPTION = 4"
definition AE_FILE_EVENTS :: u32 where "AE_FILE_EVENTS = 1"
definition AE_TIME_EVENTS :: u32 where "AE_TIME_EVENTS = 2"
definition AE_ALL_EVENTS :: u32 where "AE_ALL_EVENTS = AE_FILE_EVENTS OR AE_TIME_EVENTS"
definition AE_DONT_WAIT :: u32 where "AE_DONT_WAIT = 4"

lemmas ae_flags = AE_READABLE_def AE_WRITABLE_def AE_EXCEPTION_def AE_FILE_EVENTS_def
  AE_TIME_EVENTS_def AE_ALL_EVENTS_def AE_DONT_WAIT_def

definition has :: "u32 \<Rightarrow> u32 \<Rightarrow> bool" where
  "has msk b \<longleftrightarrow> msk AND b \<noteq> 0"

record ('p, 'd) AeFileEvent =
  fe_fd :: int
  fe_mask :: u32
  file_proc :: 'p
  fe_data :: 'd

record ('t, 'd) AeTimeEvent =
  te_id :: int
  when_sec :: int
  when_ms :: int
  time_proc :: 't
  te_data :: 'd

record ('p, 't, 'd) AeEventLoop =
  time_event_next_id :: int
  file_events :: "('p, 'd) AeFileEvent list"
  time_events :: "('t, 'd) AeTimeEvent list"
  ae_stop :: bool

definition AeCreateEventLoop :: "('p, 't, 'd) AeEventLoop" where
  "AeCreateEventLoop = \<lparr>time_event_next_id = 0, file_events = [], time_events = [], ae_stop = False\<rparr>"

text \<open>All events are freed, and the loop itself.\<close>

definition AeDeleteEventLoop :: "('p, 't, 'd) AeEventLoop \<Rightarrow> ('p, 't, 'd) AeEventLoop" where
  "AeDeleteEventLoop el = el\<lparr>file_events := [], time_events := []\<rparr>"

definition AeStop :: "('p, 't, 'd) AeEventLoop \<Rightarrow> ('p, 't, 'd) AeEventLoop" where
  "AeStop el = el\<lparr>ae_stop := True\<rparr>"

section \<open>File events\<close>

text \<open>
  \<open>AE_ERR\<close> for memory that could not be had is never returned: \<open>zmalloc\<close> does not return NULL
  (see \<open>Zmalloc\<close>).
\<close>

definition AeCreateFileEvent ::
  "('p, 't, 'd) AeEventLoop \<Rightarrow> int \<Rightarrow> u32 \<Rightarrow> 'p \<Rightarrow> 'd \<Rightarrow> int \<times> ('p, 't, 'd) AeEventLoop"
where
  "AeCreateFileEvent el fd msk proc data =
     (let hit = (\<lambda>fe. fe_fd fe = fd \<and> has (fe_mask fe) msk) in
      if list_ex hit (file_events el) then
        (AE_OK,
         el\<lparr>file_events := upd_first hit (\<lambda>fe. fe\<lparr>file_proc := proc, fe_data := data\<rparr>) (file_events el)\<rparr>)
      else
        (AE_OK,
         el\<lparr>file_events := \<lparr>fe_fd = fd, fe_mask = msk, file_proc = proc, fe_data = data\<rparr> # file_events el\<rparr>))"

definition AeDeleteFileEvent ::
  "('p, 't, 'd) AeEventLoop \<Rightarrow> int \<Rightarrow> u32 \<Rightarrow> ('p, 't, 'd) AeEventLoop"
where
  "AeDeleteFileEvent el fd msk =
     el\<lparr>file_events := remove_first (\<lambda>fe. fe_fd fe = fd \<and> fe_mask fe = msk) (file_events el)\<rparr>"

section \<open>Time events\<close>

text \<open>A time is a pair of seconds and milliseconds; division and remainder of C truncate.\<close>

definition AeAddMillisecondsToNow :: "int \<times> int \<Rightarrow> int \<Rightarrow> int \<times> int" where
  "AeAddMillisecondsToNow now milliseconds =
     (let sec = fst now + milliseconds sdiv 1000;
          ms = snd now + milliseconds smod 1000
      in if ms \<ge> 1000 then (sec + 1, ms - 1000) else (sec, ms))"

definition AeCreateTimeEvent ::
  "int \<times> int \<Rightarrow> ('p, 't, 'd) AeEventLoop \<Rightarrow> int \<Rightarrow> 't \<Rightarrow> 'd \<Rightarrow> int \<times> ('p, 't, 'd) AeEventLoop"
where
  "AeCreateTimeEvent now el milliseconds proc data =
     (let i = time_event_next_id el;
          (sec, ms) = AeAddMillisecondsToNow now milliseconds
      in (i, el\<lparr>time_event_next_id := i + 1,
                time_events := \<lparr>te_id = i, when_sec = sec, when_ms = ms, time_proc = proc,
                                te_data = data\<rparr> # time_events el\<rparr>))"

definition AeDeleteTimeEvent ::
  "('p, 't, 'd) AeEventLoop \<Rightarrow> int \<Rightarrow> int \<times> ('p, 't, 'd) AeEventLoop"
where
  "AeDeleteTimeEvent el i =
     (if list_ex (\<lambda>te. te_id te = i) (time_events el)
      then (AE_OK, el\<lparr>time_events := remove_first (\<lambda>te. te_id te = i) (time_events el)\<rparr>)
      else (AE_ERR, el))"

text \<open>The earlier of the nearest so far and the next event; a tie keeps the one met first.\<close>

definition nearer :: "('t, 'd) AeTimeEvent \<Rightarrow> ('t, 'd) AeTimeEvent option \<Rightarrow> ('t, 'd) AeTimeEvent option" where
  "nearer te nearest =
     (case nearest of None \<Rightarrow> Some te
      | Some n \<Rightarrow> if when_sec te < when_sec n \<or> (when_sec te = when_sec n \<and> when_ms te < when_ms n)
                 then Some te else Some n)"

definition AeSearchNearestTimer :: "('p, 't, 'd) AeEventLoop \<Rightarrow> ('t, 'd) AeTimeEvent option" where
  "AeSearchNearestTimer el = fold nearer (time_events el) None"

section \<open>One turn of the loop\<close>

type_synonym fds = "int list"
type_synonym fd_sets = "fds \<times> fds \<times> fds"

text \<open>
  The world of the loop: \<open>gettimeofday\<close> as seconds and microseconds, \<open>select\<close> (its return value,
  whether \<open>errno\<close> is \<open>EINTR\<close>, the sets it leaves), and the callbacks by name.
\<close>

record ('p, 't, 'd, 'w) AeWorld =
  gettimeofday :: "'w \<Rightarrow> (int \<times> int) \<times> 'w"
  select :: "int \<Rightarrow> fd_sets \<Rightarrow> (int \<times> int) option \<Rightarrow> 'w \<Rightarrow> (int \<times> bool \<times> fd_sets) \<times> 'w"
  run_file :: "'p \<Rightarrow> int \<Rightarrow> 'd \<Rightarrow> u32 \<Rightarrow> ('p, 't, 'd) AeEventLoop \<Rightarrow> 'w \<Rightarrow> (('p, 't, 'd) AeEventLoop \<times> 'w) option"
  run_time :: "'t \<Rightarrow> int \<Rightarrow> 'd \<Rightarrow> ('p, 't, 'd) AeEventLoop \<Rightarrow> 'w \<Rightarrow> (int \<times> ('p, 't, 'd) AeEventLoop \<times> 'w) option"

definition AeGetTime :: "('p, 't, 'd, 'w) AeWorld \<Rightarrow> 'w \<Rightarrow> (int \<times> int) \<times> 'w" where
  "AeGetTime W w = (let ((sec, usec), w) = gettimeofday W w in ((sec, usec sdiv 1000), w))"

text \<open>The first loop fills the sets and finds the largest descriptor, starting from 0.\<close>

definition FD_SET :: "int \<Rightarrow> fds \<Rightarrow> fds option" where
  "FD_SET fd fds = (if 0 \<le> fd \<and> fd < FD_SETSIZE then Some (List.insert fd fds) else None)"

fun collect_fds :: "('p, 'd) AeFileEvent list \<Rightarrow> fd_sets \<times> int \<Rightarrow> (fd_sets \<times> int) option" where
  "collect_fds [] st = Some st"
| "collect_fds (fe # fes) ((r, w, e), max_fd) =
     do { r \<leftarrow> (if has (fe_mask fe) AE_READABLE then FD_SET (fe_fd fe) r else Some r);
          w \<leftarrow> (if has (fe_mask fe) AE_WRITABLE then FD_SET (fe_fd fe) w else Some w);
          e \<leftarrow> (if has (fe_mask fe) AE_EXCEPTION then FD_SET (fe_fd fe) e else Some e);
          collect_fds fes ((r, w, e), max max_fd (fe_fd fe)) }"

text \<open>The timeout given to \<open>select\<close>: NULL, zero, or the time left until the nearest timer.\<close>

definition time_left :: "('t, 'd) AeTimeEvent \<Rightarrow> int \<times> int \<Rightarrow> int \<times> int" where
  "time_left te now =
     (if when_ms te < snd now
      then (when_sec te - fst now - 1, ((when_ms te + 1000) - snd now) * 1000)
      else (when_sec te - fst now, (when_ms te - snd now) * 1000))"

definition ready_mask :: "('p, 'd) AeFileEvent \<Rightarrow> fd_sets \<Rightarrow> u32" where
  "ready_mask fe s =
     (case s of (r, w, e) \<Rightarrow>
        (if has (fe_mask fe) AE_READABLE \<and> fe_fd fe \<in> set r then AE_READABLE else 0) OR
        (if has (fe_mask fe) AE_WRITABLE \<and> fe_fd fe \<in> set w then AE_WRITABLE else 0) OR
        (if has (fe_mask fe) AE_EXCEPTION \<and> fe_fd fe \<in> set e then AE_EXCEPTION else 0))"

definition is_ready :: "('p, 'd) AeFileEvent \<Rightarrow> fd_sets \<Rightarrow> bool" where
  "is_ready fe s =
     (case s of (r, w, e) \<Rightarrow>
        has (fe_mask fe) AE_READABLE \<and> fe_fd fe \<in> set r \<or>
        has (fe_mask fe) AE_WRITABLE \<and> fe_fd fe \<in> set w \<or>
        has (fe_mask fe) AE_EXCEPTION \<and> fe_fd fe \<in> set e)"

definition fd_clr :: "int \<Rightarrow> fd_sets \<Rightarrow> fd_sets" where
  "fd_clr fd s = (case s of (r, w, e) \<Rightarrow> (removeAll fd r, removeAll fd w, removeAll fd e))"

definition fd_count :: "fd_sets \<Rightarrow> nat" where
  "fd_count s = (case s of (r, w, e) \<Rightarrow> length r + length w + length e)"

lemma removeAll_less: "x \<in> set xs \<Longrightarrow> length (removeAll x xs) < length xs"
  by (simp add: length_removeAll_less)

lemma removeAll_le: "length (removeAll x xs) \<le> length xs"
  by (simp add: removeAll_filter_not_eq)

lemma fd_clr_less: "is_ready fe s \<Longrightarrow> fd_count (fd_clr (fe_fd fe) s) < fd_count s"
proof -
  assume ready: "is_ready fe s"
  obtain r w e where s: "s = (r, w, e)" by (cases s)
  note le = removeAll_le [of "fe_fd fe" r] removeAll_le [of "fe_fd fe" w] removeAll_le [of "fe_fd fe" e]
  from ready s consider "fe_fd fe \<in> set r" | "fe_fd fe \<in> set w" | "fe_fd fe \<in> set e"
    by (auto simp: is_ready_def)
  then show ?thesis
  proof cases
    case 1
    from removeAll_less [OF this] le show ?thesis unfolding s fd_count_def fd_clr_def prod.case by linarith
  next
    case 2
    from removeAll_less [OF this] le show ?thesis unfolding s fd_count_def fd_clr_def prod.case by linarith
  next
    case 3
    from removeAll_less [OF this] le show ?thesis unfolding s fd_count_def fd_clr_def prod.case by linarith
  qed
qed

text \<open>
  Dispatching: the walk restarts at the head after every callback, with the descriptor cleared
  from the sets, which bounds the number of callbacks whatever they do to the list of events.
\<close>

function dispatch_files ::
  "('p, 't, 'd, 'w) AeWorld \<Rightarrow> fd_sets \<Rightarrow> ('p, 'd) AeFileEvent list \<Rightarrow> nat \<Rightarrow>
   ('p, 't, 'd) AeEventLoop \<Rightarrow> 'w \<Rightarrow> (nat \<times> ('p, 't, 'd) AeEventLoop \<times> 'w) option"
where
  "dispatch_files W s [] processed el w = Some (processed, el, w)"
| "dispatch_files W s (fe # fes) processed el w =
     (if is_ready fe s then
        (case run_file W (file_proc fe) (fe_fd fe) (fe_data fe) (ready_mask fe s) el w of
           None \<Rightarrow> None
         | Some (el, w) \<Rightarrow> dispatch_files W (fd_clr (fe_fd fe) s) (file_events el) (processed + 1) el w)
      else dispatch_files W s fes processed el w)"
  by pat_completeness auto
termination
  by (relation "measures [\<lambda>(W, s, fes, p, el, w). fd_count s, \<lambda>(W, s, fes, p, el, w). length fes]")
    (auto simp: fd_clr_less)

text \<open>
  Time events: only those with an identifier up to \<open>max_id\<close> are run. The event is written after
  its callback, so a callback that deletes its own event leaves a dangling pointer, unless it
  returns \<open>AE_NOMORE\<close>. Callbacks that always return 0 keep the loop running.
\<close>

partial_function (option) dispatch_timers ::
  "('p, 't, 'd, 'w) AeWorld \<Rightarrow> int \<Rightarrow> ('t, 'd) AeTimeEvent list \<Rightarrow>
   ('p, 't, 'd) AeEventLoop \<Rightarrow> 'w \<Rightarrow> (('p, 't, 'd) AeEventLoop \<times> 'w) option"
where
  "dispatch_timers W max_id tes el w =
     (case tes of
        [] \<Rightarrow> Some (el, w)
      | te # tes \<Rightarrow>
          if te_id te > max_id then dispatch_timers W max_id tes el w
          else
            (let (now, w) = AeGetTime W w in
             if fst now > when_sec te \<or> (fst now = when_sec te \<and> snd now \<ge> when_ms te) then
               do { (ret, el, w) \<leftarrow> run_time W (time_proc te) (te_id te) (te_data te) el w;
                    if ret \<noteq> AE_NOMORE then
                      do { guard (list_ex (\<lambda>t. te_id t = te_id te) (time_events el));
                           let (now, w) = AeGetTime W w;
                           let (sec, ms) = AeAddMillisecondsToNow now ret;
                           let el = el\<lparr>time_events := upd_first (\<lambda>t. te_id t = te_id te)
                                         (\<lambda>t. t\<lparr>when_sec := sec, when_ms := ms\<rparr>) (time_events el)\<rparr>;
                           dispatch_timers W max_id (time_events el) el w }
                    else
                      do { let el = snd (AeDeleteTimeEvent el (te_id te));
                           dispatch_timers W max_id (time_events el) el w } }
             else dispatch_timers W max_id tes el w))"

text \<open>\<open>exit(1)\<close> ends the program; every other path returns to the caller.\<close>

datatype 'a outcome = Exit | Returns 'a

text \<open>Waiting for descriptors, for no longer than the nearest timer allows, and serving them.\<close>

definition wait_files ::
  "('p, 't, 'd, 'w) AeWorld \<Rightarrow> u32 \<Rightarrow> int \<Rightarrow> fd_sets \<Rightarrow> ('p, 't, 'd) AeEventLoop \<Rightarrow> 'w \<Rightarrow>
   (nat \<times> ('p, 't, 'd) AeEventLoop \<times> 'w) outcome option"
where
  "wait_files W flags max_fd sets el w =
     (if max_fd \<noteq> 0 \<or> (has flags AE_TIME_EVENTS \<and> \<not> has flags AE_DONT_WAIT) then
        (let shortest = (if has flags AE_TIME_EVENTS \<and> \<not> has flags AE_DONT_WAIT
                         then AeSearchNearestTimer el else None);
             (tvp, w) =
               (case shortest of
                  Some te \<Rightarrow> let (now, w) = AeGetTime W w in (Some (time_left te now), w)
                | None \<Rightarrow> (if has flags AE_DONT_WAIT then Some (0, 0) else None, w));
             ((ret_val, eintr, sets), w) = select W (max_fd + 1) sets tvp w
         in if ret_val > 0 then map_option Returns (dispatch_files W sets (file_events el) 0 el w)
            else if ret_val < 0 \<and> \<not> eintr then Some Exit
            else Some (Returns (0, el, w)))
      else Some (Returns (0, el, w)))"

definition AeProcessEvents ::
  "('p, 't, 'd, 'w) AeWorld \<Rightarrow> u32 \<Rightarrow> ('p, 't, 'd) AeEventLoop \<Rightarrow> 'w \<Rightarrow>
   (nat \<times> ('p, 't, 'd) AeEventLoop \<times> 'w) outcome option"
where
  "AeProcessEvents W flags el w =
     (if \<not> has flags AE_TIME_EVENTS \<and> \<not> has flags AE_FILE_EVENTS then Some (Returns (0, el, w))
      else do {
        (sets, max_fd) \<leftarrow>
          (if has flags AE_FILE_EVENTS then collect_fds (file_events el) (([], [], []), 0)
           else Some (([], [], []), 0));
        out \<leftarrow> wait_files W flags max_fd sets el w;
        (case out of
           Exit \<Rightarrow> Some Exit
         | Returns (processed, el, w) \<Rightarrow>
             if has flags AE_TIME_EVENTS then
               do { (el, w) \<leftarrow> dispatch_timers W (time_event_next_id el - 1) (time_events el) el w;
                    Some (Returns (processed, el, w)) }
             else Some (Returns (processed, el, w))) })"

text \<open>\<open>AeMain\<close> runs until a callback stops the loop; \<open>n\<close> bounds the number of turns.\<close>

fun main_turns ::
  "nat \<Rightarrow> ('p, 't, 'd, 'w) AeWorld \<Rightarrow> ('p, 't, 'd) AeEventLoop \<Rightarrow> 'w \<Rightarrow>
   (('p, 't, 'd) AeEventLoop \<times> 'w) outcome option"
where
  "main_turns 0 W el w = Some (Returns (el, w))"
| "main_turns (Suc n) W el w =
     (if ae_stop el then Some (Returns (el, w))
      else case AeProcessEvents W AE_ALL_EVENTS el w of
        None \<Rightarrow> None
      | Some Exit \<Rightarrow> Some Exit
      | Some (Returns (_, el, w)) \<Rightarrow> main_turns n W el w)"

definition AeMain ::
  "nat \<Rightarrow> ('p, 't, 'd, 'w) AeWorld \<Rightarrow> ('p, 't, 'd) AeEventLoop \<Rightarrow> 'w \<Rightarrow>
   (('p, 't, 'd) AeEventLoop \<times> 'w) outcome option"
where
  "AeMain n W el w = main_turns n W (el\<lparr>ae_stop := False\<rparr>) w"

text \<open>\<open>AeWait\<close>: one descriptor, one call of \<open>select\<close>.\<close>

definition AeWait ::
  "('p, 't, 'd, 'w) AeWorld \<Rightarrow> int \<Rightarrow> u32 \<Rightarrow> int \<Rightarrow> 'w \<Rightarrow> (int \<times> 'w) option"
where
  "AeWait W fd msk milliseconds w =
     do { r \<leftarrow> (if has msk AE_READABLE then FD_SET fd [] else Some []);
          wr \<leftarrow> (if has msk AE_WRITABLE then FD_SET fd [] else Some []);
          e \<leftarrow> (if has msk AE_EXCEPTION then FD_SET fd [] else Some []);
          let ((ret_val, _, (r, wr, e)), w) =
            select W (fd + 1) (r, wr, e) (Some (milliseconds sdiv 1000, (milliseconds smod 1000) * 1000)) w;
          if ret_val > 0 then
            Some (uint ((if fd \<in> set r then AE_READABLE else 0) OR
                        (if fd \<in> set wr then AE_WRITABLE else 0) OR
                        (if fd \<in> set e then AE_EXCEPTION else 0)), w)
          else Some (ret_val, w) }"

section \<open>The lists of events\<close>

text \<open>
  Identifiers come from a counter that only grows: they are distinct, and every one registered
  later is larger. Times are kept normalised.
\<close>

definition loop_ok :: "('p, 't, 'd) AeEventLoop \<Rightarrow> bool" where
  "loop_ok el \<longleftrightarrow> distinct (map te_id (time_events el)) \<and>
     (\<forall>te \<in> set (time_events el). te_id te < time_event_next_id el)"

lemma loop_ok_create [simp]: "loop_ok AeCreateEventLoop"
  by (simp add: loop_ok_def AeCreateEventLoop_def)

lemma loop_ok_file [simp]:
  "loop_ok (snd (AeCreateFileEvent el fd msk proc data)) = loop_ok el"
  "loop_ok (AeDeleteFileEvent el fd msk) = loop_ok el"
  "loop_ok (AeStop el) = loop_ok el"
  by (simp_all add: loop_ok_def AeCreateFileEvent_def AeDeleteFileEvent_def AeStop_def Let_def)

lemma AeCreateTimeEvent_ok:
  assumes "loop_ok el" and "AeCreateTimeEvent now el ms proc data = (i, el')"
  shows "loop_ok el' \<and> i = time_event_next_id el \<and> i \<notin> te_id ` set (time_events el) \<and>
    (\<exists>te. time_events el' = te # time_events el \<and> te_id te = i \<and> time_proc te = proc \<and>
      te_data te = data \<and> (when_sec te, when_ms te) = AeAddMillisecondsToNow now ms)"
  using assms by (force simp: AeCreateTimeEvent_def loop_ok_def Let_def split: prod.splits)

lemma remove_first_key:
  "distinct (map f xs) \<Longrightarrow> remove_first (\<lambda>x. f x = a) xs = filter (\<lambda>x. f x \<noteq> a) xs"
proof (induction xs)
  case (Cons x xs)
  have "filter (\<lambda>x. f x \<noteq> a) xs = xs" if "f x = a"
    using Cons.prems that by (intro filter_True) (auto simp: image_iff)
  then show ?case using Cons by auto
qed simp

lemma AeDeleteTimeEvent_ok:
  assumes "loop_ok el" and "AeDeleteTimeEvent el i = (r, el')"
  shows "loop_ok el' \<and> time_events el' = filter (\<lambda>te. te_id te \<noteq> i) (time_events el) \<and>
    (r = AE_OK \<longleftrightarrow> i \<in> te_id ` set (time_events el))"
proof -
  have "distinct (map te_id (filter (\<lambda>te. te_id te \<noteq> i) (time_events el)))"
    using assms(1) by (simp add: loop_ok_def distinct_map_filter)
  moreover have "filter (\<lambda>te. te_id te \<noteq> i) (time_events el) = time_events el"
    if "i \<notin> te_id ` set (time_events el)" using that by (auto intro!: filter_True)
  ultimately show ?thesis using assms
    by (auto simp: AeDeleteTimeEvent_def loop_ok_def remove_first_key list_ex_iff AE_OK_def AE_ERR_def
        split: if_splits)
qed

text \<open>
  At most one event per descriptor and bit when every registration is for a single bit. The handler
  registered last for the bit is the one the descriptor has.
\<close>

definition handler_of :: "('p, 't, 'd) AeEventLoop \<Rightarrow> int \<Rightarrow> u32 \<Rightarrow> ('p \<times> 'd) option" where
  "handler_of el fd b = map_option (\<lambda>fe. (file_proc fe, fe_data fe))
     (find (\<lambda>fe. fe_fd fe = fd \<and> has (fe_mask fe) b) (file_events el))"

lemma find_upd_first:
  "(\<And>x. P (f x) \<longleftrightarrow> P x) \<Longrightarrow> find P (upd_first P f xs) = map_option f (find P xs)"
  by (induction xs) auto

lemma find_upd_first_other:
  "(\<And>x. P x \<Longrightarrow> Q x \<Longrightarrow> False) \<Longrightarrow> (\<And>x. Q (f x) \<longleftrightarrow> Q x) \<Longrightarrow> find Q (upd_first P f xs) = find Q xs"
  by (induction xs) auto

lemma find_remove_first_other:
  "(\<And>x. P x \<Longrightarrow> Q x \<Longrightarrow> False) \<Longrightarrow> find Q (remove_first P xs) = find Q xs"
  by (induction xs) auto

lemma AeCreateFileEvent_handler:
  assumes "has b b"
  shows "handler_of (snd (AeCreateFileEvent el fd b proc data)) fd b = Some (proc, data)"
proof (cases "list_ex (\<lambda>fe. fe_fd fe = fd \<and> has (fe_mask fe) b) (file_events el)")
  case True
  then obtain fe where "find (\<lambda>fe. fe_fd fe = fd \<and> has (fe_mask fe) b) (file_events el) = Some fe"
    by (metis (no_types, lifting) find_None_iff_all list_ex_iff not_None_eq)
  then show ?thesis using True
    by (simp add: AeCreateFileEvent_def handler_of_def find_upd_first Let_def)
next
  case False
  then show ?thesis using assms by (simp add: AeCreateFileEvent_def handler_of_def Let_def)
qed

lemma AeCreateFileEvent_other:
  assumes "fd' \<noteq> fd"
  shows "handler_of (snd (AeCreateFileEvent el fd b proc data)) fd' c = handler_of el fd' c"
proof -
  have "find (\<lambda>fe. fe_fd fe = fd' \<and> has (fe_mask fe) c)
      (upd_first (\<lambda>fe. fe_fd fe = fd \<and> has (fe_mask fe) b) (\<lambda>fe. fe\<lparr>file_proc := proc, fe_data := data\<rparr>)
        (file_events el)) = find (\<lambda>fe. fe_fd fe = fd' \<and> has (fe_mask fe) c) (file_events el)"
    by (rule find_upd_first_other) (use assms in auto)
  then show ?thesis using assms by (auto simp: AeCreateFileEvent_def handler_of_def Let_def)
qed

lemma AeDeleteFileEvent_other:
  assumes "fd' \<noteq> fd"
  shows "handler_of (AeDeleteFileEvent el fd b) fd' c = handler_of el fd' c"
proof -
  have "find (\<lambda>fe. fe_fd fe = fd' \<and> has (fe_mask fe) c)
      (remove_first (\<lambda>fe. fe_fd fe = fd \<and> fe_mask fe = b) (file_events el)) =
    find (\<lambda>fe. fe_fd fe = fd' \<and> has (fe_mask fe) c) (file_events el)"
    by (rule find_remove_first_other) (use assms in auto)
  then show ?thesis by (simp add: AeDeleteFileEvent_def handler_of_def)
qed

section \<open>Timers\<close>

definition total_ms :: "int \<times> int \<Rightarrow> int" where
  "total_ms t = 1000 * fst t + snd t"

text \<open>Adding a delay to a normalised time gives the normalised time that much later.\<close>

lemma AeAddMillisecondsToNow_ok:
  assumes "0 \<le> snd now" and "snd now < 1000" and "0 \<le> d"
  shows "total_ms (AeAddMillisecondsToNow now d) = total_ms now + d"
    and "0 \<le> snd (AeAddMillisecondsToNow now d)" and "snd (AeAddMillisecondsToNow now d) < 1000"
proof -
  have e: "d sdiv 1000 = d div 1000" "d smod 1000 = d mod 1000"
    using assms(3) by (simp_all add: signed_divide_int_def signed_modulo_int_def sgn_if)
  have "d = 1000 * (d div 1000) + d mod 1000" by simp
  then show "total_ms (AeAddMillisecondsToNow now d) = total_ms now + d"
    by (simp add: AeAddMillisecondsToNow_def total_ms_def e Let_def algebra_simps)
  show "0 \<le> snd (AeAddMillisecondsToNow now d)" "snd (AeAddMillisecondsToNow now d) < 1000"
    using assms(1,2) pos_mod_bound [of 1000 d] by (auto simp: AeAddMillisecondsToNow_def e Let_def)
qed

text \<open>The nearest timer is a least one in the order of times.\<close>

definition te_when :: "('t, 'd) AeTimeEvent \<Rightarrow> int \<times> int" where
  "te_when te = (when_sec te, when_ms te)"

definition earlier :: "int \<times> int \<Rightarrow> int \<times> int \<Rightarrow> bool" where
  "earlier a b \<longleftrightarrow> fst a < fst b \<or> (fst a = fst b \<and> snd a \<le> snd b)"

lemma earlier_trans: "earlier a b \<Longrightarrow> earlier b c \<Longrightarrow> earlier a c"
  by (auto simp: earlier_def)

lemma fold_nearer:
  "\<exists>te. fold nearer tes (Some n) = Some te \<and> (te = n \<or> te \<in> set tes) \<and>
     earlier (te_when te) (te_when n) \<and> (\<forall>t \<in> set tes. earlier (te_when te) (te_when t))"
proof (induction tes arbitrary: n)
  case Nil
  then show ?case by (simp add: earlier_def)
next
  case (Cons t tes)
  obtain m where m: "nearer t (Some n) = Some m" "m = n \<or> m = t" "earlier (te_when m) (te_when n)"
    "earlier (te_when m) (te_when t)"
  proof (cases "when_sec t < when_sec n \<or> (when_sec t = when_sec n \<and> when_ms t < when_ms n)")
    case True
    then show ?thesis by (intro that [of t]) (auto simp: nearer_def earlier_def te_when_def)
  next
    case False
    then show ?thesis by (intro that [of n]) (auto simp: nearer_def earlier_def te_when_def)
  qed
  from Cons.IH [of m] obtain te where te: "fold nearer tes (Some m) = Some te" "te = m \<or> te \<in> set tes"
    "earlier (te_when te) (te_when m)" "\<forall>t \<in> set tes. earlier (te_when te) (te_when t)" by blast
  from earlier_trans [OF te(3) m(3)] earlier_trans [OF te(3) m(4)] show ?case
    using m(1,2) te(1,2,4) by (intro exI [of _ te]) auto
qed

lemma AeSearchNearestTimer_ok:
  "case AeSearchNearestTimer el of
     None \<Rightarrow> time_events el = []
   | Some te \<Rightarrow> te \<in> set (time_events el) \<and>
       (\<forall>t \<in> set (time_events el). earlier (te_when te) (te_when t))"
proof (cases "time_events el")
  case Nil
  then show ?thesis by (simp add: AeSearchNearestTimer_def)
next
  case (Cons t tes)
  with fold_nearer [of tes t] show ?thesis
    by (auto simp: AeSearchNearestTimer_def nearer_def)
qed

text \<open>
  The timeout is the time left, in microseconds below a million, and its seconds are negative
  exactly when the timer is already due.
\<close>

lemma time_left_ok:
  assumes "0 \<le> when_ms te" "when_ms te < 1000" "0 \<le> snd now" "snd now < 1000"
    and "time_left te now = (sec, usec)"
  shows "1000000 * sec + usec = 1000 * (total_ms (te_when te) - total_ms now)"
    and "0 \<le> usec" "usec < 1000000" and "sec < 0 \<longleftrightarrow> total_ms (te_when te) < total_ms now"
  using assms by (auto simp: time_left_def total_ms_def te_when_def algebra_simps split: if_splits)

section \<open>Dispatching\<close>

text \<open>A turn runs at most one callback per bit that \<open>select\<close> reported, whatever the callbacks do.\<close>

lemma dispatch_files_count:
  "dispatch_files W s fes n el w = Some (m, el', w') \<Longrightarrow> n \<le> m \<and> m \<le> n + fd_count s"
proof (induction W s fes n el w rule: dispatch_files.induct)
  case (2 W s fe fes n el w)
  show ?case
  proof (cases "is_ready fe s")
    case True
    then obtain el1 w1 where
      "run_file W (file_proc fe) (fe_fd fe) (fe_data fe) (ready_mask fe s) el w = Some (el1, w1)"
      "dispatch_files W (fd_clr (fe_fd fe) s) (file_events el1) (n + 1) el1 w1 = Some (m, el', w')"
      using 2(3) by (auto split: option.splits)
    then show ?thesis using 2(1) [OF True] fd_clr_less [OF True] by fastforce
  next
    case False
    then show ?thesis using 2 by simp
  qed
qed simp

text \<open>A callback is called with a mask that is not empty and within the mask it registered for.\<close>

lemma ready_mask_ok:
  assumes "is_ready fe s"
  shows "ready_mask fe s \<noteq> 0" and "has (ready_mask fe s) b \<Longrightarrow> b \<in> {AE_READABLE, AE_WRITABLE, AE_EXCEPTION} \<Longrightarrow> has (fe_mask fe) b"
  using assms by (auto simp: is_ready_def ready_mask_def has_def ae_flags split: if_splits prod.splits)

text \<open>Without events there is nothing to do; the loop stops when a callback asks for it.\<close>

lemma AeProcessEvents_nothing:
  "\<not> has flags AE_TIME_EVENTS \<Longrightarrow> \<not> has flags AE_FILE_EVENTS \<Longrightarrow>
   AeProcessEvents W flags el w = Some (Returns (0, el, w))"
  by (simp add: AeProcessEvents_def)

end
