(* ===== verification/String_Util.thy ===== *)
theory String_Util
  imports Libc
begin

text \<open>
  The glob matcher of \<open>utils/string_util.c\<close>. The two moving pointers are indices into buffers that
  end with their terminator; a read behind the terminator is undefined, and so is a pointer moved
  more than one cell behind it. \<open>pat_len\<close> and \<open>str_len\<close> are the counters of the code, which may
  leave step with the pointers. The second half gives glob patterns a meaning of their own and shows
  that the matcher computes it.
\<close>

section \<open>The matcher\<close>

definition rd :: "string \<Rightarrow> nat \<Rightarrow> char option" where
  "rd buf i = nth_opt (buf @ [NUL]) i"

definition adv :: "string \<Rightarrow> nat \<Rightarrow> nat option" where
  "adv buf i = (if i \<le> length buf then Some (Suc i) else None)"

lemma rd_SomeD: "rd buf i = Some c \<Longrightarrow> i \<le> length buf"
  by (auto simp: rd_def nth_opt_def split: if_splits)

lemma rd_in [simp]: "i < length buf \<Longrightarrow> rd buf i = Some (buf ! i)"
  by (simp add: rd_def nth_append)

lemma rd_end [simp]: "rd buf (length buf) = Some NUL"
  by (simp add: rd_def nth_append)

definition same_char :: "bool \<Rightarrow> char \<Rightarrow> char \<Rightarrow> bool" where
  "same_char no_case a b = (if \<not> no_case then a = b else tolower a = tolower b)"

definition in_range :: "bool \<Rightarrow> char \<Rightarrow> char \<Rightarrow> char \<Rightarrow> bool" where
  "in_range no_case a b c =
     (let (start, stop) = (if schar a > schar b then (b, a) else (a, b));
          low = (if no_case then tolower else id)
      in schar (low start) \<le> schar (low c) \<and> schar (low c) \<le> schar (low stop))"

text \<open>The loop over a bracket expression, from the byte behind \<open>[\<close> or \<open>[^\<close>.\<close>

function set_loop ::
  "string \<Rightarrow> string \<Rightarrow> nat \<Rightarrow> bool \<Rightarrow> nat \<Rightarrow> int \<Rightarrow> bool \<Rightarrow> (bool \<times> nat \<times> int) option"
where
  "set_loop pat str j no_case i pat_len match =
     do { p0 \<leftarrow> rd pat i;
          if p0 = CHR 0x5C then
            do { p1 \<leftarrow> rd pat (i + 1);
                 s0 \<leftarrow> rd str j;
                 set_loop pat str j no_case (i + 2) (pat_len - 2) (match \<or> p1 = s0) }
          else if p0 = CHR '']'' then Some (match, i, pat_len)
          else if pat_len = 0 then Some (match, i - 1, pat_len + 1)
          else do { p1 \<leftarrow> rd pat (i + 1);
                    s0 \<leftarrow> rd str j;
                    if p1 = CHR ''-'' \<and> pat_len \<ge> 3 then
                      do { p2 \<leftarrow> rd pat (i + 2);
                           set_loop pat str j no_case (i + 3) (pat_len - 3)
                             (match \<or> in_range no_case p0 p2 s0) }
                    else set_loop pat str j no_case (i + 1) (pat_len - 1)
                           (match \<or> same_char no_case p0 s0) } }"
  by pat_completeness auto
termination
  by (relation "measure (\<lambda>(pat, str, j, no_case, i, pat_len, match). Suc (length pat) - i)")
    (auto dest!: rd_SomeD)

declare set_loop.simps [simp del]

text \<open>\<open>while (pattern[1] == '*')\<close> and \<open>while (*pattern == '*')\<close>.\<close>

function skip_next :: "string \<Rightarrow> nat \<Rightarrow> int \<Rightarrow> (nat \<times> int) option" where
  "skip_next pat i pat_len =
     do { p1 \<leftarrow> rd pat (i + 1);
          if p1 = CHR ''*'' then skip_next pat (i + 1) (pat_len - 1) else Some (i, pat_len) }"
  by pat_completeness auto
termination
  by (relation "measure (\<lambda>(pat, i, pat_len). length pat - i)") (auto dest!: rd_SomeD)

declare skip_next.simps [simp del]

function skip_stars :: "string \<Rightarrow> nat \<Rightarrow> int \<Rightarrow> (nat \<times> int) option" where
  "skip_stars pat i pat_len =
     do { p0 \<leftarrow> rd pat i;
          if p0 = CHR ''*'' then skip_stars pat (i + 1) (pat_len - 1) else Some (i, pat_len) }"
  by pat_completeness auto
termination
  by (relation "measure (\<lambda>(pat, i, pat_len). Suc (length pat) - i)") (auto dest!: rd_SomeD)

declare skip_stars.simps [simp del]

text \<open>
  One pass through the \<open>switch\<close>: it returns, or enters the loop of \<open>*\<close>, or leaves by \<open>break\<close>
  with the positions and counters it has then.
\<close>

datatype step = Ret bool | Star nat int | Cont nat int nat int

definition match_item :: "string \<Rightarrow> nat \<Rightarrow> int \<Rightarrow> string \<Rightarrow> nat \<Rightarrow> int \<Rightarrow> bool \<Rightarrow> step option" where
  "match_item pat i pat_len str j str_len no_case =
     do { p0 \<leftarrow> rd pat i;
          if p0 = CHR ''*'' then
            do { (i, pat_len) \<leftarrow> skip_next pat i pat_len;
                 Some (if pat_len = 1 then Ret True else Star i pat_len) }
          else if p0 = CHR ''?'' then
            (if str_len = 0 then Some (Ret False)
             else do { j \<leftarrow> adv str j; Some (Cont i pat_len j (str_len - 1)) })
          else if p0 = CHR ''['' then
            do { p1 \<leftarrow> rd pat (i + 1);
                 let neg = (p1 = CHR ''^'');
                 (match, i, pat_len) \<leftarrow>
                   set_loop pat str j no_case (if neg then i + 2 else i + 1)
                     (if neg then pat_len - 2 else pat_len - 1) False;
                 if match = neg then Some (Ret False)
                 else do { j \<leftarrow> adv str j; Some (Cont i pat_len j (str_len - 1)) } }
          else
            do { let esc = (p0 = CHR 0x5C \<and> pat_len \<ge> 2);
                 let i = (if esc then i + 1 else i);
                 let pat_len = (if esc then pat_len - 1 else pat_len);
                 p0 \<leftarrow> rd pat i;
                 s0 \<leftarrow> rd str j;
                 if \<not> same_char no_case p0 s0 then Some (Ret False)
                 else do { j \<leftarrow> adv str j; Some (Cont i pat_len j (str_len - 1)) } } }"

lemma set_loop_progress:
  "set_loop pat str j no_case i pat_len m = Some (m', i', pat_len') \<Longrightarrow> i \<le> Suc i' \<and> i' \<le> length pat"
proof (induction "Suc (length pat) - i" arbitrary: i pat_len m rule: less_induct)
  case less
  have i: "i \<le> length pat"
    using less.prems by (subst (asm) set_loop.simps) (auto split: bind_splits dest: rd_SomeD)
  have IH: "set_loop pat str j no_case (i + k) pl n = Some (m', i', pat_len') \<Longrightarrow>
      i + k \<le> Suc i' \<and> i' \<le> length pat" if "0 < k" for k pl n
    using less.hyps [of "i + k"] that i by simp
  show ?case
    using less.prems i
    by (subst (asm) set_loop.simps)
      (auto simp del: add_2_eq_Suc' split: bind_splits if_splits
        dest!: IH [of 1, simplified] IH [of 2, simplified] IH [of 3, simplified])
qed

lemma skip_next_progress: "skip_next pat i pl = Some (i', pl') \<Longrightarrow> i \<le> i' \<and> i' < length pat + 1"
proof (induction pat i pl rule: skip_next.induct)
  case (1 pat i pl)
  from 1(2) show ?case
    by (subst (asm) skip_next.simps) (use 1(1) [of "CHR ''*''"] in \<open>auto split: bind_splits if_splits dest: rd_SomeD\<close>)
qed

lemma match_item_Star: "match_item pat i pl str j sl nc = Some (Star i' pl') \<Longrightarrow> i \<le> i' \<and> i' \<le> length pat"
  by (auto simp: match_item_def Let_def split: bind_splits if_splits dest: skip_next_progress)

lemma match_item_Cont:
  "match_item pat i pl str j sl nc = Some (Cont i' pl' j' sl') \<Longrightarrow> i \<le> i' \<and> i' \<le> length pat"
  by (auto simp: match_item_def Let_def split: bind_splits if_splits
      dest: set_loop_progress rd_SomeD)

function StringMatch :: "string \<Rightarrow> nat \<Rightarrow> int \<Rightarrow> string \<Rightarrow> nat \<Rightarrow> int \<Rightarrow> bool \<Rightarrow> bool option"
  and star_loop :: "string \<Rightarrow> nat \<Rightarrow> int \<Rightarrow> string \<Rightarrow> nat \<Rightarrow> int \<Rightarrow> bool \<Rightarrow> bool option"
where
  "StringMatch pat i pat_len str j str_len no_case =
     (if pat_len = 0 then Some (str_len = 0)
      else case match_item pat i pat_len str j str_len no_case of
        None \<Rightarrow> None
      | Some (Ret b) \<Rightarrow> Some b
      | Some (Star i pat_len) \<Rightarrow> star_loop pat i pat_len str j str_len no_case
      | Some (Cont i pat_len j str_len) \<Rightarrow>
          if str_len = 0 then
            do { (i, pat_len) \<leftarrow> skip_stars pat (i + 1) (pat_len - 1); Some (pat_len = 0) }
          else StringMatch pat (i + 1) (pat_len - 1) str j str_len no_case)"
| "star_loop pat i pat_len str j str_len no_case =
     (if str_len = 0 then Some False
      else if length pat < i then None
      else case StringMatch pat (i + 1) (pat_len - 1) str j str_len no_case of
        None \<Rightarrow> None
      | Some True \<Rightarrow> Some True
      | Some False \<Rightarrow>
          (case adv str j of None \<Rightarrow> None
           | Some j \<Rightarrow> star_loop pat i pat_len str j (str_len - 1) no_case))"
  by pat_completeness auto

termination
  by (relation "measures
      [\<lambda>x. case x of Inl (pat, i, _) \<Rightarrow> Suc (length pat) - i | Inr (pat, i, _) \<Rightarrow> Suc (length pat) - i,
       \<lambda>x. case x of Inl _ \<Rightarrow> 1 | Inr _ \<Rightarrow> 0,
       \<lambda>x. case x of Inl _ \<Rightarrow> 0 | Inr (pat, i, pl, str, j, _) \<Rightarrow> Suc (length str) - j]")
    (auto simp: adv_def split: if_splits dest!: match_item_Star match_item_Cont)

declare StringMatch.simps [simp del] star_loop.simps [simp del]


section \<open>What a pattern means\<close>

text \<open>
  The items of a bracket expression: an escaped character, which is compared exactly, a range and a
  plain character. \<open>parse_set\<close> stops at \<open>]\<close> or, like the code, at the end of the pattern; a
  backslash as the last byte of an open bracket expression has no meaning.
\<close>

datatype set_item = Exact char | Range char char | Plain char

datatype token = TStar | TAny | TSet bool "set_item list" | TLit char

fun parse_set :: "string \<Rightarrow> (set_item list \<times> string) option" where
  "parse_set [] = Some ([], [])"
| "parse_set (c # cs) =
     (if c = CHR 0x5C then
        (case cs of [] \<Rightarrow> None | x # r \<Rightarrow> map_option (apfst ((#) (Exact x))) (parse_set r))
      else if c = CHR '']'' then Some ([], cs)
      else
        (case cs of
           d # e # r \<Rightarrow>
             if d = CHR ''-'' then map_option (apfst ((#) (Range c e))) (parse_set r)
             else map_option (apfst ((#) (Plain c))) (parse_set cs)
         | _ \<Rightarrow> map_option (apfst ((#) (Plain c))) (parse_set cs)))"

lemma parse_set_length: "parse_set p = Some (its, r) \<Longrightarrow> length r \<le> length p"
proof (induction p arbitrary: its r rule: length_induct)
  case (1 p)
  then have IH: "length ys < length p \<Longrightarrow> parse_set ys = Some (i, r) \<Longrightarrow> length r \<le> length ys" for ys i r
    by blast
  show ?case
  proof (cases p)
    case Nil
    then show ?thesis using 1(2) by simp
  next
    case (Cons c cs)
    show ?thesis using 1(2) unfolding Cons
      by (subst (asm) parse_set.simps)
        (auto simp del: parse_set.simps simp: Cons split: if_splits list.splits dest!: IH [rotated])
  qed
qed

function parse :: "string \<Rightarrow> token list option" where
  "parse [] = Some []"
| "parse (c # p) =
     (if c = CHR ''*'' then map_option ((#) TStar) (parse p)
      else if c = CHR ''?'' then map_option ((#) TAny) (parse p)
      else if c = CHR ''['' then
        (let neg = (p \<noteq> [] \<and> hd p = CHR ''^'') in
         case parse_set (if neg then tl p else p) of None \<Rightarrow> None
         | Some (its, r) \<Rightarrow> map_option ((#) (TSet neg its)) (parse r))
      else if c = CHR 0x5C \<and> p \<noteq> [] then map_option ((#) (TLit (hd p))) (parse (tl p))
      else map_option ((#) (TLit c)) (parse p))"
  by pat_completeness auto
termination
  by (relation "measure length") (auto dest!: parse_set_length split: if_splits)

fun item_matches :: "bool \<Rightarrow> char \<Rightarrow> set_item \<Rightarrow> bool" where
  "item_matches no_case c (Exact x) = (x = c)"
| "item_matches no_case c (Range a b) = in_range no_case a b c"
| "item_matches no_case c (Plain x) = same_char no_case x c"

fun token_matches :: "bool \<Rightarrow> char \<Rightarrow> token \<Rightarrow> bool" where
  "token_matches no_case c TStar = False"
| "token_matches no_case c TAny = True"
| "token_matches no_case c (TSet neg its) = (list_ex (item_matches no_case c) its \<noteq> neg)"
| "token_matches no_case c (TLit x) = same_char no_case x c"

fun glob :: "bool \<Rightarrow> token list \<Rightarrow> string \<Rightarrow> bool" where
  "glob no_case [] s = (s = [])"
| "glob no_case (TStar # ts) s =
     list_ex (\<lambda>k. glob no_case ts (drop k s)) [0..<Suc (length s)]"
| "glob no_case (t # ts) s =
     (case s of [] \<Rightarrow> False | c # cs \<Rightarrow> token_matches no_case c t \<and> glob no_case ts cs)"

section \<open>The matcher computes it\<close>

lemma drop_ConsD: "drop i xs = y # ys \<Longrightarrow> i < length xs \<and> xs ! i = y \<and> drop (Suc i) xs = ys"
proof -
  assume d: "drop i xs = y # ys"
  then have "i < length xs" by (metis drop_all leI list.distinct(1))
  then show ?thesis using d by (metis Cons_nth_drop_Suc list.inject)
qed

lemma rd_next: "drop (Suc i) pat = cs \<Longrightarrow> Suc i \<le> length pat \<Longrightarrow>
    rd pat (Suc i) = Some (case cs of [] \<Rightarrow> NUL | c # _ \<Rightarrow> c)"
proof (cases cs)
  case Nil
  assume "drop (Suc i) pat = cs" "Suc i \<le> length pat"
  then have "Suc i = length pat" using Nil by simp
  then show ?thesis using Nil by simp
next
  case (Cons c r)
  assume "drop (Suc i) pat = cs"
  from drop_ConsD [OF this [unfolded Cons]] show ?thesis using Cons by simp
qed

text \<open>One round of the bracket loop, by what it sees.\<close>

lemma set_loop_end:
  assumes "i = length pat" and "0 < i"
  shows "set_loop pat str j no_case i 0 m = Some (m, i - 1, 1)"
  using assms by (subst set_loop.simps) (simp add: NUL_def)

lemma set_loop_esc:
  assumes j: "j < length str" and d: "drop i pat = CHR 0x5C # x # q"
  shows "set_loop pat str j no_case i pl m = set_loop pat str j no_case (i + 2) (pl - 2) (m \<or> x = str ! j)"
  using drop_ConsD [OF d] drop_ConsD [of "Suc i" pat x q] j by (subst set_loop.simps) simp

lemma set_loop_stop:
  assumes j: "j < length str" and d: "drop i pat = CHR '']'' # q"
  shows "set_loop pat str j no_case i pl m = Some (m, i, pl)"
  using drop_ConsD [OF d] by (subst set_loop.simps) simp

lemma set_loop_range:
  assumes j: "j < length str" and d: "drop i pat = c # CHR ''-'' # e # q" and "c \<noteq> CHR 0x5C" "c \<noteq> CHR '']''" and "3 \<le> pl"
  shows "set_loop pat str j no_case i pl m =
    set_loop pat str j no_case (i + 3) (pl - 3) (m \<or> in_range no_case c e (str ! j))"
  using drop_ConsD [OF d] drop_ConsD [of "Suc i" pat "CHR ''-''" "e # q"]
    drop_ConsD [of "Suc (Suc i)" pat e q] j assms(3-5)
  by (subst set_loop.simps) simp

lemma set_loop_plain:
  assumes j: "j < length str" and d: "drop i pat = c # cs" and "c \<noteq> CHR 0x5C" "c \<noteq> CHR '']''"
    and "\<not> (\<exists>e q. cs = CHR ''-'' # e # q)"
  shows "set_loop pat str j no_case i (int (length pat) - int i) m =
    set_loop pat str j no_case (i + 1) (int (length pat) - int i - 1) (m \<or> same_char no_case c (str ! j))"
proof -
  from drop_ConsD [OF d] have c: "i < length pat" "pat ! i = c" "drop (Suc i) pat = cs" by simp_all
  have n1: "rd pat (i + 1) = Some (case cs of [] \<Rightarrow> NUL | c # _ \<Rightarrow> c)"
    using rd_next [OF c(3)] c(1) by simp
  have "length cs = length pat - Suc i" using c(3) by auto
  moreover have "length cs < 2 \<or> hd cs \<noteq> CHR ''-''"
    using assms(5) by (cases cs; cases "tl cs") auto
  ultimately have nd: "((case cs of [] \<Rightarrow> NUL | c # _ \<Rightarrow> c) = CHR ''-'' \<and> 3 \<le> int (length pat) - int i) = False"
    using c(1) by (auto simp: NUL_def split: list.splits)
  have pl: "(int (length pat) - int i = 0) = False" using c(1) by simp
  show ?thesis
    by (subst set_loop.simps) (simp only: rd_in [OF c(1)] c(2) n1 rd_in [OF j] bind.bind_lunit nd pl
        assms(3,4) if_False)
qed

lemma parse_set_plain:
  assumes "c \<noteq> CHR 0x5C" "c \<noteq> CHR '']''" and "\<not> (\<exists>e q. cs = CHR ''-'' # e # q)"
  shows "parse_set (c # cs) = map_option (apfst ((#) (Plain c))) (parse_set cs)"
  using assms by (subst parse_set.simps) (auto simp del: parse_set.simps split: list.splits)

lemma set_loop_parse:
  assumes "parse_set (drop i pat) = Some (its, r)" and "0 < i" "i \<le> length pat" and "j < length str"
  shows "\<exists>i'. set_loop pat str j no_case i (int (length pat) - int i) m =
      Some (m \<or> list_ex (item_matches no_case (str ! j)) its, i', int (length pat) - int i') \<and>
    i' < length pat \<and> drop (Suc i') pat = r"
  using assms(1-3)
proof (induction "length pat - i" arbitrary: i its m rule: less_induct)
  case less
  have IH: "\<exists>i'. set_loop pat str j no_case (i + k) (int (length pat) - int i - int k) n =
        Some (n \<or> list_ex (item_matches no_case (str ! j)) its', i', int (length pat) - int i') \<and>
      i' < length pat \<and> drop (Suc i') pat = r"
    if "0 < k" "i + k \<le> length pat" "parse_set (drop (i + k) pat) = Some (its', r)" for k its' n
    using less.hyps [of "i + k" its' n] that by (simp add: algebra_simps)
  show ?case
  proof (cases "drop i pat")
    case Nil
    then have i: "i = length pat" using less.prems(3) by simp
    have "int (i - 1) = int i - 1" using less.prems(2) by (simp add: of_nat_diff)
    then have e: "int (length pat) - int i = 0" "int (length pat) - int (i - 1) = 1"
      unfolding i by simp_all
    have n: "its = []" "r = []" using less.prems(1) unfolding Nil by simp_all
    have "set_loop pat str j no_case i (int (length pat) - int i) m =
        Some (m \<or> list_ex (item_matches no_case (str ! j)) its, i - 1, int (length pat) - int (i - 1))"
      unfolding e n using set_loop_end [OF i less.prems(2)] by simp
    moreover have "i - 1 < length pat \<and> drop (Suc (i - 1)) pat = r" using n i less.prems(2) by simp
    ultimately show ?thesis by blast
  next
    case (Cons c cs)
    from drop_ConsD [OF Cons] have c: "i < length pat" "drop (Suc i) pat = cs" by simp_all
    have len: "length cs = length pat - Suc i" using c(2) by auto
    consider (esc) x q where "c = CHR 0x5C" "cs = x # q"
      | (stop) "c = CHR '']''"
      | (range) e q where "c \<noteq> CHR 0x5C" "c \<noteq> CHR '']''" "cs = CHR ''-'' # e # q"
      | (plain) "c \<noteq> CHR 0x5C" "c \<noteq> CHR '']''" "\<not> (\<exists>e q. cs = CHR ''-'' # e # q)"
      using less.prems(1) Cons by (cases "c = CHR 0x5C"; cases cs) auto
    then show ?thesis
    proof cases
      case esc
      with less.prems(1) Cons obtain its' where its: "its = Exact x # its'"
        "parse_set q = Some (its', r)" by auto
      have "drop (i + 2) pat = q" using c(2) esc(2) drop_ConsD [of "Suc i" pat x q] by simp
      with IH [of 2 its' "m \<or> x = str ! j"] esc len c(1) its show ?thesis
        unfolding set_loop_esc [OF assms(4) Cons [unfolded esc]] by (simp add: disj_assoc)
    next
      case stop
      then show ?thesis using set_loop_stop [OF assms(4) Cons [unfolded stop]] less.prems(1) Cons c
        by (intro exI [of _ i]) auto
    next
      case range
      with less.prems(1) Cons obtain its' where its: "its = Range c e # its'"
        "parse_set q = Some (its', r)" by auto
      have "drop (i + 3) pat = q"
        using c(2) range(3) drop_ConsD [of "Suc i" pat "CHR ''-''" "e # q"]
          drop_ConsD [of "Suc (Suc i)" pat e q] by (simp add: numeral_3_eq_3)
      moreover have "3 \<le> int (length pat) - int i" using len range(3) by simp
      ultimately show ?thesis
        using IH [of 3 its' "m \<or> in_range no_case c e (str ! j)"] range len c(1) its
        unfolding set_loop_range [OF assms(4) Cons [unfolded range(3)] range(1,2)
          \<open>3 \<le> int (length pat) - int i\<close>] by (simp add: disj_assoc)
    next
      case plain
      then have "map_option (apfst ((#) (Plain c))) (parse_set cs) = Some (its, r)"
        using less.prems(1) unfolding Cons parse_set_plain [OF plain] by simp
      then obtain its' where "its = Plain c # its'" "parse_set cs = Some (its', r)" by auto
      with IH [of 1 its' "m \<or> same_char no_case c (str ! j)"] c show ?thesis
        unfolding set_loop_plain [OF assms(4) Cons plain] by (simp add: disj_assoc)
    qed
  qed
qed

lemma glob_TStar_le: "glob nc (TStar # ts) s \<longleftrightarrow> (\<exists>k \<le> length s. glob nc ts (drop k s))"
  by (auto simp: list_ex_iff less_Suc_eq_le simp del: upt_Suc)

lemma glob_TStar: "glob nc (TStar # ts) s \<longleftrightarrow> (\<exists>k < length s. glob nc ts (drop k s)) \<or> glob nc ts []"
  unfolding glob_TStar_le by (auto simp: le_less)

declare glob.simps(2) [simp del]

lemma glob_TStar_TStar: "glob nc (TStar # TStar # ts) s \<longleftrightarrow> glob nc (TStar # ts) s"
proof
  assume "glob nc (TStar # TStar # ts) s"
  then obtain k l where "k \<le> length s" "l \<le> length s - k" "glob nc ts (drop l (drop k s))"
    unfolding glob_TStar_le by auto
  then show "glob nc (TStar # ts) s" unfolding glob_TStar_le by (intro exI [of _ "l + k"]) simp
next
  assume "glob nc (TStar # ts) s"
  then show "glob nc (TStar # TStar # ts) s"
    unfolding glob_TStar_le [of nc "TStar # ts"] by (intro exI [of _ 0]) simp
qed

lemma glob_nil: "glob nc ts [] \<longleftrightarrow> set ts \<subseteq> {TStar}"
proof (induction ts)
  case (Cons t ts)
  then show ?case by (cases t) (simp_all add: glob_TStar)
qed simp

lemma parse_stars: "parse p = Some ts \<Longrightarrow> set ts \<subseteq> {TStar} \<longleftrightarrow> set p \<subseteq> {CHR ''*''}"
proof (induction p arbitrary: ts rule: parse.induct)
  case (2 c p)
  show ?case
  proof (cases "c = CHR ''*''")
    case True
    then show ?thesis using 2 by auto
  next
    case False
    then show ?thesis using 2(6) by (auto simp: Let_def split: if_splits option.splits)
  qed
qed simp

lemma skip_stars_parse:
  assumes "i \<le> length pat"
  shows "\<exists>i'. skip_stars pat i (int (length pat) - int i) = Some (i', int (length pat) - int i') \<and>
    (i' = length pat \<longleftrightarrow> set (drop i pat) \<subseteq> {CHR ''*''})"
  using assms
proof (induction "length pat - i" arbitrary: i rule: less_induct)
  case less
  note step = skip_stars.simps [of pat i "int (length pat) - int i"]
  show ?case
  proof (cases "drop i pat")
    case Nil
    then have i: "i = length pat" using less.prems by simp
    then have "rd pat i = Some NUL" by simp
    then show ?thesis using step i Nil by (intro exI [of _ i]) (simp add: NUL_def)
  next
    case (Cons c cs)
    from drop_ConsD [OF Cons] have c: "i < length pat" "pat ! i = c" "drop (Suc i) pat = cs" by simp_all
    show ?thesis
    proof (cases "c = CHR ''*''")
      case True
      have dec: "length pat - Suc i < length pat - i" using c(1) by arith
      from less.hyps [OF dec] c(1) obtain i' where
        "skip_stars pat (Suc i) (int (length pat) - int i - 1) = Some (i', int (length pat) - int i')"
        "i' = length pat \<longleftrightarrow> set (drop (Suc i) pat) \<subseteq> {CHR ''*''}" by (auto simp: algebra_simps)
      then show ?thesis using step True c Cons by (intro exI [of _ i']) simp
    next
      case False
      then show ?thesis using step c Cons by (intro exI [of _ i]) simp
    qed
  qed
qed

lemma skip_next_parse:
  assumes "i < length pat" and "parse (drop (Suc i) pat) = Some ts"
  shows "\<exists>i' ts'. skip_next pat i (int (length pat) - int i) = Some (i', int (length pat) - int i') \<and>
    i \<le> i' \<and> i' < length pat \<and> parse (drop (Suc i') pat) = Some ts' \<and>
    (Suc i' = length pat \<longleftrightarrow> ts' = []) \<and> (glob nc ts' [] \<longrightarrow> ts' = []) \<and>
    (\<forall>s. glob nc (TStar # ts) s = glob nc (TStar # ts') s)"
  using assms
proof (induction "length pat - i" arbitrary: i ts rule: less_induct)
  case less
  note step = skip_next.simps [of pat i "int (length pat) - int i"]
  show ?case
  proof (cases "drop (Suc i) pat")
    case Nil
    then have "Suc i = length pat" using less.prems(1) by simp
    then show ?thesis using step less.prems
      by (intro exI [of _ i]) (simp add: NUL_def)
  next
    case (Cons c cs)
    from drop_ConsD [OF Cons] have c: "Suc i < length pat" "pat ! Suc i = c" "drop (Suc (Suc i)) pat = cs"
      by simp_all
    show ?thesis
    proof (cases "c = CHR ''*''")
      case True
      with less.prems(2) Cons obtain us where us: "parse cs = Some us" "ts = TStar # us" by auto
      have dec: "length pat - Suc i < length pat - i" using c(1) by arith
      from less.hyps [OF dec, of us] c us(1) obtain i' ts' where
        "skip_next pat (Suc i) (int (length pat) - int i - 1) = Some (i', int (length pat) - int i')"
        "Suc i \<le> i'" "i' < length pat" "parse (drop (Suc i') pat) = Some ts'"
        "Suc i' = length pat \<longleftrightarrow> ts' = []" "glob nc ts' [] \<longrightarrow> ts' = []"
        "\<forall>s. glob nc (TStar # us) s = glob nc (TStar # ts') s" by (auto simp: algebra_simps)
      then show ?thesis using step True c us(2) glob_TStar_TStar [of nc us]
        by (intro exI [of _ i'] exI [of _ ts']) (simp del: glob.simps)
    next
      case False
      have ne: "ts \<noteq> []" "\<not> glob nc ts []"
        using less.prems(2) Cons parse_stars [OF less.prems(2)] False
        by (auto simp: glob_nil simp del: parse.simps)
      then show ?thesis using step False c less.prems
        by (intro exI [of _ i] exI [of _ ts]) simp
    qed
  qed
qed

lemma star_loop_glob:
  assumes "\<And>j. j < length str \<Longrightarrow>
      StringMatch pat (Suc i) (pl - 1) str j (int (length str) - int j) nc = Some (glob nc ts (drop j str))"
    and "i \<le> length pat" and "j \<le> length str"
  shows "star_loop pat i pl str j (int (length str) - int j) nc =
    Some (\<exists>k < length (drop j str). glob nc ts (drop k (drop j str)))"
  using assms(3)
proof (induction "length str - j" arbitrary: j)
  case 0
  then show ?case by (simp add: star_loop.simps)
next
  case (Suc n)
  then have j: "j < length str" by simp
  have "star_loop pat i pl str (Suc j) (int (length str) - int j - 1) nc =
      Some (\<exists>k < length str - Suc j. glob nc ts (drop (k + Suc j) str))"
    using Suc.hyps(1) [of "Suc j"] Suc.hyps(2) j by (simp add: algebra_simps)
  moreover have "(\<exists>k < length str - j. glob nc ts (drop (k + j) str)) \<longleftrightarrow>
      glob nc ts (drop j str) \<or> (\<exists>k < length str - Suc j. glob nc ts (drop (k + Suc j) str))"
  proof -
    obtain l where l: "length str - j = Suc l" using j by (metis Suc_diff_Suc)
    then have "length str - Suc j = l" by simp
    then show ?thesis unfolding l by (auto simp: less_Suc_eq_0_disj)
  qed
  ultimately show ?case
    using assms(1) [OF j] assms(2) j
    by (subst star_loop.simps) (auto simp: adv_def split: bool.splits)
qed

text \<open>One item that is not a star: the matcher compares one character and moves on.\<close>

lemma match_item_token:
  assumes "drop i pat = c # p" and "c \<noteq> CHR ''*''" and "parse (c # p) = Some ts" and "j < length str"
  shows "\<exists>t us i'. ts = t # us \<and> t \<noteq> TStar \<and>
    match_item pat i (int (length pat) - int i) str j (int (length str) - int j) nc =
      Some (if token_matches nc (str ! j) t
            then Cont i' (int (length pat) - int i') (Suc j) (int (length str) - int j - 1)
            else Ret False) \<and>
    i \<le> i' \<and> i' < length pat \<and> parse (drop (Suc i') pat) = Some us"
proof -
  from drop_ConsD [OF assms(1)] have c: "i < length pat" "pat ! i = c" "drop (Suc i) pat = p" by simp_all
  have n1: "rd pat (Suc i) = Some (case p of [] \<Rightarrow> NUL | c # _ \<Rightarrow> c)"
    using rd_next [OF c(3)] c(1) by simp
  have lp: "length p = length pat - Suc i" using c(3) by auto
  have av: "adv str j = Some (Suc j)" using assms(4) by (simp add: adv_def)
  consider (any) "c = CHR ''?''" | (bracket) "c = CHR ''[''"
    | (esc) x q where "c = CHR 0x5C" "p = x # q"
    | (lit) "c \<noteq> CHR ''?''" "c \<noteq> CHR ''[''" "c \<noteq> CHR 0x5C \<or> p = []"
    by (cases p) auto
  then show ?thesis
  proof cases
    case any
    then obtain us where us: "ts = TAny # us" "parse p = Some us" using assms(3) by auto
    then show ?thesis using any c av assms(4)
      by (intro exI [of _ TAny] exI [of _ us] exI [of _ i]) (simp add: match_item_def)
  next
    case esc
    from drop_ConsD [of "Suc i" pat x q] c(3) esc have d: "Suc i < length pat" "pat ! Suc i = x"
      "drop (Suc (Suc i)) pat = q" by auto
    from assms(3) esc obtain us where us: "ts = TLit x # us" "parse q = Some us" by auto
    show ?thesis using esc us d c av assms(4)
      by (intro exI [of _ "TLit x"] exI [of _ us] exI [of _ "Suc i"])
        (simp add: match_item_def Let_def algebra_simps)
  next
    case lit
    from lit assms(2,3) obtain us where us: "ts = TLit c # us" "parse p = Some us" by auto
    have e: "(c = CHR 0x5C \<and> 2 \<le> int (length pat) - int i) = False"
      using lit(3) lp c(1) by auto
    have "match_item pat i (int (length pat) - int i) str j (int (length str) - int j) nc =
        Some (if same_char nc c (str ! j)
              then Cont i (int (length pat) - int i) (Suc j) (int (length str) - int j - 1)
              else Ret False)"
      by (simp add: match_item_def Let_def e lit(1,2) assms(2,4) c(1,2) av)
    then show ?thesis using us c
      by (intro exI [of _ "TLit c"] exI [of _ us] exI [of _ i]) simp
  next
    case bracket
    define neg where "neg = (p \<noteq> [] \<and> hd p = CHR ''^'')"
    define k where "k = (if neg then i + 2 else i + 1)"
    have neg_rd: "((case p of [] \<Rightarrow> NUL | c # _ \<Rightarrow> c) = CHR ''^'') = neg"
      by (cases p) (simp_all add: neg_def NUL_def)
    have k: "drop k pat = (if neg then tl p else p)" "k \<le> length pat" "0 < k"
      using c lp by (auto simp: k_def neg_def drop_Suc tl_drop Suc_le_eq)
    from assms(3) bracket obtain its r us where ps: "parse_set (drop k pat) = Some (its, r)"
      "parse r = Some us" "ts = TSet neg its # us"
      unfolding k(1) by (auto simp: Let_def neg_def split: option.splits)
    from set_loop_parse [OF ps(1) k(3,2) assms(4), of nc False] obtain i' where
      sl: "set_loop pat str j nc k (int (length pat) - int k) False =
        Some (list_ex (item_matches nc (str ! j)) its, i', int (length pat) - int i')"
        "i' < length pat" "drop (Suc i') pat = r" by auto
    have "i \<le> i'" using set_loop_progress [OF sl(1)] by (auto simp: k_def split: if_splits)
    moreover have "set_loop pat str j nc (if neg then i + 2 else i + 1)
        (if neg then int (length pat) - int i - 2 else int (length pat) - int i - 1) False =
        set_loop pat str j nc k (int (length pat) - int k) False"
      by (simp add: k_def algebra_simps)
    then have "match_item pat i (int (length pat) - int i) str j (int (length str) - int j) nc =
      Some (if list_ex (item_matches nc (str ! j)) its \<noteq> neg
            then Cont i' (int (length pat) - int i') (Suc j) (int (length str) - int j - 1)
            else Ret False)"
      unfolding match_item_def using bracket c(1,2) n1 neg_rd av sl(1)
      by (simp add: Let_def del: of_nat_Suc)
    ultimately show ?thesis using ps sl(2,3)
      by (intro exI [of _ "TSet neg its"] exI [of _ us] exI [of _ i']) simp
  qed
qed

theorem StringMatch_glob:
  assumes "parse (drop i pat) = Some ts" and "i \<le> length pat" and "j < length str"
  shows "StringMatch pat i (int (length pat) - int i) str j (int (length str) - int j) nc =
    Some (glob nc ts (drop j str))"
  using assms
proof (induction "length pat - i" arbitrary: i ts j rule: less_induct)
  case less
  have str: "drop j str = str ! j # drop (Suc j) str"
    using less.prems(3) by (simp add: Cons_nth_drop_Suc)
  note step = StringMatch.simps [of pat i "int (length pat) - int i" str j "int (length str) - int j" nc]
  show ?case
  proof (cases "drop i pat")
    case Nil
    then have "i = length pat" using less.prems(2) by simp
    then show ?thesis using less.prems step by auto
  next
    case (Cons c p)
    from drop_ConsD [OF Cons] have c: "i < length pat" "pat ! i = c" "drop (Suc i) pat = p" by simp_all
    show ?thesis
    proof (cases "c = CHR ''*''")
      case True
      with less.prems(1) Cons c(3) obtain us where us: "parse (drop (Suc i) pat) = Some us"
        "ts = TStar # us" by auto
      from skip_next_parse [OF c(1) us(1), of nc] obtain i' vs where
        sk: "skip_next pat i (int (length pat) - int i) = Some (i', int (length pat) - int i')"
          "i \<le> i'" "i' < length pat" "parse (drop (Suc i') pat) = Some vs"
          "Suc i' = length pat \<longleftrightarrow> vs = []" "glob nc vs [] \<longrightarrow> vs = []"
          "\<forall>s. glob nc (TStar # us) s = glob nc (TStar # vs) s" by blast
      show ?thesis
      proof (cases "vs = []")
        case True
        have "glob nc ts (drop j str) = glob nc (TStar # vs) (drop j str)" using us sk(7) by blast
        then have "glob nc ts (drop j str)" using True by (simp add: glob_TStar)
        then show ?thesis using step \<open>c = CHR ''*''\<close> c sk(1,5) True
          by (simp add: match_item_def)
      next
        case False
        have "\<And>j. j < length str \<Longrightarrow> StringMatch pat (Suc i') (int (length pat) - int i' - 1) str j
            (int (length str) - int j) nc = Some (glob nc vs (drop j str))"
          using less.hyps [of "Suc i'" vs] sk(2-4) c(1) by (simp add: algebra_simps)
        from star_loop_glob [of str pat i' "int (length pat) - int i'" nc vs j, OF this]
        have "star_loop pat i' (int (length pat) - int i') str j (int (length str) - int j) nc =
            Some (glob nc ts (drop j str))"
          using sk(3,6) us(2) sk(7) [rule_format, of "drop j str"] False less.prems(3)
          by (simp add: glob_TStar)
        then show ?thesis using step \<open>c = CHR ''*''\<close> c sk(1,3,5) False
          by (simp add: match_item_def)
      qed
    next
      case False
      from match_item_token [OF Cons False less.prems(1) [unfolded Cons] less.prems(3), of nc]
      obtain t us i' where t: "ts = t # us" "t \<noteq> TStar"
        "match_item pat i (int (length pat) - int i) str j (int (length str) - int j) nc =
          Some (if token_matches nc (str ! j) t
            then Cont i' (int (length pat) - int i') (Suc j) (int (length str) - int j - 1)
            else Ret False)"
        "i \<le> i'" "i' < length pat" "parse (drop (Suc i') pat) = Some us" by blast
      have g: "glob nc ts (drop j str) \<longleftrightarrow> token_matches nc (str ! j) t \<and> glob nc us (drop (Suc j) str)"
        using t(1,2) str by (cases t) simp_all
      show ?thesis
      proof (cases "Suc j < length str")
        case True
        have "StringMatch pat (Suc i') (int (length pat) - int i' - 1) str (Suc j)
            (int (length str) - int j - 1) nc = Some (glob nc us (drop (Suc j) str))"
          using less.hyps [of "Suc i'" us "Suc j"] t(4-6) c(1) True by (simp add: algebra_simps)
        then show ?thesis using step t(3) g c(1) True by simp
      next
        case last: False
        then have e: "drop (Suc j) str = []" "int (length str) - int j - 1 = 0" using less.prems(3) by auto
        from skip_stars_parse [of "Suc i'" pat] t(5) obtain k where
          "skip_stars pat (Suc i') (int (length pat) - int i' - 1) = Some (k, int (length pat) - int k)"
          "k = length pat \<longleftrightarrow> set (drop (Suc i') pat) \<subseteq> {CHR ''*''}" by (auto simp: algebra_simps)
        then show ?thesis using step t(3) g c(1) e parse_stars [OF t(6)] by (auto simp: glob_nil)
      qed
    qed
  qed
qed

text \<open>
  At the end of the string every item but a star is compared with the terminator. A literal other than
  NUL and \<open>?\<close> refuse it, as they should; a bracket expression may take it for a character.
\<close>

fun plain_start :: "token list \<Rightarrow> bool" where
  "plain_start (TSet neg its # ts) = False"
| "plain_start (TLit c # ts) = (c \<noteq> NUL)"
| "plain_start ts = True"

lemma same_char_NUL: "same_char nc c NUL \<longleftrightarrow> c = NUL"
proof -
  have "char_of n \<noteq> NUL" if "97 \<le> n" "n \<le> 122" for n :: nat
  proof
    assume "char_of n = NUL"
    then have "of_char (char_of n :: char) = (of_char NUL :: nat)" by simp
    then show False using that by (simp add: NUL_def)
  qed
  then have "tolower c = tolower NUL \<longleftrightarrow> c = NUL"
    by (auto simp: tolower_def Let_def) (simp_all add: NUL_def)
  then show ?thesis by (simp add: same_char_def)
qed

theorem StringMatch_glob_end:
  assumes "parse (drop i pat) = Some ts" and "i \<le> length pat" and "plain_start ts"
  shows "StringMatch pat i (int (length pat) - int i) str (length str) 0 nc = Some (glob nc ts [])"
proof (cases "drop i pat")
  case Nil
  then have "i = length pat" using assms(2) by simp
  then show ?thesis using assms(1) by (subst StringMatch.simps) auto
next
  case (Cons c p)
  note step = StringMatch.simps [of pat i "int (length pat) - int i" str "length str" 0 nc]
  from drop_ConsD [OF Cons] have c: "i < length pat" "pat ! i = c" "drop (Suc i) pat = p" by simp_all
  have len: "length p = length pat - Suc i" using c(3) by auto
  have end_NUL: "rd str (length str) = Some NUL" by simp
  consider (star) "c = CHR ''*''" | (any) "c = CHR ''?''"
    | (esc) x q where "c = CHR 0x5C" "p = x # q" "x \<noteq> NUL"
    | (lit) "c \<noteq> CHR ''*''" "c \<noteq> CHR ''?''" "c \<noteq> CHR ''[''" "c \<noteq> CHR 0x5C \<or> p = []" "c \<noteq> NUL"
    using assms(1,3) Cons by (cases p) (auto simp: Let_def split: if_splits option.splits)
  then show ?thesis
  proof cases
    case star
    with assms(1) Cons c(3) obtain us where us: "parse (drop (Suc i) pat) = Some us" "ts = TStar # us" by auto
    from skip_next_parse [OF c(1) us(1), of nc] obtain i' vs where
      sk: "skip_next pat i (int (length pat) - int i) = Some (i', int (length pat) - int i')"
        "i' < length pat" "Suc i' = length pat \<longleftrightarrow> vs = []" "glob nc vs [] \<longrightarrow> vs = []"
        "\<forall>s. glob nc (TStar # us) s = glob nc (TStar # vs) s" by blast
    have "glob nc ts [] \<longleftrightarrow> glob nc vs []" using us(2) sk(5) [rule_format, of "[]"] by (simp add: glob_TStar)
    then have "glob nc ts [] \<longleftrightarrow> vs = []" using sk(4) by auto
    then show ?thesis using step star c sk(1-3) by (auto simp: match_item_def star_loop.simps)
  next
    case any
    then show ?thesis using step c assms(1) Cons by (auto simp: match_item_def)
  next
    case esc
    from drop_ConsD [of "Suc i" pat x q] c(3) esc have d: "Suc i < length pat" "pat ! Suc i = x" by auto
    then have "2 \<le> int (length pat) - int i" by simp
    then show ?thesis using step esc c d assms(1) Cons end_NUL
      by (auto simp: match_item_def Let_def same_char_NUL)
  next
    case lit
    have "(c = CHR 0x5C \<and> 2 \<le> int (length pat) - int i) = False" using lit(4) len c(1) by auto
    then show ?thesis using step lit c assms(1) Cons end_NUL
      by (auto simp: match_item_def Let_def same_char_NUL)
  qed
qed

text \<open>
  A bracket expression cut off behind a backslash is read past the terminator, and a negated one
  takes a character off the empty string.
\<close>

lemma StringMatch_open_escape: "StringMatch [CHR ''['', CHR 0x5C] 0 2 ''a'' 0 1 False = None"
  by (simp add: StringMatch.simps match_item_def set_loop.simps rd_def nth_opt_def NUL_def)

lemma StringMatch_negated_empty: "StringMatch ''[^a]*'' 0 5 [] 0 0 False = Some True"
  by (simp add: StringMatch.simps match_item_def set_loop.simps skip_next.simps rd_def nth_opt_def NUL_def
      adv_def same_char_def)

end
