(* ===== verification/Sds.thy ===== *)
theory Sds
  imports Libc
begin

text \<open>
  The dynamic strings of \<open>data_struct/sds.c\<close>: a header (\<open>len\<close>, \<open>free\<close>) and a buffer of
  \<open>len + free + 1\<close> bytes whose \<open>len\<close>-th byte is NUL. The buffer is raw memory, so every
  \<open>memcpy\<close>, \<open>memmove\<close> and terminator write is checked against the allocation. The lemmas
  show that the operations keep the header and the buffer in step (\<open>sds_ok\<close>) and implement
  operations on the content; the last section shows where the source does not.
\<close>

section \<open>Layout\<close>

record sds =
  sds_len :: int
  sds_free :: int
  sds_buf :: "char option list"

definition content :: "sds \<Rightarrow> string" where
  "content s = map the (take (nat (sds_len s)) (sds_buf s))"

text \<open>The invariant of the layout; \<open>long\<close> is 64 bits wide.\<close>

definition sds_ok :: "sds \<Rightarrow> bool" where
  "sds_ok s \<longleftrightarrow> 0 \<le> sds_len s \<and> 0 \<le> sds_free s \<and> sds_len s + sds_free s < 2 ^ 63 \<and>
     length (sds_buf s) = nat (sds_len s + sds_free s) + 1 \<and>
     None \<notin> set (take (nat (sds_len s)) (sds_buf s)) \<and>
     sds_buf s ! nat (sds_len s) = Some NUL"

section \<open>Operations\<close>

definition sdslen :: "sds \<Rightarrow> nat" where
  "sdslen s = to_size_t (sds_len s)"

definition sdsavail :: "sds \<Rightarrow> nat" where
  "sdsavail s = to_size_t (sds_free s)"

text \<open>\<open>zrealloc\<close> keeps the old bytes; the bytes it adds are indeterminate.\<close>

definition resize :: "nat \<Rightarrow> 'a option list \<Rightarrow> 'a option list" where
  "resize n m = take n m @ replicate (n - length m) None"

definition sdsMakeRoomFor :: "sds \<Rightarrow> nat \<Rightarrow> sds" where
  "sdsMakeRoomFor s addlen =
     (if sdsavail s \<ge> addlen then s
      else let len = sdslen s; newlen = (len + addlen) * 2
           in s\<lparr>sds_free := int newlen - int len, sds_buf := resize (newlen + 1) (sds_buf s)\<rparr>)"

definition sdsnewlen :: "string option \<Rightarrow> nat \<Rightarrow> sds option" where
  "sdsnewlen init initlen =
     do { bytes \<leftarrow> (case init of
                      Some t \<Rightarrow> if initlen \<le> length t then Some (take initlen t) else None
                    | None \<Rightarrow> Some (replicate initlen NUL));
          Some \<lparr>sds_len = int initlen, sds_free = 0, sds_buf = map Some bytes @ [Some NUL]\<rparr> }"

definition sdsnew :: "string option \<Rightarrow> sds option" where
  "sdsnew init = sdsnewlen init (case init of None \<Rightarrow> 0 | Some t \<Rightarrow> strlen t)"

definition sdsempty :: "sds option" where
  "sdsempty = sdsnewlen (Some []) 0"

definition sdsdup :: "sds \<Rightarrow> sds option" where
  "sdsdup s = do { t \<leftarrow> peek 0 (sdslen s) (sds_buf s); sdsnewlen (Some t) (sdslen s) }"

definition sdscatlen :: "sds \<Rightarrow> string \<Rightarrow> nat \<Rightarrow> sds option" where
  "sdscatlen s t n =
     (let curlen = sdslen s; s = sdsMakeRoomFor s n in
      do { guard (n \<le> length t);
           buf \<leftarrow> poke curlen (map Some (take n t)) (sds_buf s);
           buf \<leftarrow> poke (curlen + n) [Some NUL] buf;
           Some (s\<lparr>sds_len := int (curlen + n), sds_free := sds_free s - int n, sds_buf := buf\<rparr>) })"

definition sdscat :: "sds \<Rightarrow> string \<Rightarrow> sds option" where
  "sdscat s t = sdscatlen s t (strlen t)"

definition sdscpylen :: "sds \<Rightarrow> string \<Rightarrow> nat \<Rightarrow> sds option" where
  "sdscpylen s t n =
     (let totlen = to_size_t (sds_free s + sds_len s) in
      let s' = (if totlen < n then sdsMakeRoomFor s (n - totlen) else s) in
      let totlen' = (if totlen < n then to_size_t (sds_free s' + sds_len s') else totlen) in
      do { guard (n \<le> length t);
           buf \<leftarrow> poke 0 (map Some (take n t)) (sds_buf s');
           buf \<leftarrow> poke n [Some NUL] buf;
           Some (s'\<lparr>sds_len := int n, sds_free := int totlen' - int n, sds_buf := buf\<rparr>) })"

definition sdscpy :: "sds \<Rightarrow> string \<Rightarrow> sds option" where
  "sdscpy s t = sdscpylen s t (strlen t)"

text \<open>
  \<open>sdstrim\<close> walks two cursors inward from the ends of the content. A cursor is an index;
  reading outside the buffer or an indeterminate byte is undefined.
\<close>

definition byte_at :: "char option list \<Rightarrow> int \<Rightarrow> char option" where
  "byte_at m i = (if 0 \<le> i \<and> nat i < length m then m ! nat i else None)"

function trim_sp :: "string \<Rightarrow> char option list \<Rightarrow> int \<Rightarrow> int \<Rightarrow> int option" where
  "trim_sp cset m sp e =
     (if sp \<le> e
      then (case byte_at m sp of None \<Rightarrow> None
            | Some c \<Rightarrow> if strchr_in cset c then trim_sp cset m (sp + 1) e else Some sp)
      else Some sp)"
  by pat_completeness auto
termination by (relation "measure (\<lambda>(cset, m, sp, e). nat (e + 1 - sp))") auto

function trim_ep :: "string \<Rightarrow> char option list \<Rightarrow> int \<Rightarrow> int \<Rightarrow> int option" where
  "trim_ep cset m start ep =
     (if ep \<ge> start
      then (case byte_at m ep of None \<Rightarrow> None
            | Some c \<Rightarrow> if strchr_in cset c then trim_ep cset m start (ep - 1) else Some ep)
      else Some ep)"
  by pat_completeness auto
termination by (relation "measure (\<lambda>(cset, m, start, ep). nat (ep + 1 - start))") auto

declare trim_sp.simps [simp del] trim_ep.simps [simp del]

definition sdstrim :: "sds \<Rightarrow> string \<Rightarrow> sds option" where
  "sdstrim s cset =
     (let e = int (sdslen s) - 1 in
      do { sp \<leftarrow> trim_sp cset (sds_buf s) 0 e;
           ep \<leftarrow> trim_ep cset (sds_buf s) 0 e;
           let len = (if sp > ep then 0 else nat (ep - sp + 1));
           buf \<leftarrow> (if sp \<noteq> 0
                    then do { guard (nat sp + len \<le> length (sds_buf s));
                              poke 0 (take len (drop (nat sp) (sds_buf s))) (sds_buf s) }
                    else Some (sds_buf s));
           buf \<leftarrow> poke len [Some NUL] buf;
           Some (s\<lparr>sds_len := int len, sds_free := sds_free s + (sds_len s - int len),
                   sds_buf := buf\<rparr>) })"

definition sdsrange :: "sds \<Rightarrow> int \<Rightarrow> int \<Rightarrow> sds option" where
  "sdsrange s start e =
     (let len = int (sdslen s) in
      if len = 0 then Some s
      else
        let start = (if start < 0 then max 0 (len + start) else start);
            e = (if e < 0 then max 0 (len + e) else e);
            newlen = (if start > e then 0 else e - start + 1);
            start' = (if newlen \<noteq> 0 then (if start \<ge> len then len - 1 else start) else 0);
            e' = (if newlen \<noteq> 0 \<and> e \<ge> len then len - 1 else e);
            newlen' = (if newlen \<noteq> 0 then (if start' > e' then 0 else e' - start' + 1) else 0);
            n = nat newlen'
        in do { buf \<leftarrow> (if start' \<noteq> 0
                         then do { guard (nat start' + n \<le> length (sds_buf s));
                                   poke 0 (take n (drop (nat start') (sds_buf s))) (sds_buf s) }
                         else Some (sds_buf s));
                buf \<leftarrow> poke n [Some NUL] buf;
                Some (s\<lparr>sds_free := sds_free s + (sds_len s - newlen'), sds_len := newlen',
                        sds_buf := buf\<rparr>) })"

text \<open>\<open>strlen\<close> on raw memory: it reads up to the first NUL and must find one.\<close>

fun strlen_mem :: "char option list \<Rightarrow> nat option" where
  "strlen_mem [] = None"
| "strlen_mem (None # m) = None"
| "strlen_mem (Some c # m) = (if c = NUL then Some 0 else map_option Suc (strlen_mem m))"

definition sdsupdatelen :: "sds \<Rightarrow> sds option" where
  "sdsupdatelen s =
     do { n \<leftarrow> strlen_mem (sds_buf s);
          let reallen = as_int (int n);
          Some (s\<lparr>sds_free := sds_free s + (sds_len s - reallen), sds_len := reallen\<rparr>) }"

definition sdscmp :: "sds \<Rightarrow> sds \<Rightarrow> int option" where
  "sdscmp s1 s2 =
     (let l1 = sdslen s1; l2 = sdslen s2; minlen = min l1 l2 in
      do { a \<leftarrow> peek 0 minlen (sds_buf s1);
           b \<leftarrow> peek 0 minlen (sds_buf s2);
           let cmp = memcmp a b;
           Some (if cmp = 0 then as_int (int l1 - int l2) else cmp) })"

text \<open>The two case conversions rewrite the first \<open>len\<close> bytes in place.\<close>

definition sds_map_bytes :: "(char \<Rightarrow> char) \<Rightarrow> sds \<Rightarrow> sds option" where
  "sds_map_bytes f s =
     do { t \<leftarrow> peek 0 (sdslen s) (sds_buf s);
          buf \<leftarrow> poke 0 (map (Some \<circ> f) t) (sds_buf s);
          Some (s\<lparr>sds_buf := buf\<rparr>) }"

definition sdstolower :: "sds \<Rightarrow> sds option" where
  "sdstolower s = sds_map_bytes tolower s"

definition sdstoupper :: "sds \<Rightarrow> sds option" where
  "sdstoupper s = sds_map_bytes toupper s"

text \<open>
  \<open>sdscatprintf\<close> formats into a scratch buffer, doubling as often as \<open>vsnprintf\<close> reports that
  the output was cut; \<open>out\<close> is the text the format and its arguments stand for.
\<close>

function printf_buf :: "string \<Rightarrow> nat \<Rightarrow> string" where
  "printf_buf out buflen =
     (if 0 < length out \<and> length out \<ge> buflen then printf_buf out (length out + 1)
      else take (buflen - 1) out)"
  by pat_completeness auto
termination by (relation "measure (\<lambda>(out, buflen). length out + 1 - buflen)") auto

declare printf_buf.simps [simp del]

definition sdscatprintf :: "sds \<Rightarrow> string \<Rightarrow> sds option" where
  "sdscatprintf s out = sdscat s (printf_buf out 32 @ [NUL])"

section \<open>Splitting\<close>

text \<open>A result of signed arithmetic, undefined outside the range of \<open>int\<close>.\<close>

definition c_int :: "int \<Rightarrow> int option" where
  "c_int x = (if INT_MIN \<le> x \<and> x \<le> INT_MAX then Some x else None)"

text \<open>
  The scan of \<open>sdssplitlen\<close>: \<open>j\<close> is the cursor, \<open>start\<close> the beginning of the current token, \<open>slots\<close>
  the capacity of the token array, all of type \<open>int\<close>, as is the number of tokens (\<open>elements\<close>).
  Storing a token beyond the capacity is undefined.
\<close>

partial_function (option) split_loop ::
  "string \<Rightarrow> int \<Rightarrow> string \<Rightarrow> int \<Rightarrow> int \<Rightarrow> int \<Rightarrow> int \<Rightarrow> sds list \<Rightarrow> (int \<times> int \<times> sds list) option"
where
  "split_loop s len sep seplen j start slots tokens =
     (if j < len - (seplen - 1)
      then
        do { needed \<leftarrow> c_int (int (length tokens) + 2);
             slots \<leftarrow> (if slots < needed then c_int (slots * 2) else Some slots);
             if (seplen = 1 \<and> s ! nat j = sep ! 0) \<or>
                memcmp (take (nat seplen) (drop (nat j) s)) (take (nat seplen) sep) = 0
             then do { guard (int (length tokens) < slots);
                       t \<leftarrow> sdsnewlen (Some (drop (nat start) s)) (nat (j - start));
                       start \<leftarrow> c_int (j + seplen);
                       j \<leftarrow> c_int (j + seplen - 1);
                       j \<leftarrow> c_int (j + 1);
                       split_loop s len sep seplen j start slots (tokens @ [t]) }
             else do { j \<leftarrow> c_int (j + 1);
                       split_loop s len sep seplen j start slots tokens } }
      else Some (start, slots, tokens))"

text \<open>The outer option is undefined behaviour, the inner one the NULL result.\<close>

definition sdssplitlen :: "string \<Rightarrow> int \<Rightarrow> string \<Rightarrow> int \<Rightarrow> sds list option option" where
  "sdssplitlen s len sep seplen =
     do { len \<leftarrow> c_int len;
          seplen \<leftarrow> c_int seplen;
          if seplen < 1 \<or> len < 0 then Some None
          else do { guard (nat len \<le> length s \<and> nat seplen \<le> length sep);
                    (start, slots, tokens) \<leftarrow> split_loop s len sep seplen 0 0 5 [];
                    guard (int (length tokens) < slots);
                    t \<leftarrow> sdsnewlen (Some (drop (nat start) s)) (nat (len - start));
                    Some (Some (tokens @ [t])) } }"

section \<open>The layout invariant\<close>

lemma sds_view:
  "sds_ok s \<longleftrightarrow> (\<exists>t rest. sds_buf s = map Some t @ Some NUL # rest \<and> sds_len s = int (length t) \<and>
     sds_free s = int (length rest) \<and> int (length t + length rest) < 2 ^ 63)"
  (is "_ \<longleftrightarrow> (\<exists>t rest. ?V t rest)")
proof
  assume ok: "sds_ok s"
  define n where "n = nat (sds_len s)"
  have len: "length (sds_buf s) = nat (sds_len s + sds_free s) + 1" "0 \<le> sds_len s" "0 \<le> sds_free s"
    and nn: "None \<notin> set (take n (sds_buf s))" and nul: "sds_buf s ! n = Some NUL"
    using ok by (auto simp: sds_ok_def n_def)
  then have n: "n < length (sds_buf s)" by (simp add: n_def)
  have "map Some (map the (take n (sds_buf s))) = take n (sds_buf s)"
    using nn by (simp add: comp_def) (rule map_idI, metis option.collapse)
  moreover have "sds_buf s = take n (sds_buf s) @ Some NUL # drop (Suc n) (sds_buf s)"
    using id_take_nth_drop [OF n] nul by simp
  ultimately have "?V (map the (take n (sds_buf s))) (drop (Suc n) (sds_buf s))"
    using ok len n by (auto simp: sds_ok_def n_def nat_add_distrib)
  then show "\<exists>t rest. ?V t rest" by blast
next
  assume "\<exists>t rest. ?V t rest"
  then show "sds_ok s" by (auto simp: sds_ok_def nth_append)
qed

lemma sds_okE:
  assumes "sds_ok s"
  obtains t rest where "s = \<lparr>sds_len = int (length t), sds_free = int (length rest),
      sds_buf = map Some t @ Some NUL # rest\<rparr>" and "content s = t"
    and "length t + length rest < 2 ^ 63"
proof -
  from assms obtain t rest where v: "sds_buf s = map Some t @ Some NUL # rest"
    "sds_len s = int (length t)" "sds_free s = int (length rest)" "int (length t + length rest) < 2 ^ 63"
    unfolding sds_view by blast
  have "length t + length rest < 2 ^ 63" using v(4) by simp
  with v show ?thesis by (intro that [of t rest]) (auto simp: content_def comp_def)
qed

lemma sds_okI:
  assumes "length t + length rest < 2 ^ 63"
  shows "sds_ok \<lparr>sds_len = int (length t), sds_free = int (length rest),
      sds_buf = map Some t @ Some NUL # rest\<rparr>"
proof -
  have "int (length t + length rest) < 2 ^ 63" using assms by simp
  then show ?thesis unfolding sds_view by auto
qed

lemma content_view [simp]:
  "content \<lparr>sds_len = int (length t), sds_free = f, sds_buf = map Some t @ m\<rparr> = t"
  by (simp add: content_def comp_def)

lemma sdslen_ok [sds_simps]: "sds_ok s \<Longrightarrow> sdslen s = length (content s)"
  by (erule sds_okE) (simp add: sdslen_def)

lemma sdsavail_ok: "sds_ok s \<Longrightarrow> sdsavail s = nat (sds_free s)"
  by (erule sds_okE) (simp add: sdsavail_def)

lemma poke_prefix:
  "length xs = length ys \<Longrightarrow> poke (length zs) xs (zs @ ys @ ws) = Some (zs @ xs @ ws)"
  by (simp add: poke_def)

lemma poke_0_prefix: "length xs = length ys \<Longrightarrow> poke 0 xs (ys @ ws) = Some (xs @ ws)"
  by (simp add: poke_def)

text \<open>A run of writes that ends with the terminator, anywhere inside the allocation.\<close>

lemma poke_terminated:
  assumes "length a + length t < length m" and "take (length a) m = map Some a"
  shows "\<exists>rest. (poke (length a) (map Some t) m \<bind> poke (length a + length t) [Some NUL]) =
      Some (map Some (a @ t) @ Some NUL # rest) \<and> length a + length t + 1 + length rest = length m"
proof -
  let ?k = "length a + length t"
  have "poke (length a) (map Some t) m = Some (map Some a @ map Some t @ drop ?k m)"
    using assms by (simp add: poke_def)
  moreover have "poke ?k [Some NUL] (map Some a @ map Some t @ drop ?k m) =
      Some (map Some a @ map Some t @ Some NUL # drop (Suc ?k) m)"
    using assms by (simp add: poke_def)
  ultimately show ?thesis using assms(1) by auto
qed

lemma sdsnewlen_ok:
  assumes "n \<le> length t" and "n < 2 ^ 63"
  shows "\<exists>s. sdsnewlen (Some t) n = Some s \<and> sds_ok s \<and> content s = take n t"
  using assms sds_okI [of "take n t" "[]"] by (auto simp: sdsnewlen_def content_def comp_def)

lemma sdsempty_ok: "\<exists>s. sdsempty = Some s \<and> sds_ok s \<and> content s = []"
  using sdsnewlen_ok [of 0 "[]"] by (simp add: sdsempty_def)

text \<open>The shape in which every operation returns its result.\<close>

lemma sds_result:
  assumes "r = Some \<lparr>sds_len = int (length t), sds_free = int (length rest),
      sds_buf = map Some t @ Some NUL # rest\<rparr>" and "length t + length rest < 2 ^ 63"
  shows "\<exists>s. r = Some s \<and> sds_ok s \<and> content s = t"
  using assms sds_okI [of t rest] by simp

lemma peek_view: "n \<le> length t \<Longrightarrow> peek 0 n (map Some t @ m) = Some (take n t)"
  by (auto simp: peek_def Let_def take_map comp_def)

lemma sdsdup_ok:
  "sds_ok s \<Longrightarrow> \<exists>s'. sdsdup s = Some s' \<and> sds_ok s' \<and> content s' = content s"
proof (erule sds_okE)
  fix t rest
  assume v: "s = \<lparr>sds_len = int (length t), sds_free = int (length rest),
      sds_buf = map Some t @ Some NUL # rest\<rparr>" "content s = t" "length t + length rest < 2 ^ 63"
  have "sdsdup s = sdsnewlen (Some t) (length t)"
    using v by (simp add: sdsdup_def sdslen_def peek_view)
  then show ?thesis using v sdsnewlen_ok [of "length t" t] by simp
qed

lemma sdsMakeRoomFor_ok:
  assumes "sds_ok s" and "(length (content s) + n) * 2 < 2 ^ 63"
  shows "sds_ok (sdsMakeRoomFor s n) \<and> content (sdsMakeRoomFor s n) = content s \<and>
    n \<le> sdsavail (sdsMakeRoomFor s n)"
  using assms(1)
proof (rule sds_okE)
  fix t rest
  assume v: "s = \<lparr>sds_len = int (length t), sds_free = int (length rest),
      sds_buf = map Some t @ Some NUL # rest\<rparr>" "content s = t" "length t + length rest < 2 ^ 63"
  show ?thesis
  proof (cases "n \<le> length rest")
    case True
    with v assms show ?thesis by (simp add: sdsMakeRoomFor_def sdsavail_def)
  next
    case False
    define k where "k = (length t + n) * 2"
    define rest' where "rest' = rest @ replicate (k - (length t + length rest)) None"
    have k: "k < 2 ^ 63" "length t + length rest < k"
      using assms(2) v(2) False by (auto simp: k_def)
    have "sdsMakeRoomFor s n = \<lparr>sds_len = int (length t), sds_free = int (length rest'),
        sds_buf = map Some t @ Some NUL # rest'\<rparr>"
      using False v k by (auto simp: sdsMakeRoomFor_def sdsavail_def sdslen_def resize_def Let_def
          k_def rest'_def)
    moreover have "length t + length rest' < 2 ^ 63" "n \<le> length rest'" "length rest' < 2 ^ 63"
      using k by (auto simp: rest'_def k_def)
    ultimately show ?thesis using v(2) sds_okI [of t rest'] by (simp add: sdsavail_def)
  qed
qed

theorem sdscatlen_ok:
  assumes "sds_ok s" and "n \<le> length t" and "(length (content s) + n) * 2 < 2 ^ 63"
  shows "\<exists>s'. sdscatlen s t n = Some s' \<and> sds_ok s' \<and> content s' = content s @ take n t"
proof -
  define s1 where "s1 = sdsMakeRoomFor s n"
  from sdsMakeRoomFor_ok [OF assms(1,3)]
  have "sds_ok s1" and c: "content s1 = content s" "n \<le> sdsavail s1" by (auto simp: s1_def)
  from this(1) obtain a rest where v: "s1 = \<lparr>sds_len = int (length a),
      sds_free = int (length rest), sds_buf = map Some a @ Some NUL # rest\<rparr>"
    "content s1 = a" "length a + length rest < 2 ^ 63" by (rule sds_okE)
  have len: "sdslen s = length a" using assms(1) c v by (simp add: sdslen_ok)
  have n: "n \<le> length rest" using c(2) v by (simp add: sdsavail_def)
  have "\<exists>rest'. (poke (length a) (map Some (take n t)) (sds_buf s1)
        \<bind> poke (length a + length (take n t)) [Some NUL]) =
      Some (map Some (a @ take n t) @ Some NUL # rest') \<and>
      length a + length (take n t) + 1 + length rest' = length (sds_buf s1)"
    by (rule poke_terminated) (use n v in auto)
  then obtain rest' where p: "(poke (length a) (map Some (take n t)) (sds_buf s1)
        \<bind> poke (length a + n) [Some NUL]) = Some (map Some (a @ take n t) @ Some NUL # rest')"
    and l: "length a + n + 1 + length rest' = length (sds_buf s1)"
    using assms(2) by auto
  have "sdscatlen s t n = Some \<lparr>sds_len = int (length (a @ take n t)),
      sds_free = int (length rest'), sds_buf = map Some (a @ take n t) @ Some NUL # rest'\<rparr>"
    using p l n assms(2) len v(1)
    by (auto simp: sdscatlen_def s1_def [symmetric] Let_def bind_eq_Some_conv)
  moreover have "length (a @ take n t) + length rest' < 2 ^ 63"
    using l v assms(2) by simp
  ultimately show ?thesis using c(1) v(2) sds_result by metis
qed

corollary sdscat_ok:
  "sds_ok s \<Longrightarrow> (length (content s) + strlen t) * 2 < 2 ^ 63 \<Longrightarrow>
   \<exists>s'. sdscat s t = Some s' \<and> sds_ok s' \<and> content s' = content s @ cstr t"
  using sdscatlen_ok [of s "strlen t" t] strlen_le [of t]
  by (simp add: sdscat_def) (simp add: strlen_def cstr_def takeWhile_eq_take [symmetric])

section \<open>Copying over a buffer\<close>

text \<open>
  \<open>sdscpylen\<close> asks \<open>sdsMakeRoomFor\<close> for \<open>n - totlen\<close> further bytes, but that function compares the
  request with the free bytes alone. When the free bytes cover the request the buffer is not
  grown, and the copy runs past its end: the call is defined exactly when the copy fits or the
  request exceeds the free bytes.
\<close>

lemma sdscpylen_fits:
  assumes "sds_ok s" and "n \<le> length t" and "n \<le> length (content s) + sdsavail s"
  shows "\<exists>s'. sdscpylen s t n = Some s' \<and> sds_ok s' \<and> content s' = take n t"
  using assms(1)
proof (rule sds_okE)
  fix a rest
  assume v: "s = \<lparr>sds_len = int (length a), sds_free = int (length rest),
      sds_buf = map Some a @ Some NUL # rest\<rparr>" "content s = a" "length a + length rest < 2 ^ 63"
  have n: "n \<le> length a + length rest" using assms(3) v by (simp add: sdsavail_def)
  obtain rest' where p: "(poke 0 (map Some (take n t)) (sds_buf s) \<bind> poke n [Some NUL]) =
      Some (map Some (take n t) @ Some NUL # rest')" "n + 1 + length rest' = length (sds_buf s)"
    using poke_terminated [of "[]" "take n t" "sds_buf s"] n v assms(2) by auto
  have "sdscpylen s t n = Some \<lparr>sds_len = int (length (take n t)),
      sds_free = int (length rest'), sds_buf = map Some (take n t) @ Some NUL # rest'\<rparr>"
    using p n assms(2) v(1,3)
    by (auto simp: sdscpylen_def Let_def bind_eq_Some_conv nat_add_distrib)
  then show ?thesis by (rule sds_result) (use p v assms(2) in auto)
qed

lemma sdscpylen_grows:
  assumes "sds_ok s" and "n \<le> length t" and "length (content s) + 2 * sdsavail s < n"
    and "n * 2 < 2 ^ 63"
  shows "\<exists>s'. sdscpylen s t n = Some s' \<and> sds_ok s' \<and> content s' = take n t"
proof -
  let ?add = "n - (length (content s) + sdsavail s)"
  define s1 where "s1 = sdsMakeRoomFor s ?add"
  have av: "sdsavail s < ?add" using assms(3) by simp
  have "(length (content s) + ?add) * 2 \<le> n * 2" using assms(3) by simp
  also note assms(4)
  finally have "(length (content s) + ?add) * 2 < 2 ^ 63" .
  with assms(1) have s1: "sds_ok s1" "content s1 = content s" "?add \<le> sdsavail s1"
    unfolding s1_def using sdsMakeRoomFor_ok by blast+
  have tot: "to_size_t (sds_free s + sds_len s) = length (content s) + sdsavail s"
    "sds_free s + sds_len s < 2 ^ 63" "0 \<le> sds_free s" "0 \<le> sds_len s"
    using assms(1) by (auto elim!: sds_okE simp: sdsavail_def nat_add_distrib)
  have f1: "int (sdsavail s1) = int ((length (content s) + ?add) * 2) - int (length (content s))"
    using av assms(1) s1(1) unfolding s1_def
    by (auto simp: sdsMakeRoomFor_def Let_def sdslen_ok sdsavail_ok)
  have "length (content s) + sdsavail s1 = (length (content s) + ?add) * 2"
    using f1 by linarith
  with s1(2) assms(3) have fit: "n \<le> length (content s1) + sdsavail s1" by simp
  have "sdscpylen s t n = sdscpylen s1 t n"
  proof -
    have "to_size_t (sds_free s1 + sds_len s1) = length (content s1) + sdsavail s1"
      using s1(1) by (auto elim!: sds_okE simp: sdsavail_def nat_add_distrib)
    with fit show ?thesis using assms(3) tot(1)
      by (simp add: sdscpylen_def Let_def s1_def [symmetric])
  qed
  with sdscpylen_fits [OF s1(1) assms(2) fit] show ?thesis by simp
qed

lemma sdscpylen_overrun:
  assumes "sds_ok s" and "length (content s) + sdsavail s < n"
    and "n \<le> length (content s) + 2 * sdsavail s"
  shows "sdscpylen s t n = None"
  using assms(1)
proof (rule sds_okE)
  fix a rest
  assume v: "s = \<lparr>sds_len = int (length a), sds_free = int (length rest),
      sds_buf = map Some a @ Some NUL # rest\<rparr>" "content s = a" "length a + length rest < 2 ^ 63"
  have "sdsMakeRoomFor s (n - (length rest + length a)) = s"
    using assms(3) v by (simp add: sdsMakeRoomFor_def sdsavail_def)
  moreover have "length a + length rest < n" using assms(2) v by (simp add: sdsavail_def)
  ultimately show ?thesis using v
    by (auto simp: sdscpylen_def Let_def nat_add_distrib poke_def bind_eq_None_conv)
qed

section \<open>Trimming\<close>

definition strip :: "(char \<Rightarrow> bool) \<Rightarrow> string \<Rightarrow> string" where
  "strip P t = rev (dropWhile P (rev (dropWhile P t)))"

lemma byte_at_view: "0 \<le> i \<Longrightarrow> nat i < length t \<Longrightarrow> byte_at (map Some t @ m) i = Some (t ! nat i)"
  by (simp add: byte_at_def nth_append)

lemma trim_sp_view:
  assumes "k \<le> length t"
  shows "trim_sp cset (map Some t @ m) (int k) (int (length t) - 1) =
    Some (int (k + length (takeWhile (strchr_in cset) (drop k t))))"
  using assms
proof (induction "length t - k" arbitrary: k)
  case 0
  then show ?case by (subst trim_sp.simps) simp
next
  case (Suc n)
  then have k: "k < length t" by simp
  with Suc.hyps(1) [of "Suc k"] Suc.hyps(2) show ?case
    by (subst trim_sp.simps) (simp add: byte_at_view Cons_nth_drop_Suc [symmetric] algebra_simps)
qed

lemma trim_ep_view:
  assumes "k \<le> length t"
  shows "trim_ep cset (map Some t @ m) 0 (int k - 1) =
    Some (int (k - length (takeWhile (strchr_in cset) (rev (take k t)))) - 1)"
  using assms
proof (induction k)
  case 0
  then show ?case by (subst trim_ep.simps) simp
next
  case (Suc k)
  then show ?case
    by (subst trim_ep.simps) (auto simp: byte_at_view take_Suc_conv_app_nth)
qed

lemma strip_take_drop:
  fixes P :: "char \<Rightarrow> bool" and t :: string
  defines "a \<equiv> length (takeWhile P t)" and "b \<equiv> length t - length (takeWhile P (rev t))"
  shows "strip P t = take (b - a) (drop a t)" and "a = length t \<or> a < b"
proof -
  show ab: "a = length t \<or> a < b"
  proof (cases "\<forall>c \<in> set t. P c")
    case True
    then show ?thesis by (simp add: a_def takeWhile_eq_all_conv [THEN iffD2])
  next
    case False
    then obtain u c v where t: "t = u @ c # v" "\<forall>x \<in> set u. P x" "\<not> P c"
      using split_list_first_prop [of t "\<lambda>c. \<not> P c"] by auto
    have "takeWhile P t = u" using t by (simp add: takeWhile_append2)
    moreover have "length (takeWhile P (rev t)) \<le> length v"
    proof (cases "\<forall>x \<in> set v. P x")
      case True
      then show ?thesis using t takeWhile_append2 [of "rev v" P "c # rev u"] by simp
    next
      case False
      then have "takeWhile P (rev t) = takeWhile P (rev v)"
        using t by (auto simp: takeWhile_append1)
      then show ?thesis by (metis length_rev length_takeWhile_le)
    qed
    ultimately show ?thesis using t by (simp add: a_def b_def)
  qed
  have drop_a: "dropWhile P t = drop a t" by (simp add: a_def dropWhile_eq_drop)
  show "strip P t = take (b - a) (drop a t)"
  proof (cases "a = length t")
    case True
    then have e: "dropWhile P t = []" using drop_a by (simp only: drop_all order_refl)
    show ?thesis unfolding strip_def e using True by simp
  next
    case False
    with ab have lt: "a < b" by simp
    let ?n = "length (takeWhile P (rev t))"
    have n: "?n \<le> length t - a" using lt by (simp add: b_def)
    have "takeWhile P (rev (drop a t)) = takeWhile P (rev t)"
    proof -
      have "rev t = rev (drop a t) @ rev (take a t)" by (metis append_take_drop_id rev_append)
      moreover have "\<not> (\<forall>x \<in> set (rev (drop a t)). P x)"
        using False drop_a by (metis length_takeWhile_le a_def dropWhile_eq_Nil_conv drop_eq_Nil
            le_antisym set_rev hd_in_set hd_dropWhile drop_all)
      ultimately show ?thesis by (metis takeWhile_append1)
    qed
    then have "strip P t = rev (drop ?n (rev (drop a t)))"
      unfolding strip_def drop_a by (simp add: dropWhile_eq_drop)
    also have "\<dots> = take (length t - a - ?n) (drop a t)"
      by (metis length_drop length_rev rev_drop rev_rev_ident)
    also have "length t - a - ?n = b - a" by (simp add: b_def)
    finally show ?thesis .
  qed
qed

text \<open>Moving a slice of the content to the front and terminating it there.\<close>

lemma move_slice:
  assumes "buf = map Some t @ Some NUL # rest" and "a + n \<le> length t"
  shows "\<exists>rest'. ((if a \<noteq> 0 then guard (a + n \<le> length buf) \<bind> (\<lambda>_. poke 0 (take n (drop a buf)) buf)
        else Some buf) \<bind> poke n [Some NUL]) =
      Some (map Some (take n (drop a t)) @ Some NUL # rest') \<and> n + 1 + length rest' = length buf"
proof -
  let ?t' = "take n (drop a t)"
  have src: "take n (drop a buf) = map Some ?t'" using assms by (simp add: take_map drop_map)
  have len: "length ?t' = n" using assms(2) by simp
  then have fits: "length ?t' < length buf" using assms by simp
  obtain rest' where p: "(poke 0 (map Some ?t') buf \<bind> poke n [Some NUL]) =
      Some (map Some ?t' @ Some NUL # rest')" "n + 1 + length rest' = length buf"
    using poke_terminated [of "[]" ?t' buf] fits len by auto
  show ?thesis
  proof (cases "a = 0")
    case True
    have "poke 0 (map Some ?t') buf = Some buf"
      using src True len fits by (simp add: poke_def) (metis append_take_drop_id)
    with p True show ?thesis by auto
  next
    case False
    then show ?thesis using p src assms by auto
  qed
qed

lemma sdstrim_ok:
  assumes "sds_ok s"
  shows "\<exists>s'. sdstrim s cset = Some s' \<and> sds_ok s' \<and>
    content s' = strip (strchr_in cset) (content s)"
  using assms
proof (rule sds_okE)
  fix t rest
  assume v: "s = \<lparr>sds_len = int (length t), sds_free = int (length rest),
      sds_buf = map Some t @ Some NUL # rest\<rparr>" "content s = t" "length t + length rest < 2 ^ 63"
  let ?P = "strchr_in cset"
  define a where "a = length (takeWhile ?P t)"
  define b where "b = length t - length (takeWhile ?P (rev t))"
  define t' where "t' = take (b - a) (drop a t)"
  have t': "strip ?P t = t'" and ab: "a = length t \<or> a < b"
    using strip_take_drop [of ?P t] by (simp_all add: t'_def a_def b_def)
  have bnd: "a \<le> length t" "b \<le> length t" by (auto simp: a_def b_def length_takeWhile_le)
  have len: "length t' = b - a" using bnd by (simp add: t'_def)
  have sp: "trim_sp cset (sds_buf s) 0 (int (sdslen s) - 1) = Some (int a)"
    using trim_sp_view [of 0 t cset] v by (simp add: sdslen_def a_def)
  have ep: "trim_ep cset (sds_buf s) 0 (int (sdslen s) - 1) = Some (int b - 1)"
    using trim_ep_view [of "length t" t cset] v by (simp add: sdslen_def b_def)
  have buf: "sds_buf s = map Some t @ Some NUL # rest" using v(1) by simp
  have le: "a + (b - a) \<le> length t" using ab bnd by auto
  have n: "(if int a > int b - 1 then 0 else nat (int b - 1 - int a + 1)) = b - a"
    using ab by auto
  obtain rest' where p: "((if a \<noteq> 0 then guard (a + (b - a) \<le> length (sds_buf s)) \<bind>
        (\<lambda>_. poke 0 (take (b - a) (drop a (sds_buf s))) (sds_buf s))
        else Some (sds_buf s)) \<bind> poke (b - a) [Some NUL]) =
      Some (map Some t' @ Some NUL # rest')" "b - a + 1 + length rest' = length (sds_buf s)"
    using move_slice [OF buf le] unfolding t'_def by blast
  have "sdstrim s cset = Some \<lparr>sds_len = int (length t'), sds_free = int (length rest'),
      sds_buf = map Some t' @ Some NUL # rest'\<rparr>"
    using p v(1) n len unfolding sdstrim_def Let_def sp ep
    by (auto simp: bind_eq_Some_conv)
  then show ?thesis using v(2) t' by (simp only:) (rule sds_result, use p v bnd len in auto)
qed

section \<open>Ranges\<close>

text \<open>
  A negative index counts from the end. A start at or beyond the end is moved back to the last
  byte, so a range that lies wholly outside the content yields its last byte.
\<close>

definition norm_index :: "int \<Rightarrow> int \<Rightarrow> int" where
  "norm_index len i = (if i < 0 then max 0 (len + i) else i)"

definition range_spec :: "string \<Rightarrow> int \<Rightarrow> int \<Rightarrow> string" where
  "range_spec t start e =
     (let len = int (length t); a = norm_index len start; b = norm_index len e in
      if t = [] \<or> a > b then [] else if a \<ge> len then [last t]
      else take (nat (b - a + 1)) (drop (nat a) t))"

lemma sdsrange_ok:
  assumes "sds_ok s"
  shows "\<exists>s'. sdsrange s start e = Some s' \<and> sds_ok s' \<and> content s' = range_spec (content s) start e"
  using assms
proof (rule sds_okE)
  fix t rest
  assume v: "s = \<lparr>sds_len = int (length t), sds_free = int (length rest),
      sds_buf = map Some t @ Some NUL # rest\<rparr>" "content s = t" "length t + length rest < 2 ^ 63"
  let ?len = "int (length t)"
  define a where "a = norm_index ?len start"
  define b where "b = norm_index ?len e"
  define a' where "a' = (if a > b then 0 else if a \<ge> ?len then ?len - 1 else a)"
  define n where "n = (if a > b then 0 else min b (?len - 1) - a' + 1)"
  show ?thesis
  proof (cases "t = []")
    case True
    then show ?thesis using v assms by (simp add: sdsrange_def sdslen_def range_spec_def)
  next
    case False
    have nn: "0 \<le> a" "0 \<le> b" by (auto simp: a_def b_def norm_index_def)
    have bnd: "0 \<le> a'" "0 \<le> n" "a' + n \<le> ?len"
      using nn False by (auto simp: a'_def n_def min_def)
    then have bnd': "nat a' + nat n \<le> length t" by linarith
    define t' where "t' = take (nat n) (drop (nat a') t)"
    have len: "length t' = nat n" using bnd' by (simp add: t'_def)
    obtain rest' where p: "((if nat a' \<noteq> 0 then guard (nat a' + nat n \<le> length (sds_buf s)) \<bind>
          (\<lambda>_. poke 0 (take (nat n) (drop (nat a') (sds_buf s))) (sds_buf s))
          else Some (sds_buf s)) \<bind> poke (nat n) [Some NUL]) =
        Some (map Some t' @ Some NUL # rest')" "nat n + 1 + length rest' = length (sds_buf s)"
      using move_slice [of "sds_buf s" t rest "nat a'" "nat n"] v bnd' by (auto simp: t'_def)
    have z: "(nat a' \<noteq> 0) = (a' \<noteq> 0)" using bnd by auto
    have "sdsrange s start e =
      ((if a' \<noteq> 0 then guard (nat a' + nat n \<le> length (sds_buf s)) \<bind>
          (\<lambda>_. poke 0 (take (nat n) (drop (nat a') (sds_buf s))) (sds_buf s))
          else Some (sds_buf s)) \<bind> (\<lambda>buf. poke (nat n) [Some NUL] buf \<bind> (\<lambda>buf.
        Some (s\<lparr>sds_free := sds_free s + (sds_len s - n), sds_len := n, sds_buf := buf\<rparr>))))"
    proof -
      have A: "(if start < 0 then max 0 (?len + start) else start) = a"
        and B: "(if e < 0 then max 0 (?len + e) else e) = b"
        by (simp_all add: a_def b_def norm_index_def)
      have nl: "((if a > b then 0 else b - a + 1) \<noteq> 0) = (\<not> a > b)" by simp
      have A': "(if \<not> a > b then if a \<ge> ?len then ?len - 1 else a else 0) = a'"
        by (simp add: a'_def)
      have N: "(if \<not> a > b then if a' > (if \<not> a > b \<and> b \<ge> ?len then ?len - 1 else b) then 0
          else (if \<not> a > b \<and> b \<ge> ?len then ?len - 1 else b) - a' + 1 else 0) = n"
        using nn False by (auto simp: n_def a'_def min_def)
      have l: "sdslen s = length t" using v by (simp add: sdslen_def)
      show ?thesis unfolding sdsrange_def Let_def l A B nl A' N using False by simp
    qed
    also have "\<dots> = Some \<lparr>sds_len = int (length t'), sds_free = int (length rest'),
        sds_buf = map Some t' @ Some NUL # rest'\<rparr>"
      using p v(1) len bnd z by (auto simp: bind_eq_Some_conv)
    finally have "\<exists>s'. sdsrange s start e = Some s' \<and> sds_ok s' \<and> content s' = t'"
      by (rule sds_result) (use p v bnd' len in auto)
    moreover have "t' = range_spec t start e"
    proof (cases "a > b \<or> a < ?len")
      case True
      then show ?thesis using False nn
        by (auto simp: t'_def range_spec_def Let_def a_def [symmetric] b_def [symmetric]
            n_def a'_def min_def)
    next
      case out: False
      then have "nat a' = length t - 1" "nat n = 1"
        using False by (auto simp: a'_def n_def min_def nat_diff_distrib)
      then have "t' = [last t]" using False by (cases t rule: rev_cases) (auto simp: t'_def)
      then show ?thesis using out False
        by (simp add: range_spec_def Let_def a_def [symmetric] b_def [symmetric])
    qed
    ultimately show ?thesis using v(2) by simp
  qed
qed

text \<open>The way the client uses it: dropping a prefix of the query buffer.\<close>

lemma range_spec_drop: "0 < k \<Longrightarrow> k \<le> length t \<Longrightarrow> range_spec t (int k) (-1) = drop k t"
  by (auto simp: range_spec_def Let_def norm_index_def)

section \<open>Length update, comparison, case, formatted output\<close>

lemma strlen_mem_view: "strlen_mem (map Some t @ Some NUL # m) = Some (strlen t)"
  by (induction t) (auto simp: strlen_def cstr_def)

lemma sdsupdatelen_ok:
  assumes "sds_ok s" and "length (content s) < 2 ^ 31"
  shows "\<exists>s'. sdsupdatelen s = Some s' \<and> sds_ok s' \<and> content s' = cstr (content s)"
  using assms(1)
proof (rule sds_okE)
  fix t rest
  assume v: "s = \<lparr>sds_len = int (length t), sds_free = int (length rest),
      sds_buf = map Some t @ Some NUL # rest\<rparr>" "content s = t" "length t + length rest < 2 ^ 63"
  define n where "n = length (cstr t)"
  define tail where "tail = map Some (drop (Suc n) t @ [NUL]) @ rest"
  have small: "length t < 2 ^ 31" using assms(2) v(2) by simp
  have n: "n \<le> length t" by (simp add: n_def cstr_def length_takeWhile_le)
  then have ai: "as_int (int n) = int n" using small by (intro as_int_id) (simp_all add: c_limits)
  have split: "map Some t @ Some NUL # rest = map Some (cstr t) @ Some NUL #
      (if n = length t then rest else tail)"
  proof (cases "n = length t")
    case True
    then have "cstr t = t" by (metis cstr_def n_def length_takeWhile_le takeWhile_eq_take take_all_iff order_refl)
    then show ?thesis using True by simp
  next
    case False
    then have nl: "n < length t" using n by simp
    then have "t ! n = NUL" using nth_length_takeWhile [of "\<lambda>c. c \<noteq> NUL" t] by (simp add: n_def cstr_def)
    moreover have "cstr t = take n t" by (simp add: n_def cstr_def takeWhile_eq_take [symmetric])
    ultimately have "t = cstr t @ NUL # drop (Suc n) t" using id_take_nth_drop [OF nl] by simp
    then have "map Some t = map Some (cstr t) @ Some NUL # map Some (drop (Suc n) t)"
      by (metis list.simps(9) map_append)
    then show ?thesis using False by (simp add: tail_def)
  qed
  define rest' where "rest' = (if n = length t then rest else tail)"
  have len: "n + length rest' = length t + length rest" using n by (auto simp: rest'_def tail_def)
  have "sdsupdatelen s = Some \<lparr>sds_len = int (length (cstr t)), sds_free = int (length rest'),
      sds_buf = map Some (cstr t) @ Some NUL # rest'\<rparr>"
    using v(1) ai len split
    by (simp add: sdsupdatelen_def strlen_mem_view strlen_def n_def [symmetric] rest'_def [symmetric]
        Let_def)
  then have "\<exists>s'. sdsupdatelen s = Some s' \<and> sds_ok s' \<and> content s' = cstr t"
    by (rule sds_result) (use len v(3) in \<open>simp add: n_def\<close>)
  then show ?thesis using v(2) by simp
qed

lemma sdscmp_ok:
  assumes "sds_ok a" and "sds_ok b" and "length (content a) < 2 ^ 31" and "length (content b) < 2 ^ 31"
  shows "\<exists>r. sdscmp a b = Some r \<and> (r = 0 \<longleftrightarrow> content a = content b)"
proof -
  from assms(1) obtain t m where a: "a = \<lparr>sds_len = int (length t), sds_free = int (length m),
      sds_buf = map Some t @ Some NUL # m\<rparr>" "content a = t" by (rule sds_okE)
  from assms(2) obtain u k where b: "b = \<lparr>sds_len = int (length u), sds_free = int (length k),
      sds_buf = map Some u @ Some NUL # k\<rparr>" "content b = u" by (rule sds_okE)
  let ?n = "min (length t) (length u)"
  have len: "sdslen a = length t" "sdslen b = length u" using assms a b by (simp_all add: sdslen_ok)
  have ai: "as_int (int (length t) - int (length u)) = int (length t) - int (length u)"
    using assms(3,4) a(2) b(2) by (intro as_int_id) (simp_all add: c_limits)
  have bufs: "sds_buf a = map Some t @ Some NUL # m" "sds_buf b = map Some u @ Some NUL # k"
    using a b by simp_all
  have r: "sdscmp a b = Some (if memcmp (take ?n t) (take ?n u) = 0
      then int (length t) - int (length u) else memcmp (take ?n t) (take ?n u))"
    by (simp add: sdscmp_def Let_def len ai bufs peek_view)
  have "(memcmp (take ?n t) (take ?n u) = 0) = (take ?n t = take ?n u)"
    by (intro memcmp_eq_0) simp
  then show ?thesis using r a(2) b(2) by (auto simp: min_def split: if_splits)
qed

lemma sds_map_bytes_ok:
  assumes "sds_ok s"
  shows "\<exists>s'. sds_map_bytes f s = Some s' \<and> sds_ok s' \<and> content s' = map f (content s)"
  using assms
proof (rule sds_okE)
  fix t rest
  assume v: "s = \<lparr>sds_len = int (length t), sds_free = int (length rest),
      sds_buf = map Some t @ Some NUL # rest\<rparr>" "content s = t" "length t + length rest < 2 ^ 63"
  have "sds_map_bytes f s = Some \<lparr>sds_len = int (length (map f t)), sds_free = int (length rest),
      sds_buf = map Some (map f t) @ Some NUL # rest\<rparr>"
    using v by (simp add: sds_map_bytes_def sdslen_def peek_view poke_def)
  then have "\<exists>s'. sds_map_bytes f s = Some s' \<and> sds_ok s' \<and> content s' = map f t"
    by (rule sds_result) (use v in simp)
  then show ?thesis using v(2) by simp
qed

lemma printf_buf_32: "printf_buf out 32 = out"
  by (subst printf_buf.simps) (auto simp: printf_buf.simps [of _ "Suc _"])

lemma sdscatprintf_ok:
  assumes "sds_ok s" and "NUL \<notin> set out" and "(length (content s) + length out) * 2 < 2 ^ 63"
  shows "\<exists>s'. sdscatprintf s out = Some s' \<and> sds_ok s' \<and> content s' = content s @ out"
proof -
  have c: "cstr (out @ [NUL]) = out" using assms(2) by (rule cstr_snoc)
  then have "strlen (out @ [NUL]) = length out" by (simp add: strlen_def)
  with sdscat_ok [of s "out @ [NUL]"] assms(1,3) c show ?thesis
    by (simp add: sdscatprintf_def printf_buf_32)
qed

section \<open>Splitting\<close>

text \<open>Reference: the fields between the occurrences of one separator byte.\<close>

fun fields :: "char \<Rightarrow> string \<Rightarrow> string list" where
  "fields c [] = [[]]"
| "fields c (x # xs) =
     (if x = c then [] # fields c xs
      else (case fields c xs of [] \<Rightarrow> [[x]] | t # ts \<Rightarrow> (x # t) # ts))"

lemma fields_nonempty [simp]: "fields c s \<noteq> []"
  by (induction s) (auto split: list.splits)

lemma fields_no_sep: "c \<notin> set s \<Longrightarrow> fields c s = [s]"
  by (induction s) auto

lemma fields_app: "c \<notin> set u \<Longrightarrow> fields c (u @ c # s) = u # fields c s"
  by (induction u) auto

lemma fields_parts: "t \<in> set (fields c s) \<Longrightarrow> c \<notin> set t \<and> set t \<subseteq> set s"
proof (induction s arbitrary: t)
  case Nil
  then show ?case by simp
next
  case (Cons x xs)
  then show ?case by (fastforce split: if_splits list.splits)
qed

lemma c_int_ok [simp]: "0 \<le> x \<Longrightarrow> x < 2 ^ 31 \<Longrightarrow> c_int x = Some x"
  by (simp add: c_int_def c_limits)

text \<open>
  The scan with a one-byte separator: from any cursor whose current token holds no separator,
  the remaining tokens are the fields of the rest. The capacity never falls behind, and below \<open>2 ^ 30\<close>
  bytes nothing overflows.
\<close>

lemma split_step:
  assumes "j < length s" and "length s < 2 ^ 30" and "length toks \<le> j" and "int (length toks) < slots"
    and "slots1 = (if slots < int (length toks) + 2 then slots * 2 else slots)" and "5 \<le> slots"
  shows "split_loop s (int (length s)) [c] 1 (int j) (int start) slots toks =
    (if s ! j = c
     then (case sdsnewlen (Some (drop start s)) (j - start) of None \<Rightarrow> None
           | Some t \<Rightarrow> split_loop s (int (length s)) [c] 1 (int (Suc j)) (int (Suc j)) slots1 (toks @ [t]))
     else split_loop s (int (length s)) [c] 1 (int (Suc j)) (int start) slots1 toks)"
    and "int (length toks) + 1 < slots1" and "5 \<le> slots1"
proof -
  show 1: "int (length toks) + 1 < slots1" "5 \<le> slots1" using assms(4-6) by auto
  have hit: "(1 = (1::int) \<and> s ! nat (int j) = [c] ! 0 \<or> memcmp (take (nat 1) (drop (nat (int j)) s)) (take (nat 1) [c]) = 0) = (s ! j = c)"
    using assms(1) by (auto simp: Cons_nth_drop_Suc [symmetric] of_char_eq_iff)
  have slot: "(if slots < int (length toks) + 2 then c_int (slots * 2) else Some slots) = Some slots1"
    using assms(1-6) by auto
  have n: "c_int (int (length toks) + 2) = Some (int (length toks) + 2)" "c_int (int j + 1) = Some (int (Suc j))"
    "c_int (int j + 1 - 1) = Some (int j)"
    using assms(1-3) by simp_all
  show "split_loop s (int (length s)) [c] 1 (int j) (int start) slots toks =
    (if s ! j = c
     then (case sdsnewlen (Some (drop start s)) (j - start) of None \<Rightarrow> None
           | Some t \<Rightarrow> split_loop s (int (length s)) [c] 1 (int (Suc j)) (int (Suc j)) slots1 (toks @ [t]))
     else split_loop s (int (length s)) [c] 1 (int (Suc j)) (int start) slots1 toks)"
    unfolding split_loop.simps [of s "int (length s)" "[c]" 1 "int j" "int start" slots toks] hit n
    using assms(1) slot n 1 by (simp add: nat_diff_distrib' split: option.splits)
qed

lemma split_loop_fields:
  assumes "start \<le> j" and "j \<le> length s" and "c \<notin> set (take (j - start) (drop start s))"
    and "length s < 2 ^ 30" and "int (length toks) < slots" and "5 \<le> slots" and "length toks \<le> j"
  shows "\<exists>start' slots' toks'. split_loop s (int (length s)) [c] 1 (int j) (int start) slots toks =
      Some (int start', slots', toks @ toks') \<and> start' \<le> length s \<and> int (length (toks @ toks')) < slots' \<and>
      (\<forall>t \<in> set toks'. sds_ok t) \<and>
      map content toks' @ [drop start' s] = fields c (drop start s)"
  using assms
proof (induction "length s - j" arbitrary: j start slots toks)
  case 0
  then have "j = length s" by simp
  with "0.prems" show ?case
    by (subst split_loop.simps) (auto simp: fields_no_sep)
next
  case (Suc n)
  then have j: "j < length s" by simp
  define slots1 where "slots1 = (if slots < int (length toks) + 2 then slots * 2 else slots)"
  note step = split_step(1) [OF j Suc.prems(4,7,5) slots1_def Suc.prems(6), of c start]
  note s1 = split_step(2,3) [OF j Suc.prems(4,7,5) slots1_def Suc.prems(6)]
  let ?u = "take (j - start) (drop start s)"
  have u: "length ?u = j - start" using j by simp
  have dj: "drop start s = ?u @ s ! j # drop (Suc j) s"
  proof -
    have "drop start s = ?u @ drop (j - start) (drop start s)"
      by (rule append_take_drop_id [symmetric])
    also have "drop (j - start) (drop start s) = drop j s" using Suc.prems(1) by simp
    finally show ?thesis by (simp only: Cons_nth_drop_Suc [OF j])
  qed
  show ?case
  proof (cases "s ! j = c")
    case True
    have big: "length s < 2 ^ 63" using Suc.prems(4) by simp
    obtain t where t: "sdsnewlen (Some (drop start s)) (j - start) = Some t" "sds_ok t" "content t = ?u"
      using sdsnewlen_ok [of "j - start" "drop start s"] diff_le_mono [OF less_imp_le [OF j], of start]
        le_less_trans [OF diff_le_self less_trans [OF j big]] by auto
    have fs: "fields c (drop start s) = ?u # fields c (drop (Suc j) s)"
      using fields_app [OF Suc.prems(3)] dj True by metis
    have "n = length s - Suc j" using Suc.hyps(2) by simp
    from Suc.hyps(1) [OF this, of "Suc j" "toks @ [t]" slots1] obtain start' slots' toks' where
      "split_loop s (int (length s)) [c] 1 (int (Suc j)) (int (Suc j)) slots1 (toks @ [t]) =
        Some (int start', slots', (toks @ [t]) @ toks')" "start' \<le> length s"
      "int (length ((toks @ [t]) @ toks')) < slots'" "\<forall>t \<in> set toks'. sds_ok t"
      "map content toks' @ [drop start' s] = fields c (drop (Suc j) s)"
      using j s1 Suc.prems(4,7) by auto
    then show ?thesis using step True t fs
      by (intro exI [of _ start'] exI [of _ slots'] exI [of _ "t # toks'"]) auto
  next
    case False
    have nosep: "c \<notin> set (take (Suc j - start) (drop start s))"
    proof -
      have "take (Suc j - start) (drop start s) = ?u @ [s ! j]"
        using dj u Suc.prems(1) by (metis Suc_diff_le append_Cons append_Nil append_assoc
            append_eq_conv_conj length_append_singleton)
      then show ?thesis using Suc.prems(3) False by simp
    qed
    have "n = length s - Suc j" using Suc.hyps(2) by simp
    from Suc.hyps(1) [OF this, of start toks slots1] show ?thesis
      using step False j s1 nosep Suc.prems by auto
  qed
qed

theorem sdssplitlen_fields:
  assumes "length s < 2 ^ 30"
  shows "\<exists>toks. sdssplitlen s (int (length s)) [c] 1 = Some (Some toks) \<and>
    (\<forall>t \<in> set toks. sds_ok t) \<and> map content toks = fields c s"
proof -
  from split_loop_fields [of 0 0 s c "[]" 5] assms obtain start slots toks where
    l: "split_loop s (int (length s)) [c] 1 0 0 5 [] = Some (int start, slots, toks)" "start \<le> length s"
    "int (length toks) < slots" "\<forall>t \<in> set toks. sds_ok t" "map content toks @ [drop start s] = fields c s"
    by auto
  have "length s < 2 ^ 63" using assms by simp
  then obtain t where t: "sdsnewlen (Some (drop start s)) (length s - start) = Some t" "sds_ok t"
    "content t = drop start s"
    using sdsnewlen_ok [of "length s - start" "drop start s"] l(2)
      le_less_trans [OF diff_le_self, of "length s"] by auto
  have "nat (int (length s) - int start) = length s - start" by simp
  then have "sdssplitlen s (int (length s)) [c] 1 = Some (Some (toks @ [t]))"
    using l t assms by (simp add: sdssplitlen_def)
  then show ?thesis using l t by auto
qed

end
