(* ===== verification/Dict.thy ===== *)
theory Dict
  imports Libc
begin

text \<open>
  The chained hash table of \<open>data_struct/dict.c\<close>. A chain is the list of its entries from the
  bucket pointer on; NULL is the empty list. Sizes, counters and hashes are 32-bit words. The
  function pointers of a \<open>DictType\<close> are fields of a record; the two destructors act on a state of
  their own. An index outside the bucket array, an allocation whose byte count does not fit the
  \<open>int\<close> parameter of \<open>_DictAlloc\<close> and a failed assert are undefined.
\<close>

section \<open>Types\<close>

record ('k, 'v, 's) DictType =
  hashFunction :: "'k \<Rightarrow> u32"
  keyDup :: "('k \<Rightarrow> 'k) option"
  valDup :: "('v \<Rightarrow> 'v) option"
  keyCompare :: "('k \<Rightarrow> 'k \<Rightarrow> bool) option"
  keyDestructor :: "('k \<Rightarrow> 's \<Rightarrow> 's option) option"
  valDestructor :: "('v \<Rightarrow> 's \<Rightarrow> 's option) option"

type_synonym ('k, 'v) chain = "('k \<times> 'v) list"

record ('k, 'v) Dict =
  d_table :: "('k, 'v) chain list"
  d_size :: u32
  d_mask :: u32
  d_used :: u32

text \<open>An entry pointer of an iterator is the rest of its chain from that entry on.\<close>

record ('k, 'v) DictIterator =
  i_index :: int
  i_entry :: "('k, 'v) chain"
  i_next :: "('k, 'v) chain"

definition DICT_OK :: int where "DICT_OK = 0"
definition DICT_ERR :: int where "DICT_ERR = 1"
definition DICT_HT_INITIAL_SIZE :: u32 where "DICT_HT_INITIAL_SIZE = 16"

lemma dict_codes [simp]: "DICT_OK \<noteq> DICT_ERR" "DICT_ERR \<noteq> DICT_OK"
  by (simp_all add: DICT_OK_def DICT_ERR_def)

section \<open>Wrappers of the type's functions\<close>

definition DictFreeEntryVal :: "('k, 'v, 's) DictType \<Rightarrow> 'v \<Rightarrow> 's \<Rightarrow> 's option" where
  "DictFreeEntryVal ty v s = (case valDestructor ty of None \<Rightarrow> Some s | Some f \<Rightarrow> f v s)"

definition DictSetHashVal :: "('k, 'v, 's) DictType \<Rightarrow> 'v \<Rightarrow> 'v" where
  "DictSetHashVal ty v = (case valDup ty of None \<Rightarrow> v | Some f \<Rightarrow> f v)"

definition DictFreeEntryKey :: "('k, 'v, 's) DictType \<Rightarrow> 'k \<Rightarrow> 's \<Rightarrow> 's option" where
  "DictFreeEntryKey ty k s = (case keyDestructor ty of None \<Rightarrow> Some s | Some f \<Rightarrow> f k s)"

definition DictSetHashKey :: "('k, 'v, 's) DictType \<Rightarrow> 'k \<Rightarrow> 'k" where
  "DictSetHashKey ty k = (case keyDup ty of None \<Rightarrow> k | Some f \<Rightarrow> f k)"

definition DictCompareHashKeys :: "('k, 'v, 's) DictType \<Rightarrow> 'k \<Rightarrow> 'k \<Rightarrow> bool" where
  "DictCompareHashKeys ty k1 k2 = (case keyCompare ty of None \<Rightarrow> k1 = k2 | Some f \<Rightarrow> f k1 k2)"

definition DictHashKey :: "('k, 'v, 's) DictType \<Rightarrow> 'k \<Rightarrow> u32" where
  "DictHashKey ty k = hashFunction ty k"

section \<open>Hash functions\<close>

definition DictIntHashFunction :: "u32 \<Rightarrow> u32" where
  "DictIntHashFunction key =
     (let key = key + NOT (push_bit 15 key);
          key = key XOR drop_bit 10 key;
          key = key + push_bit 3 key;
          key = key XOR drop_bit 6 key;
          key = key + NOT (push_bit 11 key)
      in key XOR drop_bit 16 key)"

definition DictIdentityHashFunction :: "u32 \<Rightarrow> u32" where
  "DictIdentityHashFunction key = key"

fun gen_hash_loop :: "u32 \<Rightarrow> string \<Rightarrow> nat \<Rightarrow> u32 option" where
  "gen_hash_loop hash buf 0 = Some hash"
| "gen_hash_loop hash [] (Suc len) = None"
| "gen_hash_loop hash (c # buf) (Suc len) =
     gen_hash_loop ((push_bit 5 hash + hash) + of_nat (of_char c)) buf len"

definition DictGenHashFunction :: "string \<Rightarrow> nat \<Rightarrow> u32 option" where
  "DictGenHashFunction buf len = gen_hash_loop 5381 buf len"

section \<open>Creating and growing\<close>

definition DictReset :: "('k, 'v) Dict" where
  "DictReset = \<lparr>d_table = [], d_size = 0, d_mask = 0, d_used = 0\<rparr>"

definition DictCreate :: "('k, 'v) Dict" where
  "DictCreate = DictReset"

text \<open>The loop doubles \<open>i\<close>, which may wrap to 0; \<^term>\<open>None\<close> would be a loop that never ends.\<close>

partial_function (option) next_power_loop :: "u32 \<Rightarrow> u32 \<Rightarrow> u32 option" where
  "next_power_loop sz i = (if i \<ge> sz then Some i else next_power_loop sz (i * 2))"

definition DictNextPower :: "u32 \<Rightarrow> u32 option" where
  "DictNextPower sz =
     (if sz \<ge> 0x80000000 then Some 0x80000000 else next_power_loop sz DICT_HT_INITIAL_SIZE)"

text \<open>
  \<open>_DictAlloc(real_size * sizeof(DictEntry*))\<close> and the \<open>memset\<close> of the same number of bytes: the
  parameter of \<open>_DictAlloc\<close> is an \<open>int\<close>.
\<close>

definition alloc_table :: "u32 \<Rightarrow> ('k, 'v) chain list option" where
  "alloc_table n = (if as_int (8 * uint n) = 8 * uint n then Some (replicate (unat n) []) else None)"

fun rehash_chain ::
  "('k, 'v, 's) DictType \<Rightarrow> u32 \<Rightarrow> ('k, 'v) chain \<Rightarrow> ('k, 'v) chain list \<times> u32 \<Rightarrow>
   (('k, 'v) chain list \<times> u32) option"
where
  "rehash_chain ty msk [] st = Some st"
| "rehash_chain ty msk ((k, v) # he) (tbl, used) =
     (let h = unat (DictHashKey ty k AND msk) in
      case nth_opt tbl h of None \<Rightarrow> None
      | Some old \<Rightarrow> rehash_chain ty msk he (tbl[h := (k, v) # old], used - 1))"

fun rehash_slots ::
  "('k, 'v, 's) DictType \<Rightarrow> u32 \<Rightarrow> ('k, 'v) chain list \<Rightarrow> nat list \<Rightarrow> ('k, 'v) chain list \<times> u32 \<Rightarrow>
   (('k, 'v) chain list \<times> u32) option"
where
  "rehash_slots ty msk old [] st = Some st"
| "rehash_slots ty msk old (i # is) st =
     (if snd st = 0 then Some st
      else do { c \<leftarrow> nth_opt old i;
                st \<leftarrow> rehash_chain ty msk c st;
                rehash_slots ty msk old is st })"

definition DictExpand ::
  "('k, 'v, 's) DictType \<Rightarrow> u32 \<Rightarrow> ('k, 'v) Dict \<Rightarrow> (int \<times> ('k, 'v) Dict) option"
where
  "DictExpand ty sz d =
     do { real_size \<leftarrow> DictNextPower sz;
          if d_used d > sz then Some (DICT_ERR, d)
          else do { tbl \<leftarrow> alloc_table real_size;
                    (tbl, left) \<leftarrow> rehash_slots ty (real_size - 1) (d_table d) [0..<unat (d_size d)]
                                    (tbl, d_used d);
                    guard (left = 0);
                    Some (DICT_OK, \<lparr>d_table = tbl, d_size = real_size, d_mask = real_size - 1,
                                    d_used = d_used d\<rparr>) } }"

definition DictExpandIfNeeded ::
  "('k, 'v, 's) DictType \<Rightarrow> ('k, 'v) Dict \<Rightarrow> (int \<times> ('k, 'v) Dict) option"
where
  "DictExpandIfNeeded ty d =
     (if d_size d = 0 then DictExpand ty DICT_HT_INITIAL_SIZE d
      else if d_used d = d_size d then DictExpand ty (d_size d * 2) d
      else Some (DICT_OK, d))"

definition DictResize :: "('k, 'v, 's) DictType \<Rightarrow> ('k, 'v) Dict \<Rightarrow> (int \<times> ('k, 'v) Dict) option" where
  "DictResize ty d =
     (let minimal = (if d_used d < DICT_HT_INITIAL_SIZE then DICT_HT_INITIAL_SIZE else d_used d)
      in DictExpand ty minimal d)"

section \<open>Finding, adding, replacing\<close>

definition DictKeyIndex ::
  "('k, 'v, 's) DictType \<Rightarrow> 'k \<Rightarrow> ('k, 'v) Dict \<Rightarrow> (int \<times> ('k, 'v) Dict) option"
where
  "DictKeyIndex ty key d =
     do { (r, d) \<leftarrow> DictExpandIfNeeded ty d;
          if r = DICT_ERR then Some (-1, d)
          else do { let h = DictHashKey ty key AND d_mask d;
                    he \<leftarrow> nth_opt (d_table d) (unat h);
                    if \<exists>(k, v) \<in> set he. DictCompareHashKeys ty key k then Some (-1, d)
                    else Some (as_int (uint h), d) } }"

definition DictAdd ::
  "('k, 'v, 's) DictType \<Rightarrow> 'k \<Rightarrow> 'v \<Rightarrow> ('k, 'v) Dict \<Rightarrow> (int \<times> ('k, 'v) Dict) option"
where
  "DictAdd ty key val d =
     do { (index, d) \<leftarrow> DictKeyIndex ty key d;
          if index = -1 then Some (DICT_ERR, d)
          else do { guard (0 \<le> index);
                    he \<leftarrow> nth_opt (d_table d) (nat index);
                    Some (DICT_OK,
                      d\<lparr>d_table := (d_table d)[nat index := (DictSetHashKey ty key, DictSetHashVal ty val) # he],
                        d_used := d_used d + 1\<rparr>) } }"

definition DictFind ::
  "('k, 'v, 's) DictType \<Rightarrow> 'k \<Rightarrow> ('k, 'v) Dict \<Rightarrow> ('k \<times> 'v) option option"
where
  "DictFind ty key d =
     (if d_used d = 0 then Some None
      else do { he \<leftarrow> nth_opt (d_table d) (unat (DictHashKey ty key AND d_mask d));
                Some (find (\<lambda>(k, v). DictCompareHashKeys ty key k) he) })"

text \<open>Storing through the pointer \<open>DictFind\<close> returned changes the value of that entry in its chain.\<close>

definition DictReplace ::
  "('k, 'v, 's) DictType \<Rightarrow> 'k \<Rightarrow> 'v \<Rightarrow> ('k, 'v) Dict \<Rightarrow> 's \<Rightarrow> (int \<times> ('k, 'v) Dict \<times> 's) option"
where
  "DictReplace ty key val d s =
     do { (r, d) \<leftarrow> DictAdd ty key val d;
          if r = DICT_OK then Some (DICT_OK, d, s)
          else do { entry \<leftarrow> DictFind ty key d;
                    (k, old) \<leftarrow> entry;
                    s \<leftarrow> DictFreeEntryVal ty old s;
                    let h = unat (DictHashKey ty key AND d_mask d);
                    he \<leftarrow> nth_opt (d_table d) h;
                    Some (DICT_OK,
                      d\<lparr>d_table := (d_table d)[h := upd_first (\<lambda>(k, v). DictCompareHashKeys ty key k)
                                                    (\<lambda>(k, v). (k, DictSetHashVal ty val)) he]\<rparr>, s) } }"

section \<open>Deleting\<close>

definition DictGenericDelete ::
  "('k, 'v, 's) DictType \<Rightarrow> 'k \<Rightarrow> bool \<Rightarrow> ('k, 'v) Dict \<Rightarrow> 's \<Rightarrow> (int \<times> ('k, 'v) Dict \<times> 's) option"
where
  "DictGenericDelete ty key no_free d s =
     (if d_used d = 0 then Some (DICT_ERR, d, s)
      else do { let h = unat (DictHashKey ty key AND d_mask d);
                he \<leftarrow> nth_opt (d_table d) h;
                case find (\<lambda>(k, v). DictCompareHashKeys ty key k) he of
                  None \<Rightarrow> Some (DICT_ERR, d, s)
                | Some (k, v) \<Rightarrow>
                    do { s \<leftarrow> (if no_free then Some s
                                else DictFreeEntryKey ty k s \<bind> DictFreeEntryVal ty v);
                         Some (DICT_OK,
                           d\<lparr>d_table := (d_table d)[h := remove_first (\<lambda>(k, v). DictCompareHashKeys ty key k) he],
                             d_used := d_used d - 1\<rparr>, s) } })"

definition DictDelete ::
  "('k, 'v, 's) DictType \<Rightarrow> 'k \<Rightarrow> ('k, 'v) Dict \<Rightarrow> 's \<Rightarrow> (int \<times> ('k, 'v) Dict \<times> 's) option" where
  "DictDelete ty key d s = DictGenericDelete ty key False d s"

definition DictDeleteNoFree ::
  "('k, 'v, 's) DictType \<Rightarrow> 'k \<Rightarrow> ('k, 'v) Dict \<Rightarrow> 's \<Rightarrow> (int \<times> ('k, 'v) Dict \<times> 's) option" where
  "DictDeleteNoFree ty key d s = DictGenericDelete ty key True d s"

fun clear_chain ::
  "('k, 'v, 's) DictType \<Rightarrow> ('k, 'v) chain \<Rightarrow> u32 \<times> 's \<Rightarrow> (u32 \<times> 's) option"
where
  "clear_chain ty [] st = Some st"
| "clear_chain ty ((k, v) # he) (used, s) =
     do { s \<leftarrow> DictFreeEntryKey ty k s;
          s \<leftarrow> DictFreeEntryVal ty v s;
          clear_chain ty he (used - 1, s) }"

fun clear_slots ::
  "('k, 'v, 's) DictType \<Rightarrow> ('k, 'v) chain list \<Rightarrow> nat list \<Rightarrow> u32 \<times> 's \<Rightarrow> (u32 \<times> 's) option"
where
  "clear_slots ty tbl [] st = Some st"
| "clear_slots ty tbl (i # is) st =
     (if fst st = 0 then Some st
      else do { c \<leftarrow> nth_opt tbl i;
                st \<leftarrow> clear_chain ty c st;
                clear_slots ty tbl is st })"

definition DictClear :: "('k, 'v, 's) DictType \<Rightarrow> ('k, 'v) Dict \<Rightarrow> 's \<Rightarrow> (('k, 'v) Dict \<times> 's) option" where
  "DictClear ty d s =
     do { (used, s) \<leftarrow> clear_slots ty (d_table d) [0..<unat (d_size d)] (d_used d, s);
          Some (DictReset, s) }"

definition DictRelease :: "('k, 'v, 's) DictType \<Rightarrow> ('k, 'v) Dict \<Rightarrow> 's \<Rightarrow> 's option" where
  "DictRelease ty d s = map_option snd (DictClear ty d s)"

definition DictEmpty :: "('k, 'v, 's) DictType \<Rightarrow> ('k, 'v) Dict \<Rightarrow> 's \<Rightarrow> (('k, 'v) Dict \<times> 's) option" where
  "DictEmpty ty d s = DictClear ty d s"

section \<open>Iterating, random entries\<close>

definition DictGetIterator :: "('k, 'v) DictIterator" where
  "DictGetIterator = \<lparr>i_index = -1, i_entry = [], i_next = []\<rparr>"

function DictNext ::
  "('k, 'v) Dict \<Rightarrow> ('k, 'v) DictIterator \<Rightarrow> (('k \<times> 'v) option \<times> ('k, 'v) DictIterator) option"
where
  "DictNext d it =
     (let it1 = (if i_entry it = [] then it\<lparr>i_index := i_index it + 1\<rparr> else it) in
      if i_entry it = [] \<and> i_index it1 \<ge> as_int (uint (d_size d)) then Some (None, it1)
      else if i_entry it = [] \<and> i_index it1 < 0 then None
      else case (if i_entry it = [] then nth_opt (d_table d) (nat (i_index it1)) else Some (i_next it)) of
             None \<Rightarrow> None
           | Some [] \<Rightarrow> DictNext d (it1\<lparr>i_entry := []\<rparr>)
           | Some (e # he) \<Rightarrow> Some (Some e, it1\<lparr>i_entry := e # he, i_next := he\<rparr>))"
  by pat_completeness auto
termination
  by (relation "measure (\<lambda>(d, it). 2 * nat (as_int (uint (d_size d)) - i_index it) +
                  (if i_entry it = [] then 0 else 1))") (auto split: if_splits)

declare DictNext.simps [simp del]

text \<open>
  The user's loop \<open>while ((de = DictNext(di)) != NULL)\<close> collects the entries it is given.
\<close>

partial_function (option) iterate_from ::
  "('k, 'v) Dict \<Rightarrow> ('k, 'v) DictIterator \<Rightarrow> ('k \<times> 'v) list option"
where
  "iterate_from d it =
     do { (r, it) \<leftarrow> DictNext d it;
          case r of None \<Rightarrow> Some []
          | Some e \<Rightarrow> do { es \<leftarrow> iterate_from d it; Some (e # es) } }"

definition dict_iterate :: "('k, 'v) Dict \<Rightarrow> ('k \<times> 'v) list option" where
  "dict_iterate d = iterate_from d DictGetIterator"

text \<open>
  \<open>rnd\<close> are the results of the successive calls of \<open>random()\<close>; the search for a non-empty slot ends
  when one of them hits one.
\<close>

partial_function (option) random_slot ::
  "('k, 'v) Dict \<Rightarrow> (nat \<Rightarrow> u32) \<Rightarrow> nat \<Rightarrow> (nat \<times> ('k, 'v) chain) option"
where
  "random_slot d rnd i =
     do { he \<leftarrow> nth_opt (d_table d) (unat (rnd i AND d_mask d));
          if he = [] then random_slot d rnd (Suc i) else Some (Suc i, he) }"

definition DictGetRandomKey :: "(nat \<Rightarrow> u32) \<Rightarrow> ('k, 'v) Dict \<Rightarrow> ('k \<times> 'v) option option" where
  "DictGetRandomKey rnd d =
     (if d_used d = 0 then Some None
      else do { (i, he) \<leftarrow> random_slot d rnd 0;
                Some (Some (he ! (unat (rnd i) mod length he))) })"

section \<open>String keys\<close>

text \<open>The three table types of the library: C strings as keys, with or without copies.\<close>

definition string_hash :: "string \<Rightarrow> u32" where
  "string_hash key = the (DictGenHashFunction (cstr key) (strlen key))"

text \<open>Copying a C string: its bytes, without the terminator that the copy gets.\<close>

definition DictStringCopyHTKeyDup :: "string \<Rightarrow> string" where
  "DictStringCopyHTKeyDup key = take (strlen key) key"

definition DictStringCopyHTValDup :: "string \<Rightarrow> string" where
  "DictStringCopyHTValDup v = take (strlen v) v"

definition DictStringCopyHTKeyCompare :: "string \<Rightarrow> string \<Rightarrow> bool" where
  "DictStringCopyHTKeyCompare key1 key2 = strcmp_eq key1 key2"

text \<open>The destructors give memory back that the model does not track.\<close>

definition DictStringCopyHTKeyDestructor :: "string \<Rightarrow> 's \<Rightarrow> 's option" where
  "DictStringCopyHTKeyDestructor key s = Some s"

definition DictStringCopyHTValDestructor :: "string \<Rightarrow> 's \<Rightarrow> 's option" where
  "DictStringCopyHTValDestructor v s = Some s"

definition DictTypeHeapStringCopyKey :: "(string, 'v, 's) DictType" where
  "DictTypeHeapStringCopyKey = \<lparr>hashFunction = string_hash, keyDup = Some DictStringCopyHTKeyDup, valDup = None,
     keyCompare = Some DictStringCopyHTKeyCompare, keyDestructor = Some DictStringCopyHTKeyDestructor,
     valDestructor = None\<rparr>"

definition DictTypeHeapStrings :: "(string, 'v, 's) DictType" where
  "DictTypeHeapStrings = \<lparr>hashFunction = string_hash, keyDup = None, valDup = None,
     keyCompare = Some DictStringCopyHTKeyCompare, keyDestructor = None, valDestructor = None\<rparr>"

definition DictTypeHeapStringCopyKeyValue :: "(string, string, 's) DictType" where
  "DictTypeHeapStringCopyKeyValue = \<lparr>hashFunction = string_hash, keyDup = Some DictStringCopyHTKeyDup,
     valDup = Some DictStringCopyHTValDup, keyCompare = Some DictStringCopyHTKeyCompare,
     keyDestructor = Some DictStringCopyHTKeyDestructor, valDestructor = Some DictStringCopyHTValDestructor\<rparr>"

section \<open>The invariant\<close>

definition entries :: "('k, 'v) Dict \<Rightarrow> ('k \<times> 'v) list" where
  "entries d = concat (d_table d)"

text \<open>Every entry sits in the slot its hash selects, in a table of \<open>2 ^ n\<close> slots.\<close>

definition placed :: "('k, 'v, 's) DictType \<Rightarrow> nat \<Rightarrow> ('k, 'v) chain list \<Rightarrow> bool" where
  "placed ty n tbl \<longleftrightarrow> length tbl = 2 ^ n \<and>
     (\<forall>i < 2 ^ n. \<forall>e \<in> set (tbl ! i). unat (DictHashKey ty (fst e)) mod 2 ^ n = i)"

text \<open>
  \<open>canon\<close> maps a key to what it denotes: two keys are the same key when it agrees on them. A table
  is either empty and unallocated or has between \<open>2 ^ 4\<close> and \<open>2 ^ 27\<close> slots, at most as many
  entries as slots, all of them placed, no key twice, and \<open>used\<close> counts them. (With \<open>2 ^ 28\<close> slots the
  byte count of the slot array leaves the range of \<open>int\<close>.)
\<close>

definition dict_ok :: "('k, 'v, 's) DictType \<Rightarrow> ('k \<Rightarrow> 'c) \<Rightarrow> ('k, 'v) Dict \<Rightarrow> bool" where
  "dict_ok ty canon d \<longleftrightarrow> unat (d_used d) = length (entries d) \<and>
     distinct (map (canon \<circ> fst) (entries d)) \<and>
     (d = DictReset \<or> (\<exists>n. 4 \<le> n \<and> n \<le> 27 \<and> d_size d = 2 ^ n \<and> d_mask d = 2 ^ n - 1 \<and>
        placed ty n (d_table d) \<and> d_used d \<le> d_size d))"

text \<open>The map a table represents.\<close>

definition dict_map :: "('k \<Rightarrow> 'c) \<Rightarrow> ('k, 'v) Dict \<Rightarrow> 'c \<rightharpoonup> 'v" where
  "dict_map canon d = map_of (map (\<lambda>(k, v). (canon k, v)) (entries d))"

lemma entries_reset [simp]: "entries DictReset = []"
  by (simp add: entries_def DictReset_def)

lemma dict_ok_reset [simp]: "dict_ok ty canon DictReset"
  by (simp add: dict_ok_def) (simp add: DictReset_def)

lemma dict_map_reset [simp]: "dict_map canon DictReset = Map.empty"
  by (simp add: dict_map_def)

lemma placed_replicate: "placed ty n (replicate (2 ^ n) [])"
  by (simp add: placed_def)

lemma placed_update:
  assumes "placed ty n tbl" and "i < 2 ^ n" and "\<forall>e \<in> set c. unat (DictHashKey ty (fst e)) mod 2 ^ n = i"
  shows "placed ty n (tbl[i := c])"
  using assms by (auto simp: placed_def nth_list_update)

lemma dict_map_Some:
  assumes "distinct (map (canon \<circ> fst) (entries d))"
  shows "dict_map canon d c = Some v \<longleftrightarrow> (\<exists>k. (k, v) \<in> set (entries d) \<and> canon k = c)"
proof -
  have "distinct (map fst (map (\<lambda>(k, v). (canon k, v)) (entries d)))"
    using assms by (simp add: comp_def case_prod_beta)
  from map_of_eq_Some_iff [OF this] show ?thesis by (auto simp: dict_map_def)
qed

lemma dom_dict_map: "dom (dict_map canon d) = (canon \<circ> fst) ` set (entries d)"
  by (force simp: dict_map_def dom_map_of_conv_image_fst)

lemma dict_map_perm:
  assumes "mset (entries d) = mset (entries d')" and "distinct (map (canon \<circ> fst) (entries d))"
  shows "dict_map canon d = dict_map canon d'"
  unfolding dict_map_def
proof (rule map_of_perm)
  show "mset (map (\<lambda>(k, v). (canon k, v)) (entries d)) = mset (map (\<lambda>(k, v). (canon k, v)) (entries d'))"
    using assms(1) by simp
  show "distinct (map fst (map (\<lambda>(k, v). (canon k, v)) (entries d)))"
    using assms(2) by (simp add: comp_def case_prod_beta)
qed

lemma distinct_perm: "mset xs = mset ys \<Longrightarrow> distinct (map f xs) \<longleftrightarrow> distinct (map f ys)"
  using mset_eq_imp_distinct_iff [of "map f xs" "map f ys"] by simp

section \<open>Growing keeps the entries\<close>

lemma next_power_loop_ok:
  assumes "n \<le> 31" and "unat sz \<le> 2 ^ 31"
  shows "\<exists>m. n \<le> m \<and> m \<le> 31 \<and> next_power_loop sz (2 ^ n) = Some (2 ^ m) \<and> unat sz \<le> 2 ^ m \<and>
    (m = n \<or> 2 ^ (m - 1) < unat sz)"
  using assms
proof (induction "31 - n" arbitrary: n)
  case 0
  then have "n = 31" by simp
  moreover have "(2 ^ 31 :: u32) \<ge> sz"
    using 0 unat_power_u32 [of 31] by (simp add: word_le_nat_alt)
  ultimately have "next_power_loop sz (2 ^ n) = Some (2 ^ 31)"
    by (subst next_power_loop.simps) simp
  with 0 \<open>n = 31\<close> show ?case by (intro exI [of _ 31]) simp
next
  case (Suc k)
  have n: "n < 31" using Suc.hyps(2) by simp
  show ?case
  proof (cases "(2 ^ n :: u32) \<ge> sz")
    case True
    then have "unat sz \<le> 2 ^ n" using unat_power_u32 [of n] n by (simp add: word_le_nat_alt)
    with True n show ?thesis by (subst next_power_loop.simps) auto
  next
    case False
    then have lt: "2 ^ n < unat sz" using unat_power_u32 [of n] n by (simp add: word_le_nat_alt not_le)
    have "k = 31 - Suc n" using Suc.hyps(2) by simp
    from Suc.hyps(1) [OF this] n Suc.prems(2) obtain m where m: "Suc n \<le> m" "m \<le> 31"
      "next_power_loop sz (2 ^ Suc n) = Some (2 ^ m)" "unat sz \<le> 2 ^ m"
      "m = Suc n \<or> 2 ^ (m - 1) < unat sz" by auto
    have "next_power_loop sz (2 ^ n) = next_power_loop sz (2 ^ Suc n)"
      using False by (subst next_power_loop.simps) (simp add: mult.commute)
    with m lt show ?thesis by (intro exI [of _ m]) auto
  qed
qed

lemma DictNextPower_ok:
  "\<exists>m. 4 \<le> m \<and> m \<le> 31 \<and> DictNextPower sz = Some (2 ^ m) \<and>
    (unat sz \<le> 2 ^ 31 \<longrightarrow> unat sz \<le> 2 ^ m) \<and> (m = 4 \<or> 2 ^ (m - 1) < unat sz)"
proof (cases "sz \<ge> 0x80000000")
  case True
  then have "2 ^ 31 \<le> unat sz" by (simp add: word_le_nat_alt)
  with True show ?thesis by (intro exI [of _ 31]) (simp add: DictNextPower_def)
next
  case False
  then have "unat sz \<le> 2 ^ 31" by (simp add: word_le_nat_alt)
  with next_power_loop_ok [of 4 sz] False show ?thesis
    by (auto simp: DictNextPower_def DICT_HT_INITIAL_SIZE_def)
qed

lemma alloc_table_ok:
  assumes "m \<le> 27"
  shows "alloc_table (2 ^ m) = Some (replicate (2 ^ m) [])"
proof -
  have u: "unat (2 ^ m :: u32) = 2 ^ m" using assms by (intro unat_power_u32) simp
  have "(2 :: int) ^ m \<le> 2 ^ 27" using assms by (intro power_increasing) simp_all
  moreover have "uint (2 ^ m :: u32) = 2 ^ m" using u by (metis of_nat_numeral of_nat_power uint_nat)
  moreover have "(0 :: int) \<le> 2 ^ m" by simp
  ultimately have "INT_MIN \<le> 8 * uint (2 ^ m :: u32)" "8 * uint (2 ^ m :: u32) \<le> INT_MAX"
    by (auto simp: c_limits intro: order_trans [of _ 0])
  then have "as_int (8 * uint (2 ^ m :: u32)) = 8 * uint (2 ^ m :: u32)" by (rule as_int_id)
  then show ?thesis using u by (simp add: alloc_table_def)
qed

lemma rehash_chain_ok:
  assumes "placed ty n tbl" and "n < 32"
  shows "\<exists>tbl'. rehash_chain ty (2 ^ n - 1) c (tbl, used) = Some (tbl', used - of_nat (length c)) \<and>
    placed ty n tbl' \<and> mset (concat tbl') = mset (concat tbl) + mset c"
  using assms(1)
proof (induction c arbitrary: tbl used)
  case Nil
  then show ?case by simp
next
  case (Cons e c)
  obtain k v where e: "e = (k, v)" by (cases e)
  let ?h = "unat (DictHashKey ty k) mod 2 ^ n"
  have h: "?h < 2 ^ n" by simp
  then have hl: "?h < length tbl" using Cons.prems by (simp add: placed_def)
  let ?tbl = "tbl[?h := (k, v) # tbl ! ?h]"
  have "placed ty n ?tbl"
    using Cons.prems h by (intro placed_update) (auto simp: placed_def)
  from Cons.IH [OF this, of "used - 1"] obtain tbl' where
    "rehash_chain ty (2 ^ n - 1) c (?tbl, used - 1) = Some (tbl', used - 1 - of_nat (length c))"
    "placed ty n tbl'" "mset (concat tbl') = mset (concat ?tbl) + mset c" by blast
  moreover have "mset (concat ?tbl) = add_mset (k, v) (mset (concat tbl))"
    using concat_update_perm [OF hl, of "(k, v) # tbl ! ?h"] by simp
  ultimately show ?case using hl assms(2) by (simp add: e and_mask_u32 Let_def algebra_simps)
qed

lemma rehash_slots_ok:
  assumes "placed ty n tbl" and "n < 32" and "\<forall>i \<in> set is. i < length old"
    and "length (concat (map ((!) old) is)) < 2 ^ 32"
  shows "\<exists>tbl'. rehash_slots ty (2 ^ n - 1) old is (tbl, of_nat (length (concat (map ((!) old) is)))) =
      Some (tbl', 0) \<and> placed ty n tbl' \<and>
      mset (concat tbl') = mset (concat tbl) + mset (concat (map ((!) old) is))"
  using assms(1,3,4)
proof (induction "is" arbitrary: tbl)
  case Nil
  then show ?case by simp
next
  case (Cons i "is")
  let ?rest = "concat (map ((!) old) is)"
  show ?case
  proof (cases "concat (map ((!) old) (i # is)) = []")
    case True
    then show ?thesis using Cons.prems by auto
  next
    case False
    then have nz: "(of_nat (length (concat (map ((!) old) (i # is)))) :: u32) \<noteq> 0"
      using Cons.prems(3) u32_eq_0_iff [OF Cons.prems(3)] by (metis length_0_conv)
    from rehash_chain_ok [OF Cons.prems(1) assms(2), of "old ! i"
        "of_nat (length (concat (map ((!) old) (i # is))))"] obtain tbl1 where
      t1: "rehash_chain ty (2 ^ n - 1) (old ! i) (tbl, of_nat (length (concat (map ((!) old) (i # is))))) =
        Some (tbl1, of_nat (length (concat (map ((!) old) (i # is)))) - of_nat (length (old ! i)))"
      "placed ty n tbl1" "mset (concat tbl1) = mset (concat tbl) + mset (old ! i)" by blast
    have cnt: "(of_nat (length (concat (map ((!) old) (i # is)))) - of_nat (length (old ! i)) :: u32) =
        of_nat (length ?rest)" by simp
    from Cons.IH [OF t1(2)] Cons.prems(2,3) obtain tbl' where
      "rehash_slots ty (2 ^ n - 1) old is (tbl1, of_nat (length ?rest)) = Some (tbl', 0)"
      "placed ty n tbl'" "mset (concat tbl') = mset (concat tbl1) + mset ?rest" by auto
    then show ?thesis using nz t1 cnt Cons.prems(2) by (intro exI [of _ tbl']) (simp add: add.assoc)
  qed
qed

lemma entries_by_index: "concat (map ((!) tbl) [0..<length tbl]) = concat tbl"
  by (simp add: map_nth)

lemma dict_ok_tableD:
  assumes "dict_ok ty canon d"
  shows "length (d_table d) = unat (d_size d)" and "unat (d_used d) = length (entries d)"
    and "distinct (map (canon \<circ> fst) (entries d))" and "unat (d_used d) \<le> 2 ^ 27"
    and "d_used d = of_nat (length (entries d))"
proof -
  show "unat (d_used d) = length (entries d)" "distinct (map (canon \<circ> fst) (entries d))"
    using assms by (auto simp: dict_ok_def)
  then show "d_used d = of_nat (length (entries d))" by (simp add: u32_of_unat)
  show "length (d_table d) = unat (d_size d)"
    using assms unat_power_u32 by (auto simp: dict_ok_def placed_def DictReset_def)
  consider "d = DictReset" | n where "n \<le> 27" "d_size d = 2 ^ n" "d_used d \<le> d_size d"
    using assms by (auto simp: dict_ok_def)
  then show "unat (d_used d) \<le> 2 ^ 27"
  proof cases
    case 1
    then show ?thesis by (simp add: DictReset_def)
  next
    case 2
    then have "unat (d_used d) \<le> 2 ^ n" using unat_power_u32 [of n] by (simp add: word_le_nat_alt)
    also have "\<dots> \<le> 2 ^ 27" using 2(1) by (intro power_increasing) simp_all
    finally show ?thesis .
  qed
qed

theorem DictExpand_ok:
  assumes ok: "dict_ok ty canon d" and fits: "unat (d_used d) \<le> unat sz" and small: "unat sz \<le> 2 ^ 27"
  shows "\<exists>d' m. DictExpand ty sz d = Some (DICT_OK, d') \<and> dict_ok ty canon d' \<and>
    mset (entries d') = mset (entries d) \<and> d_used d' = d_used d \<and> d_size d' = 2 ^ m \<and> 4 \<le> m \<and>
    m \<le> 27 \<and> unat sz \<le> 2 ^ m \<and> (m = 4 \<or> 2 ^ (m - 1) < unat sz)"
proof -
  from DictNextPower_ok [of sz] obtain m where m: "4 \<le> m" "m \<le> 31" "DictNextPower sz = Some (2 ^ m)"
    "unat sz \<le> 2 ^ 31 \<longrightarrow> unat sz \<le> 2 ^ m" "m = 4 \<or> 2 ^ (m - 1) < unat sz" by blast
  have m27: "m \<le> 27"
  proof (rule ccontr)
    assume "\<not> m \<le> 27"
    then have "(2 :: nat) ^ 27 \<le> 2 ^ (m - 1)" by (intro power_increasing) simp_all
    with m(5) small \<open>\<not> m \<le> 27\<close> show False by linarith
  qed
  have szm: "unat sz \<le> 2 ^ m" using m(4) small by simp
  note tab = dict_ok_tableD [OF ok]
  have ents: "concat (map ((!) (d_table d)) [0..<unat (d_size d)]) = entries d"
    using entries_by_index [of "d_table d"] tab(1) by (simp add: entries_def)
  have "length (entries d) < 2 ^ 32" using tab(2) u32_bound [of "d_used d"] by simp
  with rehash_slots_ok [OF placed_replicate [of ty m], of "[0..<unat (d_size d)]" "d_table d"] m(2) tab(1)
  obtain tbl where tbl: "rehash_slots ty (2 ^ m - 1) (d_table d) [0..<unat (d_size d)]
      (replicate (2 ^ m) [], of_nat (length (entries d))) = Some (tbl, 0)"
    "placed ty m tbl" "mset (concat tbl) = mset (entries d)"
    unfolding ents by auto
  let ?d = "\<lparr>d_table = tbl, d_size = 2 ^ m, d_mask = 2 ^ m - 1, d_used = d_used d\<rparr>"
  have "DictExpand ty sz d = Some (DICT_OK, ?d)"
    using m(3) fits tbl(1) tab(5)
    by (simp add: DictExpand_def word_less_nat_alt not_less [symmetric] alloc_table_ok [OF m27])
  moreover have same: "mset (entries ?d) = mset (entries d)" using tbl(3) by (simp add: entries_def)
  moreover have "dict_ok ty canon ?d"
  proof -
    have "d_used d \<le> 2 ^ m"
      using fits szm unat_power_u32 [of m] m(2) by (simp add: word_le_nat_alt)
    moreover have "distinct (map (canon \<circ> fst) (entries ?d))"
      using tab(3) distinct_perm [OF same] by blast
    moreover have "length (entries ?d) = length (entries d)" using same by (metis size_mset)
    ultimately show ?thesis using tab(2) m(1) m27 tbl(2)
      by (auto simp: dict_ok_def simp del: map_map)
  qed
  ultimately show ?thesis using m(1,5) m27 szm by (intro exI [of _ ?d] exI [of _ m]) simp
qed

text \<open>Adding, removing and replacing one entry, on the map a table represents.\<close>

lemma dict_map_cons:
  assumes "mset (entries d') = add_mset (k, v) (mset (entries d))"
    and "distinct (map (canon \<circ> fst) (entries d'))"
  shows "dict_map canon d' = (dict_map canon d)(canon k \<mapsto> v)"
proof -
  let ?f = "\<lambda>(k, v). (canon k, v)"
  have "map_of (map ?f (entries d')) = map_of (map ?f ((k, v) # entries d))"
  proof (rule map_of_perm)
    show "mset (map ?f (entries d')) = mset (map ?f ((k, v) # entries d))" using assms(1) by simp
    show "distinct (map fst (map ?f (entries d')))"
      using assms(2) by (simp add: comp_def case_prod_beta)
  qed
  then show ?thesis by (simp add: dict_map_def)
qed

lemma dict_map_uncons:
  assumes "mset (entries d) = add_mset (k, v) (mset (entries d'))"
    and "distinct (map (canon \<circ> fst) (entries d))"
  shows "dict_map canon d' = (dict_map canon d)(canon k := None)"
proof -
  have "distinct (map (canon \<circ> fst) ((k, v) # entries d'))"
    using distinct_perm [THEN iffD1, OF _ assms(2), of "(k, v) # entries d'"] assms(1) by simp
  then have "canon k \<notin> dom (dict_map canon d')" by (auto simp: dom_dict_map)
  then have "dict_map canon d' (canon k) = None" by auto
  then show ?thesis using dict_map_cons [OF assms] by auto
qed

section \<open>The contract of a key type\<close>

text \<open>
  What the table asks of the functions of its type: comparison is equality of what the keys
  denote, equal keys hash alike, and a copy of a key denotes the same key. All theorems on lookup,
  insertion and removal are proved from these laws; each key type of the program interprets them.
\<close>

locale dict_type =
  fixes ty :: "('k, 'v, 's) DictType" and canon :: "'k \<Rightarrow> 'c"
  assumes compare_canon: "DictCompareHashKeys ty a b \<longleftrightarrow> canon a = canon b"
    and hash_canon: "canon a = canon b \<Longrightarrow> DictHashKey ty a = DictHashKey ty b"
    and dup_canon: "canon (DictSetHashKey ty k) = canon k"
begin

abbreviation ok :: "('k, 'v) Dict \<Rightarrow> bool" where "ok \<equiv> dict_ok ty canon"

abbreviation slot_of :: "nat \<Rightarrow> 'k \<Rightarrow> nat" where "slot_of n k \<equiv> unat (DictHashKey ty k) mod 2 ^ n"

lemma slot_canon: "canon a = canon b \<Longrightarrow> slot_of n a = slot_of n b"
  using hash_canon [of a b] by (simp only:)

lemma slot_index: "n \<le> 27 \<Longrightarrow> d_mask d = 2 ^ n - 1 \<Longrightarrow> unat (DictHashKey ty k AND d_mask d) = slot_of n k"
  by (simp add: and_mask_u32)

text \<open>The chain a key selects holds every entry for that key.\<close>

lemma in_chain_iff:
  assumes "placed ty n (d_table d)" and "canon k' = canon k"
  shows "(k', v) \<in> set (entries d) \<longleftrightarrow> (k', v) \<in> set (d_table d ! slot_of n k)"
proof -
  have len: "length (d_table d) = 2 ^ n"
    and pl: "\<And>i. i < 2 ^ n \<Longrightarrow> (k', v) \<in> set (d_table d ! i) \<Longrightarrow> slot_of n k' = i"
    using assms(1) by (fastforce simp: placed_def)+
  have lt: "slot_of n k < 2 ^ n" by simp
  show ?thesis unfolding entries_def set_concat_nth
    using pl len lt slot_canon [OF assms(2), of n] by metis
qed

lemma ok_cases:
  assumes "ok d"
  obtains "d = DictReset" | n where "4 \<le> n" "n \<le> 27" "d_size d = 2 ^ n" "d_mask d = 2 ^ n - 1"
    "placed ty n (d_table d)" "d_used d \<le> d_size d"
  using assms unfolding dict_ok_def by blast

lemma find_chain:
  assumes "ok d" and "placed ty n (d_table d)"
  shows "map_option snd (find (\<lambda>(k', v). DictCompareHashKeys ty k k') (d_table d ! slot_of n k)) =
      dict_map canon d (canon k)"
    and "find (\<lambda>(k', v). DictCompareHashKeys ty k k') (d_table d ! slot_of n k) = Some (k', v) \<Longrightarrow>
      (k', v) \<in> set (entries d) \<and> canon k' = canon k"
proof -
  let ?P = "\<lambda>(k', v). DictCompareHashKeys ty k k'"
  let ?c = "d_table d ! slot_of n k"
  show hit: "(k', v) \<in> set (entries d) \<and> canon k' = canon k" if "find ?P ?c = Some (k', v)" for k' v
  proof -
    from find_SomeD [OF that] have c: "(k', v) \<in> set ?c" "canon k' = canon k"
      by (auto simp: compare_canon)
    then show ?thesis using in_chain_iff [OF assms(2) c(2)] by blast
  qed
  have d: "distinct (map (canon \<circ> fst) (entries d))" using assms(1) by (rule dict_ok_tableD)
  show "map_option snd (find ?P ?c) = dict_map canon d (canon k)"
  proof (cases "find ?P ?c")
    case None
    then have "\<forall>(k', v) \<in> set ?c. canon k' \<noteq> canon k"
      by (auto simp: find_None_iff_all compare_canon)
    then have "\<And>k' v. (k', v) \<in> set (entries d) \<Longrightarrow> canon k' \<noteq> canon k"
      using in_chain_iff [OF assms(2)] by fast
    then have "dict_map canon d (canon k) = None"
      by (metis dict_map_Some [OF d] not_None_eq)
    with None show ?thesis by simp
  next
    case (Some e)
    then have "(fst e, snd e) \<in> set (entries d) \<and> canon (fst e) = canon k"
      using hit [of "fst e" "snd e"] by simp
    then have "dict_map canon d (canon k) = Some (snd e)" using dict_map_Some [OF d] by blast
    with Some show ?thesis by simp
  qed
qed

theorem DictFind_ok:
  assumes "ok d"
  shows "\<exists>r. DictFind ty k d = Some r \<and> map_option snd r = dict_map canon d (canon k) \<and>
    (\<forall>k' v. r = Some (k', v) \<longrightarrow> (k', v) \<in> set (entries d) \<and> canon k' = canon k)"
proof (cases "d_used d = 0")
  case True
  then have "entries d = []" using dict_ok_tableD(2) [OF assms] by simp
  then show ?thesis using True by (simp add: DictFind_def dict_map_def)
next
  case False
  from assms False obtain n where n: "n \<le> 27" "d_mask d = 2 ^ n - 1" "placed ty n (d_table d)"
    by (auto elim!: ok_cases simp: DictReset_def)
  have "slot_of n k < length (d_table d)" using n(3) by (simp add: placed_def)
  then show ?thesis
    using False find_chain [OF assms n(3), of k] slot_index [OF n(1,2), of k]
    by (auto simp: DictFind_def)
qed

text \<open>Growing before an insertion leaves room for one more entry.\<close>

lemma DictExpandIfNeeded_ok:
  assumes "ok d" and "unat (d_used d) < 2 ^ 27"
  shows "\<exists>d' n. DictExpandIfNeeded ty d = Some (DICT_OK, d') \<and> ok d' \<and>
    mset (entries d') = mset (entries d) \<and> d_used d' = d_used d \<and> 4 \<le> n \<and> n \<le> 27 \<and>
    d_size d' = 2 ^ n \<and> d_mask d' = 2 ^ n - 1 \<and> placed ty n (d_table d') \<and> d_used d' < d_size d'"
proof -
  have grown: ?thesis
    if e: "DictExpandIfNeeded ty d = DictExpand ty sz d" and
      sz: "unat (d_used d) < unat sz" "unat sz \<le> 2 ^ 27" for sz
  proof -
    from DictExpand_ok [OF assms(1) less_imp_le [OF sz(1)] sz(2)] obtain d' m where
      d': "DictExpand ty sz d = Some (DICT_OK, d')" "ok d'" "mset (entries d') = mset (entries d)"
      "d_used d' = d_used d" "d_size d' = 2 ^ m" "4 \<le> m" "m \<le> 27" "unat sz \<le> 2 ^ m" by blast
    have lt: "d_used d' < d_size d'"
      using d'(4,5,7,8) sz(1) unat_power_u32 [of m] by (simp add: word_less_nat_alt)
    then have "d' \<noteq> DictReset" by (auto simp: DictReset_def)
    then obtain n where n: "4 \<le> n" "n \<le> 27" "d_size d' = 2 ^ n" "d_mask d' = 2 ^ n - 1"
      "placed ty n (d_table d')" using d'(2) by (auto elim: ok_cases)
    show ?thesis using d' n lt e by (intro exI [of _ d'] exI [of _ n]) simp
  qed
  from assms(1) show ?thesis
  proof (cases rule: ok_cases)
    case 1
    then have "DictExpandIfNeeded ty d = DictExpand ty DICT_HT_INITIAL_SIZE d"
      by (simp add: DictExpandIfNeeded_def DictReset_def)
    then show ?thesis by (rule grown) (use 1 in \<open>simp_all add: DictReset_def DICT_HT_INITIAL_SIZE_def\<close>)
  next
    case (2 n)
    have pos: "d_size d \<noteq> 0"
    proof
      assume "d_size d = 0"
      with 2(3) have "unat ((2 :: u32) ^ n) = 0" by (metis unat_0)
      with unat_power_u32 [of n] 2(2) show False by simp
    qed
    show ?thesis
    proof (cases "d_used d = d_size d")
      case False
      with 2 pos assms(1) show ?thesis
        by (intro exI [of _ d] exI [of _ n]) (simp add: DictExpandIfNeeded_def)
    next
      case True
      then have "unat (d_used d) = 2 ^ n" using 2 unat_power_u32 [of n] by simp
      with assms(2) have "n < 27" by (metis power_less_imp_less_exp one_less_numeral_iff semiring_norm(76))
      then have dbl: "unat (d_size d * 2) = 2 ^ Suc n"
        using 2(3) unat_power_u32 [of "Suc n"] by (simp add: mult.commute)
      have "(2 :: nat) ^ Suc n \<le> 2 ^ 27" using \<open>n < 27\<close> by (intro power_increasing) simp_all
      moreover have "DictExpandIfNeeded ty d = DictExpand ty (d_size d * 2) d"
        using True pos by (simp add: DictExpandIfNeeded_def)
      ultimately show ?thesis
        using dbl \<open>unat (d_used d) = 2 ^ n\<close> by (intro grown [of "d_size d * 2"]) simp_all
    qed
  qed
qed

text \<open>The index of a free slot fits \<open>int\<close>, so it is never mistaken for the code \<open>-1\<close> of a present key.\<close>

lemma slot_as_int:
  assumes "n \<le> 27" and "d_mask d = 2 ^ n - 1"
  shows "as_int (uint (DictHashKey ty k AND d_mask d)) = int (slot_of n k)"
proof -
  have u: "uint (DictHashKey ty k AND d_mask d) = int (slot_of n k)"
    using slot_index [OF assms] by (metis uint_nat)
  have "slot_of n k < 2 ^ n" by simp
  also have "(2 :: nat) ^ n \<le> 2 ^ 27" using assms(1) by (intro power_increasing) simp_all
  finally have "int (slot_of n k) \<le> 2 ^ 27" by simp
  then show ?thesis unfolding u by (intro as_int_id) (simp_all add: c_limits)
qed

theorem DictAdd_ok:
  assumes "ok d" and "unat (d_used d) < 2 ^ 27"
  shows "\<exists>d' r. DictAdd ty k v d = Some (r, d') \<and> ok d' \<and>
    (if canon k \<in> dom (dict_map canon d)
     then r = DICT_ERR \<and> mset (entries d') = mset (entries d)
     else r = DICT_OK \<and>
       mset (entries d') = add_mset (DictSetHashKey ty k, DictSetHashVal ty v) (mset (entries d)))"
proof -
  from DictExpandIfNeeded_ok [OF assms] obtain d1 n where
    d1: "DictExpandIfNeeded ty d = Some (DICT_OK, d1)" "ok d1" "mset (entries d1) = mset (entries d)"
      "d_used d1 = d_used d" and
    n: "4 \<le> n" "n \<le> 27" "d_size d1 = 2 ^ n" "d_mask d1 = 2 ^ n - 1" "placed ty n (d_table d1)"
      "d_used d1 < d_size d1" by blast
  note idx = slot_index [OF n(2,4), of k]
  let ?i = "slot_of n k"
  let ?c = "d_table d1 ! ?i"
  have il: "?i < length (d_table d1)" using n(5) by (simp add: placed_def)
  have map1: "dict_map canon d1 = dict_map canon d"
    using dict_map_perm [OF d1(3)] dict_ok_tableD(3) [OF d1(2)] by blast
  have present: "(\<exists>(k', v) \<in> set ?c. DictCompareHashKeys ty k k') \<longleftrightarrow> canon k \<in> dom (dict_map canon d)"
  proof -
    have "(\<exists>(k', v) \<in> set ?c. DictCompareHashKeys ty k k') \<longleftrightarrow>
        find (\<lambda>(k', v). DictCompareHashKeys ty k k') ?c \<noteq> None"
      by (auto simp: find_None_iff_all)
    also have "\<dots> \<longleftrightarrow> dict_map canon d1 (canon k) \<noteq> None"
      using find_chain(1) [OF d1(2) n(5), of k] by (metis map_option_is_None)
    finally show ?thesis using map1 by (auto simp: dom_def)
  qed
  show ?thesis
  proof (cases "canon k \<in> dom (dict_map canon d)")
    case True
    then have "DictAdd ty k v d = Some (DICT_ERR, d1)"
      using present d1(1) il idx by (simp add: DictAdd_def DictKeyIndex_def)
    then show ?thesis using True d1 by simp
  next
    case False
    let ?e = "(DictSetHashKey ty k, DictSetHashVal ty v)"
    let ?d = "d1\<lparr>d_table := (d_table d1)[?i := ?e # ?c], d_used := d_used d1 + 1\<rparr>"
    have "DictAdd ty k v d = Some (DICT_OK, ?d)"
      using False present d1(1) il idx slot_as_int [OF n(2,4), of k]
      by (simp add: DictAdd_def DictKeyIndex_def)
    moreover have ms: "mset (entries ?d) = add_mset ?e (mset (entries d))"
      using concat_update_perm [OF il, of "?e # ?c"] d1(3) by (simp add: entries_def)
    moreover have "ok ?d"
    proof -
      have "unat (d_used d1 + 1) = Suc (unat (d_used d1))"
        using n(3,6) unat_power_u32 [of n] n(2) u32_bound [of "d_size d1"]
        by (subst unat_word_ariths) (simp add: word_less_nat_alt)
      moreover have "length (entries ?d) = Suc (length (entries d))"
        using ms by (metis size_add_mset size_mset)
      moreover have "distinct (map (canon \<circ> fst) (?e # entries d))"
        using False dict_ok_tableD(3) [OF assms(1)] by (auto simp: dom_dict_map dup_canon)
      then have "distinct (map (canon \<circ> fst) (entries ?d))"
        using distinct_perm [of "entries ?d" "?e # entries d" "canon \<circ> fst"] ms by simp
      moreover have "slot_of n (DictSetHashKey ty k) = ?i" by (rule slot_canon [OF dup_canon])
      then have "placed ty n (d_table ?d)"
        using n(5) by (auto simp: placed_def nth_list_update)
      moreover have "d_used d1 + 1 \<le> d_size d1"
        using n(6) calculation(1) by (simp add: word_le_nat_alt word_less_nat_alt)
      ultimately show ?thesis using n d1(4) dict_ok_tableD(2) [OF assms(1)]
        unfolding dict_ok_def by auto
    qed
    ultimately show ?thesis using False by (intro exI [of _ ?d] exI [of _ DICT_OK]) simp
  qed
qed

lemma chain_slots: "placed ty n tbl \<Longrightarrow> i < length tbl \<Longrightarrow> e \<in> set (tbl ! i) \<Longrightarrow> slot_of n (fst e) = i"
  by (simp add: placed_def)

text \<open>An operation that finds a key works on one entry of one chain.\<close>

lemma find_hit:
  assumes "ok d" and "dict_map canon d (canon k) = Some v"
  obtains n k' xs ys where "4 \<le> n" "n \<le> 27" "d_size d = 2 ^ n" "d_mask d = 2 ^ n - 1"
    "placed ty n (d_table d)" "d_used d \<le> d_size d" "d_used d \<noteq> 0"
    "d_table d ! slot_of n k = xs @ (k', v) # ys" "canon k' = canon k"
    "\<forall>e \<in> set xs. \<not> DictCompareHashKeys ty k (fst e)"
    "slot_of n k < length (d_table d)"
    "nth_opt (d_table d) (unat (DictHashKey ty k AND d_mask d)) = Some (xs @ (k', v) # ys)"
proof -
  have "d \<noteq> DictReset" using assms(2) by auto
  with assms(1) obtain n where n: "4 \<le> n" "n \<le> 27" "d_size d = 2 ^ n" "d_mask d = 2 ^ n - 1"
    "placed ty n (d_table d)" "d_used d \<le> d_size d" by (auto elim: ok_cases)
  let ?P = "\<lambda>(k', v). DictCompareHashKeys ty k k'"
  let ?c = "d_table d ! slot_of n k"
  from find_chain [OF assms(1) n(5), of k] assms(2) obtain k' where
    f: "find ?P ?c = Some (k', v)" "(k', v) \<in> set (entries d)" "canon k' = canon k" by auto
  from find_Some_split [OF f(1)] obtain xs ys where
    c: "?c = xs @ (k', v) # ys" "\<forall>e \<in> set xs. \<not> DictCompareHashKeys ty k (fst e)"
    by (force simp: case_prod_beta)
  have used: "d_used d \<noteq> 0" using f(2) dict_ok_tableD(2) [OF assms(1)] by auto
  have l: "slot_of n k < length (d_table d)" using n(5) by (simp add: placed_def)
  then have "nth_opt (d_table d) (unat (DictHashKey ty k AND d_mask d)) = Some ?c"
    using slot_index [OF n(2,4), of k] by simp
  then show thesis using n c f(3) used l that by simp
qed

text \<open>Rewriting the chain of a key keeps the table well formed when the entries fit their count.\<close>

lemma ok_chain_update:
  assumes "4 \<le> n" "n \<le> 27" "d_size d = 2 ^ n" "d_mask d = 2 ^ n - 1" "placed ty n (d_table d)"
    and "\<forall>e \<in> set c. slot_of n (fst e) = i" and "i < length (d_table d)"
    and "unat u = length (entries (d\<lparr>d_table := (d_table d)[i := c], d_used := u\<rparr>))"
    and "distinct (map (canon \<circ> fst) (entries (d\<lparr>d_table := (d_table d)[i := c], d_used := u\<rparr>)))"
    and "u \<le> d_size d"
  shows "ok (d\<lparr>d_table := (d_table d)[i := c], d_used := u\<rparr>)"
proof -
  have "placed ty n ((d_table d)[i := c])"
    using assms(5-7) by (intro placed_update) (simp_all add: placed_def)
  then show ?thesis using assms unfolding dict_ok_def by auto
qed

theorem DictReplace_ok:
  assumes "ok d" and "unat (d_used d) < 2 ^ 27"
  shows "case dict_map canon d (canon k) of
      None \<Rightarrow> \<exists>d'. DictReplace ty k v d s = Some (DICT_OK, d', s) \<and> ok d' \<and>
        mset (entries d') = add_mset (DictSetHashKey ty k, DictSetHashVal ty v) (mset (entries d))
    | Some old \<Rightarrow> \<exists>d' k' M. DictReplace ty k v d s =
          map_option (\<lambda>s. (DICT_OK, d', s)) (DictFreeEntryVal ty old s) \<and> ok d' \<and>
        canon k' = canon k \<and> mset (entries d) = add_mset (k', old) M \<and>
        mset (entries d') = add_mset (k', DictSetHashVal ty v) M"
proof -
  from DictAdd_ok [OF assms, of k v] obtain d1 r where d1: "DictAdd ty k v d = Some (r, d1)" "ok d1"
    "if canon k \<in> dom (dict_map canon d)
     then r = DICT_ERR \<and> mset (entries d1) = mset (entries d)
     else r = DICT_OK \<and>
       mset (entries d1) = add_mset (DictSetHashKey ty k, DictSetHashVal ty v) (mset (entries d))" by blast
  show ?thesis
  proof (cases "dict_map canon d (canon k)")
    case None
    then show ?thesis using d1 by (auto simp: DictReplace_def dom_def)
  next
    case (Some old)
    then have r: "r = DICT_ERR" and m: "mset (entries d1) = mset (entries d)"
      using d1(3) by (auto simp: dom_def)
    have map1: "dict_map canon d1 (canon k) = Some old"
      using dict_map_perm [OF m] dict_ok_tableD(3) [OF d1(2)] Some by metis
    obtain n k' xs ys where n: "4 \<le> n" "n \<le> 27" "d_size d1 = 2 ^ n" "d_mask d1 = 2 ^ n - 1"
        "placed ty n (d_table d1)" "d_used d1 \<le> d_size d1" "d_used d1 \<noteq> 0" and
      c: "d_table d1 ! slot_of n k = xs @ (k', old) # ys" "canon k' = canon k"
        "\<forall>e \<in> set xs. \<not> DictCompareHashKeys ty k (fst e)" and
      i: "slot_of n k < length (d_table d1)"
        "nth_opt (d_table d1) (unat (DictHashKey ty k AND d_mask d1)) = Some (xs @ (k', old) # ys)"
      using find_hit [OF d1(2) map1] by metis
    let ?P = "\<lambda>(k', v). DictCompareHashKeys ty k k'"
    let ?c = "xs @ (k', DictSetHashVal ty v) # ys"
    let ?d = "d1\<lparr>d_table := (d_table d1)[slot_of n k := ?c], d_used := d_used d1\<rparr>"
    have P: "?P (k', old)" using c(2) by (simp add: compare_canon)
    have "upd_first ?P (\<lambda>(k, w). (k, DictSetHashVal ty v)) (xs @ (k', old) # ys) = ?c"
      using c(3) P by (subst upd_first_split) auto
    moreover have "find ?P (xs @ (k', old) # ys) = Some (k', old)"
      using c(3) P by (intro find_split) auto
    ultimately have run: "DictReplace ty k v d s =
        map_option (\<lambda>s. (DICT_OK, ?d, s)) (DictFreeEntryVal ty old s)"
      using d1(1) r n(7) i slot_index [OF n(2,4), of k]
      by (simp add: DictReplace_def DictFind_def Let_def map_conv_bind_option comp_def)
    let ?M = "mset (entries d1) - {#(k', old)#}"
    have ent: "mset (entries d1) = add_mset (k', old) ?M"
      "mset (entries ?d) = add_mset (k', DictSetHashVal ty v) ?M"
      using concat_update_perm [OF i(1), of ?c] c(1) nth_concat_split [OF i(1)]
      by (auto simp: entries_def)
    have "length (entries ?d) = length (entries d1)"
      using ent by (metis size_add_mset size_mset)
    moreover have "mset (map (canon \<circ> fst) (entries ?d)) = mset (map (canon \<circ> fst) (entries d1))"
      using arg_cong [OF ent(1), of "image_mset (canon \<circ> fst)"]
        arg_cong [OF ent(2), of "image_mset (canon \<circ> fst)"] by simp
    then have "distinct (map (canon \<circ> fst) (entries ?d))"
      using mset_eq_imp_distinct_iff dict_ok_tableD(3) [OF d1(2)] by blast
    moreover have "\<forall>e \<in> set ?c. slot_of n (fst e) = slot_of n k"
      using chain_slots [OF n(5) i(1)] c(1) by force
    ultimately have "ok ?d"
      using n i(1) dict_ok_tableD(2) [OF d1(2)] by (intro ok_chain_update) auto
    then show ?thesis using Some run ent m c(2) by (auto intro!: exI [of _ ?d] exI [of _ k'] exI [of _ ?M])
  qed
qed

theorem DictGenericDelete_ok:
  assumes "ok d"
  shows "case dict_map canon d (canon k) of
      None \<Rightarrow> DictGenericDelete ty k no_free d s = Some (DICT_ERR, d, s)
    | Some v \<Rightarrow> \<exists>d' k'. DictGenericDelete ty k no_free d s =
          map_option (\<lambda>s. (DICT_OK, d', s))
            (if no_free then Some s else DictFreeEntryKey ty k' s \<bind> DictFreeEntryVal ty v) \<and>
        ok d' \<and> canon k' = canon k \<and> mset (entries d) = add_mset (k', v) (mset (entries d')) \<and>
        d_used d' = d_used d - 1"
proof (cases "dict_map canon d (canon k)")
  case None
  have "DictGenericDelete ty k no_free d s = Some (DICT_ERR, d, s)"
  proof (cases "d_used d = 0")
    case True
    then show ?thesis by (simp add: DictGenericDelete_def)
  next
    case False
    with DictFind_ok [OF assms, of k] None show ?thesis
      by (auto simp: DictGenericDelete_def DictFind_def Let_def split: bind_splits)
  qed
  then show ?thesis using None by simp
next
  case (Some v)
  obtain n k' xs ys where n: "4 \<le> n" "n \<le> 27" "d_size d = 2 ^ n" "d_mask d = 2 ^ n - 1"
      "placed ty n (d_table d)" "d_used d \<le> d_size d" "d_used d \<noteq> 0" and
    c: "d_table d ! slot_of n k = xs @ (k', v) # ys" "canon k' = canon k"
      "\<forall>e \<in> set xs. \<not> DictCompareHashKeys ty k (fst e)" and
    i: "slot_of n k < length (d_table d)"
      "nth_opt (d_table d) (unat (DictHashKey ty k AND d_mask d)) = Some (xs @ (k', v) # ys)"
    using find_hit [OF assms Some] by metis
  let ?P = "\<lambda>(k', v). DictCompareHashKeys ty k k'"
  let ?c = "xs @ ys"
  let ?d = "d\<lparr>d_table := (d_table d)[slot_of n k := ?c], d_used := d_used d - 1\<rparr>"
  have P: "?P (k', v)" using c(2) by (simp add: compare_canon)
  have "remove_first ?P (xs @ (k', v) # ys) = ?c"
    using c(3) P by (intro remove_first_split) auto
  moreover have "find ?P (xs @ (k', v) # ys) = Some (k', v)"
    using c(3) P by (intro find_split) auto
  ultimately have run: "DictGenericDelete ty k no_free d s =
      map_option (\<lambda>s. (DICT_OK, ?d, s))
        (if no_free then Some s else DictFreeEntryKey ty k' s \<bind> DictFreeEntryVal ty v)"
    using n(7) i slot_index [OF n(2,4), of k]
    by (simp add: DictGenericDelete_def Let_def map_conv_bind_option comp_def)
  have ent: "mset (entries d) = add_mset (k', v) (mset (entries ?d))"
    using concat_update_perm [OF i(1), of ?c] c(1) by (simp add: entries_def)
  have "unat (d_used d - 1) = unat (d_used d) - 1" using n(7) by (simp add: unat_minus_one)
  moreover have "length (entries d) = Suc (length (entries ?d))"
    using ent by (metis size_add_mset size_mset)
  moreover have "distinct (map (canon \<circ> fst) (entries ?d))"
    using distinct_perm [of "entries d" "(k', v) # entries ?d" "canon \<circ> fst"] ent
      dict_ok_tableD(3) [OF assms] by simp
  moreover have "\<forall>e \<in> set ?c. slot_of n (fst e) = slot_of n k"
    using chain_slots [OF n(5) i(1)] c(1) by force
  ultimately have "ok ?d"
    using n i(1) dict_ok_tableD(2) [OF assms] by (intro ok_chain_update) (auto simp: word_le_nat_alt)
  then show ?thesis using Some run ent c(2) by (auto intro!: exI [of _ ?d] exI [of _ k'])
qed

end

section \<open>Resizing, clearing, walking\<close>

theorem DictResize_ok:
  assumes "dict_ok ty canon d" and "unat (d_used d) \<le> 2 ^ 27"
  shows "\<exists>d' m. DictResize ty d = Some (DICT_OK, d') \<and> dict_ok ty canon d' \<and>
    mset (entries d') = mset (entries d) \<and> d_size d' = 2 ^ m \<and> d_used d' = d_used d \<and>
    (m = 4 \<or> 2 ^ (m - 1) < unat (d_used d))"
proof -
  let ?n = "if d_used d < DICT_HT_INITIAL_SIZE then DICT_HT_INITIAL_SIZE else d_used d"
  have "unat (d_used d) \<le> unat ?n" "unat ?n \<le> 2 ^ 27"
    using assms(2) by (auto simp: word_less_nat_alt DICT_HT_INITIAL_SIZE_def)
  from DictExpand_ok [OF assms(1) this] obtain d' m where
    d': "DictExpand ty ?n d = Some (DICT_OK, d')" "dict_ok ty canon d'"
    "mset (entries d') = mset (entries d)" "d_used d' = d_used d" "d_size d' = 2 ^ m"
    "m = 4 \<or> 2 ^ (m - 1) < unat ?n" "4 \<le> m" by blast
  have "m = 4 \<or> 2 ^ (m - 1) < unat (d_used d)"
  proof (cases "d_used d < DICT_HT_INITIAL_SIZE")
    case True
    have "m = 4"
    proof (rule ccontr)
      assume "m \<noteq> 4"
      with d'(7) have "(2 :: nat) ^ 4 \<le> 2 ^ (m - 1)" by (intro power_increasing) simp_all
      with d'(6) True \<open>m \<noteq> 4\<close> show False by (simp add: DICT_HT_INITIAL_SIZE_def)
    qed
    then show ?thesis by simp
  next
    case False
    then show ?thesis using d'(6) by simp
  qed
  then show ?thesis using d' by (auto simp: DictResize_def Let_def)
qed

definition free_entry :: "('k, 'v, 's) DictType \<Rightarrow> 'k \<times> 'v \<Rightarrow> 's \<Rightarrow> 's option" where
  "free_entry ty e s = DictFreeEntryKey ty (fst e) s \<bind> DictFreeEntryVal ty (snd e)"

lemma clear_chain_eq:
  "clear_chain ty c (u, s) = map_option (Pair (u - of_nat (length c))) (foldM (free_entry ty) c s)"
proof (induction c arbitrary: u s)
  case Nil
  then show ?case by simp
next
  case (Cons e c)
  obtain k v where e: "e = (k, v)" by (cases e)
  show ?case
    by (simp add: e free_entry_def Cons.IH algebra_simps split: bind_splits option.splits)
qed

lemma clear_slots_eq:
  assumes "\<forall>i \<in> set is. i < length tbl" and "length (concat (map ((!) tbl) is)) < 2 ^ 32"
  shows "clear_slots ty tbl is (of_nat (length (concat (map ((!) tbl) is))), s) =
    map_option (Pair 0) (foldM (free_entry ty) (concat (map ((!) tbl) is)) s)"
  using assms
proof (induction "is" arbitrary: s)
  case Nil
  then show ?case by simp
next
  case (Cons i "is")
  let ?rest = "concat (map ((!) tbl) is)"
  have lt: "length (tbl ! i) + length ?rest < 2 ^ 32" "length ?rest < 2 ^ 32" "i < length tbl"
    using Cons.prems by simp_all
  show ?case
  proof (cases "length (tbl ! i) + length ?rest = 0")
    case True
    then have "concat (map ((!) tbl) (i # is)) = []" by simp
    then show ?thesis unfolding \<open>concat (map ((!) tbl) (i # is)) = []\<close> by simp
  next
    case False
    have ne: "(of_nat (length (tbl ! i) + length ?rest) :: u32) \<noteq> 0"
      using False u32_eq_0_iff [OF lt(1)] by blast
    show ?thesis
      using ne Cons.IH lt Cons.prems(1)
      by (simp add: clear_chain_eq foldM_append split: option.splits bind_splits)
  qed
qed

theorem DictClear_ok:
  assumes "dict_ok ty canon d"
  shows "DictClear ty d s = map_option (Pair DictReset) (foldM (free_entry ty) (entries d) s)"
proof -
  note tab = dict_ok_tableD [OF assms]
  have ents: "concat (map ((!) (d_table d)) [0..<unat (d_size d)]) = entries d"
    using entries_by_index [of "d_table d"] tab(1) by (simp add: entries_def)
  have len: "length (entries d) < 2 ^ 32" using tab(2) u32_bound [of "d_used d"] by simp
  have used: "d_used d = of_nat (length (entries d))" by (rule u32_of_unat [OF tab(2)])
  show ?thesis
    using clear_slots_eq [of "[0..<unat (d_size d)]" "d_table d" ty s] tab(1) len
    unfolding ents used [symmetric]
    by (simp add: DictClear_def used split: option.splits bind_splits)
qed

lemma DictRelease_ok:
  assumes "dict_ok ty canon d"
  shows "DictRelease ty d s = foldM (free_entry ty) (entries d) s"
  by (simp add: DictRelease_def DictClear_ok [OF assms] option.map_comp comp_def option.map_ident)

text \<open>The iterator visits every entry once, slot by slot.\<close>

definition indexed :: "('k, 'v) Dict \<Rightarrow> bool" where
  "indexed d \<longleftrightarrow> length (d_table d) = unat (d_size d) \<and> unat (d_size d) < 2 ^ 31"

lemma indexed_size: "indexed d \<Longrightarrow> as_int (uint (d_size d)) = int (length (d_table d))"
proof -
  assume i: "indexed d"
  have u: "uint (d_size d) = int (length (d_table d))"
    using i unfolding indexed_def by (metis uint_nat)
  have "length (d_table d) < 2 ^ 31" using i by (simp add: indexed_def)
  then show ?thesis unfolding u by (intro as_int_id) (simp_all add: c_limits)
qed

lemma iterate_slot:
  assumes "indexed d"
    and "\<And>x. iterate_from d \<lparr>i_index = int j, i_entry = [], i_next = x\<rparr> = Some es"
  shows "iterate_from d \<lparr>i_index = int j, i_entry = e # he, i_next = he\<rparr> = Some (he @ es)"
proof (induction he arbitrary: e)
  case Nil
  let ?it = "\<lparr>i_index = int j, i_entry = [e], i_next = []\<rparr>"
  have "DictNext d ?it = DictNext d \<lparr>i_index = int j, i_entry = [], i_next = []\<rparr>"
    by (subst DictNext.simps) simp
  then have "iterate_from d ?it = iterate_from d \<lparr>i_index = int j, i_entry = [], i_next = []\<rparr>"
    by (simp only: iterate_from.simps [of d ?it]
        iterate_from.simps [of d "\<lparr>i_index = int j, i_entry = [], i_next = []\<rparr>"])
  then show ?case using assms(2) by simp
next
  case (Cons a he)
  show ?case
    by (subst iterate_from.simps, subst DictNext.simps) (simp add: Cons.IH)
qed

lemma iterate_from_slot:
  assumes "indexed d" and "j \<le> length (d_table d)"
  shows "iterate_from d \<lparr>i_index = int j - 1, i_entry = [], i_next = x\<rparr> =
    Some (concat (drop j (d_table d)))"
  using assms(2)
proof (induction "length (d_table d) - j" arbitrary: j x)
  case 0
  with 0 indexed_size [OF assms(1)] show ?case
    by (subst iterate_from.simps, subst DictNext.simps) simp
next
  case (Suc m)
  note sz = indexed_size [OF assms(1)]
  have lt: "j < length (d_table d)" using Suc.hyps(2) by simp
  have rest: "\<And>x. iterate_from d \<lparr>i_index = int j, i_entry = [], i_next = x\<rparr> =
      Some (concat (drop (Suc j) (d_table d)))"
    using Suc.hyps(1) [of "Suc j"] Suc.hyps(2) lt by simp
  have drop: "drop j (d_table d) = d_table d ! j # drop (Suc j) (d_table d)"
    using lt by (simp add: Cons_nth_drop_Suc)
  let ?it = "\<lparr>i_index = int j - 1, i_entry = [], i_next = x\<rparr>"
  show ?case
  proof (cases "d_table d ! j")
    case Nil
    have "DictNext d ?it = DictNext d \<lparr>i_index = int j, i_entry = [], i_next = x\<rparr>"
      using lt sz Nil by (subst DictNext.simps) simp
    then have "iterate_from d ?it = iterate_from d \<lparr>i_index = int j, i_entry = [], i_next = x\<rparr>"
      by (simp only: iterate_from.simps [of d ?it]
          iterate_from.simps [of d "\<lparr>i_index = int j, i_entry = [], i_next = x\<rparr>"])
    then show ?thesis using rest Nil drop by simp
  next
    case (Cons e he)
    have "DictNext d ?it = Some (Some e, \<lparr>i_index = int j, i_entry = e # he, i_next = he\<rparr>)"
      using lt sz Cons by (subst DictNext.simps) simp
    then show ?thesis using iterate_slot [OF assms(1) rest] Cons drop
      by (subst iterate_from.simps) simp
  qed
qed

lemma ok_indexed: "dict_ok ty canon d \<Longrightarrow> indexed d"
proof -
  assume ok: "dict_ok ty canon d"
  have "unat (d_size d) < 2 ^ 31"
  proof (cases "d = DictReset")
    case True
    then show ?thesis by (simp add: DictReset_def)
  next
    case False
    with ok obtain n where n: "n \<le> 27" "d_size d = 2 ^ n" unfolding dict_ok_def by blast
    have "unat (d_size d) = 2 ^ n" using n unat_power_u32 [of n] by simp
    also have "(2 :: nat) ^ n \<le> 2 ^ 27" using n(1) by (intro power_increasing) simp_all
    finally show ?thesis by simp
  qed
  then show ?thesis using dict_ok_tableD(1) [OF ok] by (simp add: indexed_def)
qed

theorem dict_iterate_ok: "dict_ok ty canon d \<Longrightarrow> dict_iterate d = Some (entries d)"
  using iterate_from_slot [OF ok_indexed, of ty canon d 0 "[]"]
  by (simp add: dict_iterate_def DictGetIterator_def entries_def)

section \<open>Random entries\<close>

lemma random_slot_hit:
  assumes "\<forall>j < n. d_table d ! unat (rnd (i + j) AND d_mask d) = []"
    and "d_table d ! unat (rnd (i + n) AND d_mask d) \<noteq> []"
    and "\<forall>j. unat (rnd j AND d_mask d) < length (d_table d)"
  shows "random_slot d rnd i = Some (Suc (i + n), d_table d ! unat (rnd (i + n) AND d_mask d))"
  using assms(1,2)
proof (induction n arbitrary: i)
  case 0
  then show ?case using assms(3) by (subst random_slot.simps) simp
next
  case (Suc n)
  have "d_table d ! unat (rnd i AND d_mask d) = []" using Suc.prems(1) [rule_format, of 0] by simp
  moreover have "random_slot d rnd (Suc i) =
      Some (Suc (Suc i + n), d_table d ! unat (rnd (Suc i + n) AND d_mask d))"
  proof (rule Suc.IH)
    show "\<forall>j < n. d_table d ! unat (rnd (Suc i + j) AND d_mask d) = []"
      using Suc.prems(1) by (metis Suc_mono add_Suc_shift)
    show "d_table d ! unat (rnd (Suc i + n) AND d_mask d) \<noteq> []" using Suc.prems(2) by simp
  qed
  ultimately show ?case using assms(3) by (subst random_slot.simps) simp
qed

theorem DictGetRandomKey_ok:
  assumes "dict_ok ty canon d" and "\<exists>i. d_table d ! unat (rnd i AND d_mask d) \<noteq> []" and "d_used d \<noteq> 0"
  shows "\<exists>e \<in> set (entries d). DictGetRandomKey rnd d = Some (Some e)"
proof -
  have "d \<noteq> DictReset" using assms(3) by (auto simp: DictReset_def)
  with assms(1) obtain n where n: "n \<le> 27" "d_mask d = 2 ^ n - 1" "placed ty n (d_table d)"
    unfolding dict_ok_def by blast
  have bound: "unat (rnd j AND d_mask d) < length (d_table d)" for j
    using n by (simp add: placed_def and_mask_u32)
  define m where "m = (LEAST i. d_table d ! unat (rnd i AND d_mask d) \<noteq> [])"
  have hit: "d_table d ! unat (rnd m AND d_mask d) \<noteq> []"
    unfolding m_def using assms(2) by (rule LeastI_ex)
  have miss: "\<forall>j < m. d_table d ! unat (rnd j AND d_mask d) = []"
    unfolding m_def using not_less_Least by blast
  let ?c = "d_table d ! unat (rnd m AND d_mask d)"
  have "random_slot d rnd 0 = Some (Suc m, ?c)"
    using random_slot_hit [of m d rnd 0] hit miss bound by simp
  moreover have "?c ! (unat (rnd (Suc m)) mod length ?c) \<in> set (entries d)"
    unfolding entries_def set_concat_nth using hit bound [of m] by (intro exI [of _ "unat (rnd m AND d_mask d)"]) simp
  ultimately show ?thesis using assms(3) by (simp add: DictGetRandomKey_def)
qed

section \<open>The string types\<close>

text \<open>Hashing a buffer within its length never leaves it, so the hash of a C string is defined.\<close>

lemma gen_hash_loop_total:
  "len \<le> length buf \<Longrightarrow>
   gen_hash_loop h buf len = Some (foldl (\<lambda>h c. h * 33 + of_nat (of_char c)) h (take len buf))"
proof (induction h buf len rule: gen_hash_loop.induct)
  case (3 h c buf len)
  have "push_bit 5 h + h = h * 33" by (simp add: push_bit_eq_mult)
  with 3 show ?case by (simp only: gen_hash_loop.simps length_Cons Suc_le_mono take_Suc_Cons foldl_Cons)
qed simp_all

lemma string_hash_eq: "string_hash k = foldl (\<lambda>h c. h * 33 + of_nat (of_char c)) 5381 (cstr k)"
  by (simp add: string_hash_def DictGenHashFunction_def gen_hash_loop_total strlen_def)

lemma string_dup: "DictStringCopyHTKeyDup k = cstr k" "DictStringCopyHTValDup v = cstr v"
  by (simp_all add: DictStringCopyHTKeyDup_def DictStringCopyHTValDup_def strlen_def cstr_def takeWhile_eq_take [symmetric])

lemma string_type_laws:
  assumes "hashFunction ty = string_hash" and "keyCompare ty = Some DictStringCopyHTKeyCompare"
    and "keyDup ty = None \<or> keyDup ty = Some DictStringCopyHTKeyDup"
  shows "dict_type ty cstr"
  using assms by unfold_locales
    (auto simp: DictCompareHashKeys_def DictHashKey_def DictSetHashKey_def string_hash_eq
      DictStringCopyHTKeyCompare_def strcmp_eq_def cstr_idem string_dup)

interpretation heap_strings: dict_type DictTypeHeapStrings cstr
  by (rule string_type_laws) (simp_all add: DictTypeHeapStrings_def)

interpretation heap_copy_key: dict_type DictTypeHeapStringCopyKey cstr
  by (rule string_type_laws) (simp_all add: DictTypeHeapStringCopyKey_def)

interpretation heap_copy_key_value: dict_type DictTypeHeapStringCopyKeyValue cstr
  by (rule string_type_laws) (simp_all add: DictTypeHeapStringCopyKeyValue_def)

end
