(* ===== verification/Object.thy ===== *)
theory Object
  imports Dict Adlist
begin

text \<open>
  Reference-counted objects: \<open>commands/object.c\<close> and the table types of \<open>server.c\<close> whose
  destructors release them. From here on an \<open>sds\<close> is its content (the operations on the buffers
  are those of \<open>Sds\<close>), and a \<open>List*\<close> is the list of the values of its nodes (\<open>Adlist\<close> relates
  the two). An object is a cell of a heap; an address that is not live is dangling, and every use
  of it is undefined. Objects whose count reached zero go to a list from which they are reused.

  The second half states who may hold a reference: \<open>heap_ok R h\<close> says that the counts of \<open>h\<close> are
  exact for the outside references \<open>R\<close>. Its laws are those of a reference-counted store, stated
  as a locale and interpreted on the model.
\<close>

section \<open>Objects and their heap\<close>

text \<open>The field \<open>type\<close> says which of the three \<open>ptr\<close> points to; a string may be NULL.\<close>

datatype optr = OString "string option" | OList "addr list" | OSet "(addr, unit) Dict"

record CutisObject =
  optr :: optr
  refcount :: int

definition CUTIS_STRING :: int where "CUTIS_STRING = 0"
definition CUTIS_LIST :: int where "CUTIS_LIST = 1"
definition CUTIS_SET :: int where "CUTIS_SET = 2"

fun otype :: "optr \<Rightarrow> int" where
  "otype (OString _) = CUTIS_STRING"
| "otype (OList _) = CUTIS_LIST"
| "otype (OSet _) = CUTIS_SET"

text \<open>\<open>next_obj\<close> stands for the memory \<open>zmalloc\<close> has not handed out yet.\<close>

record heap =
  objs :: "addr \<rightharpoonup> CutisObject"
  free_objs :: "addr list"
  next_obj :: addr

definition empty_heap :: heap where
  "empty_heap = \<lparr>objs = Map.empty, free_objs = [], next_obj = 0\<rparr>"

definition CreateCutisObject :: "optr \<Rightarrow> heap \<Rightarrow> addr \<times> heap" where
  "CreateCutisObject p h =
     (let o' = \<lparr>optr = p, refcount = 1\<rparr> in
      case free_objs h of
        a # fs \<Rightarrow> (a, h\<lparr>objs := (objs h)(a \<mapsto> o'), free_objs := fs\<rparr>)
      | [] \<Rightarrow> (next_obj h, h\<lparr>objs := (objs h)(next_obj h \<mapsto> o'), next_obj := Suc (next_obj h)\<rparr>))"

definition CreateListObject :: "heap \<Rightarrow> addr \<times> heap" where
  "CreateListObject h = CreateCutisObject (OList []) h"

definition CreateSetObject :: "heap \<Rightarrow> addr \<times> heap" where
  "CreateSetObject h = CreateCutisObject (OSet DictCreate) h"

definition IncrRefCount :: "addr \<Rightarrow> heap \<Rightarrow> heap option" where
  "IncrRefCount a h =
     do { o' \<leftarrow> objs h a;
          Some (h\<lparr>objs := (objs h)(a \<mapsto> o'\<lparr>refcount := refcount o' + 1\<rparr>)\<rparr>) }"

section \<open>The types of the tables\<close>

text \<open>The string an object holds; members of sets are compared and hashed by it.\<close>

definition obj_str :: "heap \<Rightarrow> addr \<Rightarrow> string" where
  "obj_str h a =
     (case objs h a of
        Some o' \<Rightarrow> (case optr o' of OString (Some s) \<Rightarrow> s | _ \<Rightarrow> [])
      | None \<Rightarrow> [])"

definition sdsDictHashFunction :: "string \<Rightarrow> u32" where
  "sdsDictHashFunction key = the (DictGenHashFunction key (length key))"

definition sdsDictKeyCompare :: "string \<Rightarrow> string \<Rightarrow> bool" where
  "sdsDictKeyCompare key1 key2 \<longleftrightarrow> key1 = key2"

definition SetDictHashFunction :: "heap \<Rightarrow> addr \<Rightarrow> u32" where
  "SetDictHashFunction h key = sdsDictHashFunction (obj_str h key)"

definition SetDictKeyCompare :: "heap \<Rightarrow> addr \<Rightarrow> addr \<Rightarrow> bool" where
  "SetDictKeyCompare h key1 key2 = sdsDictKeyCompare (obj_str h key1) (obj_str h key2)"

definition SetDictType :: "(addr \<Rightarrow> heap \<Rightarrow> heap option) \<Rightarrow> heap \<Rightarrow> (addr, unit, heap) DictType" where
  "SetDictType destructor h =
     \<lparr>hashFunction = SetDictHashFunction h, keyDup = None, valDup = None,
      keyCompare = Some (SetDictKeyCompare h), keyDestructor = Some destructor, valDestructor = None\<rparr>"

section \<open>Releasing\<close>

text \<open>
  Releasing an object releases what it holds. \<open>n\<close> bounds the depth of objects within objects;
  containers hold strings only, so a depth of two is enough (\<open>DecrRefCount_ok\<close>).
\<close>

primrec decr_ref :: "nat \<Rightarrow> addr \<Rightarrow> heap \<Rightarrow> heap option" where
  "decr_ref 0 = (\<lambda>a h. None)"
| "decr_ref (Suc n) =
     (\<lambda>a h.
        do { o' \<leftarrow> objs h a;
             let h = h\<lparr>objs := (objs h)(a \<mapsto> o'\<lparr>refcount := refcount o' - 1\<rparr>)\<rparr>;
             if refcount o' - 1 = 0 then
               do { h \<leftarrow> (case optr o' of
                            OString _ \<Rightarrow> Some h
                          | OList l \<Rightarrow> foldM (decr_ref n) l h
                          | OSet d \<Rightarrow> DictRelease (SetDictType (decr_ref n) h) d h);
                    Some (h\<lparr>objs := (objs h)(a := None), free_objs := a # free_objs h\<rparr>) }
             else Some h })"

definition DecrRefCount :: "addr \<Rightarrow> heap \<Rightarrow> heap option" where
  "DecrRefCount = decr_ref 2"

text \<open>The databases: keys are strings, values are objects the table holds a reference to.\<close>

definition sdsDictType :: "(string, addr, heap) DictType" where
  "sdsDictType =
     \<lparr>hashFunction = sdsDictHashFunction, keyDup = None, valDup = None,
      keyCompare = Some sdsDictKeyCompare, keyDestructor = Some (\<lambda>_. Some), valDestructor = Some DecrRefCount\<rparr>"

abbreviation set_type :: "heap \<Rightarrow> (addr, unit, heap) DictType" where
  "set_type \<equiv> SetDictType DecrRefCount"

section \<open>Shared objects\<close>

record SharedObject =
  sh_crlf :: addr
  sh_ok :: addr
  sh_err :: addr
  sh_zerobulk :: addr
  sh_nil :: addr
  sh_zero :: addr
  sh_one :: addr
  sh_pong :: addr

definition new_string :: "string \<Rightarrow> heap \<Rightarrow> addr \<times> heap" where
  "new_string s = CreateCutisObject (OString (Some s))"

definition InitSharedObjects :: "heap \<Rightarrow> SharedObject \<times> heap" where
  "InitSharedObjects h =
     (let (c, h) = new_string crlf h;
          (k, h) = new_string (''+OK'' @ crlf) h;
          (e, h) = new_string (''-ERR'' @ crlf) h;
          (b, h) = new_string (''0'' @ crlf @ crlf) h;
          (n, h) = new_string (''nil'' @ crlf) h;
          (z, h) = new_string (''0'' @ crlf) h;
          (i, h) = new_string (''1'' @ crlf) h;
          (p, h) = new_string (''+PONG'' @ crlf) h
      in (\<lparr>sh_crlf = c, sh_ok = k, sh_err = e, sh_zerobulk = b, sh_nil = n, sh_zero = z,
           sh_one = i, sh_pong = p\<rparr>, h))"

definition shared_refs :: "SharedObject \<Rightarrow> addr list" where
  "shared_refs s =
     [sh_crlf s, sh_ok s, sh_err s, sh_zerobulk s, sh_nil s, sh_zero s, sh_one s, sh_pong s]"

definition ReleaseSharedObjects :: "SharedObject \<Rightarrow> heap \<Rightarrow> heap option" where
  "ReleaseSharedObjects s h = foldM DecrRefCount (shared_refs s) h"

section \<open>The table types satisfy their contract\<close>

lemma sdsDictHashFunction_eq:
  "sdsDictHashFunction k = foldl (\<lambda>h c. h * 33 + of_nat (of_char c)) 5381 k"
  by (simp add: sdsDictHashFunction_def DictGenHashFunction_def gen_hash_loop_total)

interpretation db: dict_type sdsDictType "\<lambda>k. k"
  by unfold_locales
    (simp_all add: DictCompareHashKeys_def DictHashKey_def DictSetHashKey_def sdsDictType_def
      sdsDictKeyCompare_def)

interpretation members: dict_type "SetDictType destructor h" "obj_str h" for destructor h
  by unfold_locales
    (simp_all add: DictCompareHashKeys_def DictHashKey_def DictSetHashKey_def SetDictType_def
      SetDictKeyCompare_def sdsDictKeyCompare_def SetDictHashFunction_def)

section \<open>Exact reference counts\<close>

fun refs_of :: "optr \<Rightarrow> addr multiset" where
  "refs_of (OString _) = {#}"
| "refs_of (OList l) = mset l"
| "refs_of (OSet d) = mset (map fst (entries d))"

text \<open>All references that live objects hold.\<close>

definition inner :: "(addr \<rightharpoonup> CutisObject) \<Rightarrow> addr multiset" where
  "inner M = (\<Sum>a \<in> dom M. refs_of (optr (the (M a))))"

definition store_of :: "(addr \<rightharpoonup> CutisObject) \<Rightarrow> heap" where
  "store_of M = \<lparr>objs = M, free_objs = [], next_obj = 0\<rparr>"

abbreviation mstr :: "(addr \<rightharpoonup> CutisObject) \<Rightarrow> addr \<Rightarrow> string" where
  "mstr M \<equiv> obj_str (store_of M)"

definition is_string :: "(addr \<rightharpoonup> CutisObject) \<Rightarrow> addr \<Rightarrow> bool" where
  "is_string M a \<longleftrightarrow> (\<exists>o' s. M a = Some o' \<and> optr o' = OString (Some s))"

definition set_ok :: "(addr \<rightharpoonup> CutisObject) \<Rightarrow> (addr, unit) Dict \<Rightarrow> bool" where
  "set_ok M d \<longleftrightarrow> dict_ok (set_type (store_of M)) (mstr M) d"

text \<open>Containers hold live strings, and the table of a set is well formed for their contents.\<close>

fun wf_ptr :: "(addr \<rightharpoonup> CutisObject) \<Rightarrow> optr \<Rightarrow> bool" where
  "wf_ptr M (OString _) = True"
| "wf_ptr M (OList l) = (\<forall>a \<in> set l. is_string M a)"
| "wf_ptr M (OSet d) = ((\<forall>a \<in> fst ` set (entries d). is_string M a) \<and> set_ok M d)"

definition counts_ok :: "addr multiset \<Rightarrow> (addr \<rightharpoonup> CutisObject) \<Rightarrow> bool" where
  "counts_ok R M \<longleftrightarrow> finite (dom M) \<and>
     (\<forall>a o'. M a = Some o' \<longrightarrow>
        0 < refcount o' \<and> refcount o' = int (count (R + inner M) a) \<and> wf_ptr M (optr o')) \<and>
     set_mset (R + inner M) \<subseteq> dom M"

definition free_ok :: "heap \<Rightarrow> bool" where
  "free_ok h \<longleftrightarrow> distinct (free_objs h) \<and> set (free_objs h) \<inter> dom (objs h) = {} \<and>
     (\<forall>a \<in> dom (objs h) \<union> set (free_objs h). a < next_obj h)"

definition heap_ok :: "addr multiset \<Rightarrow> heap \<Rightarrow> bool" where
  "heap_ok R h \<longleftrightarrow> counts_ok R (objs h) \<and> free_ok h"

lemma heap_ok_empty: "heap_ok {#} empty_heap"
  by (simp add: heap_ok_def counts_ok_def free_ok_def inner_def empty_heap_def)

lemma obj_str_eq: "objs h a = objs h' a \<Longrightarrow> obj_str h a = obj_str h' a"
  by (simp add: obj_str_def)

lemma mstr_objs [simp]: "mstr (objs h) = obj_str h"
  by (rule ext) (simp add: obj_str_def store_of_def)

lemma inner_upd:
  assumes "finite (dom M)"
  shows "inner (M(a \<mapsto> x)) + (case M a of None \<Rightarrow> {#} | Some o' \<Rightarrow> refs_of (optr o')) =
    inner M + refs_of (optr x)"
proof -
  let ?f = "\<lambda>M b. refs_of (optr (the (M b)))"
  have "sum (?f (M(a \<mapsto> x))) (dom M - {a}) = sum (?f M) (dom M - {a})"
    by (rule sum.cong) auto
  then have e: "inner (M(a \<mapsto> x)) = refs_of (optr x) + sum (?f M) (dom M - {a})"
    using assms by (simp add: inner_def sum.insert_remove)
  show ?thesis
  proof (cases "M a")
    case None
    then have "dom M - {a} = dom M" by auto
    then show ?thesis using e None by (simp add: inner_def)
  next
    case (Some o')
    then have "inner M = refs_of (optr o') + sum (?f M) (dom M - {a})"
      using assms sum.remove [of "dom M" a "?f M"] by (auto simp: inner_def)
    then show ?thesis using e Some by simp
  qed
qed

lemma inner_del:
  assumes "finite (dom M)" and "M a = Some o'"
  shows "inner M = inner (M(a := None)) + refs_of (optr o')"
proof -
  let ?f = "\<lambda>M b. refs_of (optr (the (M b)))"
  have "sum (?f (M(a := None))) (dom M - {a}) = sum (?f M) (dom M - {a})"
    by (rule sum.cong) auto
  moreover have "a \<in> dom M" using assms(2) by auto
  ultimately show ?thesis
    using assms sum.remove [of "dom M" a "?f M"] by (simp add: inner_def)
qed

lemma inner_same_ptr:
  assumes "finite (dom M)" and "M a = Some o'" and "optr x = optr o'"
  shows "inner (M(a \<mapsto> x)) = inner M"
  using inner_upd [OF assms(1), of a x] assms(2,3) by simp

text \<open>A table keeps its invariant as long as its keys hash and denote the same.\<close>

lemma dict_ok_cong:
  assumes "\<forall>k \<in> fst ` set (entries d). DictHashKey ty k = DictHashKey ty' k \<and> canon k = canon' k"
  shows "dict_ok ty canon d \<longleftrightarrow> dict_ok ty' canon' d"
proof -
  have a: "map (canon \<circ> fst) (entries d) = map (canon' \<circ> fst) (entries d)"
    using assms by simp
  have b: "placed ty n (d_table d) \<longleftrightarrow> placed ty' n (d_table d)" for n
  proof -
    have "DictHashKey ty (fst e) = DictHashKey ty' (fst e)"
      if "i < length (d_table d)" "e \<in> set (d_table d ! i)" for i e
      using that assms unfolding entries_def by (metis image_eqI set_concat_nth)
    then show ?thesis unfolding placed_def by metis
  qed
  show ?thesis by (simp only: dict_ok_def a b)
qed

lemma hash_set_type [simp]: "DictHashKey (SetDictType f h) a = sdsDictHashFunction (obj_str h a)"
  by (simp add: DictHashKey_def SetDictType_def SetDictHashFunction_def)

lemma wf_ptr_cong:
  assumes "wf_ptr M p"
    and "\<forall>a \<in># refs_of p. map_option optr (M' a) = map_option optr (M a)"
  shows "wf_ptr M' p"
proof -
  have str: "is_string M' a \<and> mstr M' a = mstr M a" if "a \<in># refs_of p" "is_string M a" for a
    using assms(2) that by (fastforce simp: is_string_def obj_str_def store_of_def map_option_case
        split: option.splits)
  show ?thesis
  proof (cases p)
    case (OSet d)
    then have "\<forall>k \<in> fst ` set (entries d). is_string M' k \<and> mstr M' k = mstr M k"
      using str assms(1) by auto
    then have "dict_ok (set_type (store_of M)) (mstr M) d = dict_ok (set_type (store_of M')) (mstr M') d"
      by (intro dict_ok_cong) simp
    then show ?thesis using str assms(1) OSet by (auto simp: set_ok_def)
  qed (use str assms(1) in auto)
qed

text \<open>The objects that are still there are the ones that were there, with the same contents.\<close>

definition keeps :: "heap \<Rightarrow> heap \<Rightarrow> bool" where
  "keeps h h' \<longleftrightarrow> (\<forall>a o'. objs h' a = Some o' \<longrightarrow> (\<exists>x. objs h a = Some x \<and> optr x = optr o'))"

lemma keeps_refl [simp]: "keeps h h"
  by (simp add: keeps_def)

lemma keeps_trans: "keeps h1 h2 \<Longrightarrow> keeps h2 h3 \<Longrightarrow> keeps h1 h3"
  unfolding keeps_def by metis

lemma counts_okD:
  assumes "counts_ok R M"
  shows "finite (dom M)" and "a \<in># R + inner M \<Longrightarrow> \<exists>o'. M a = Some o'"
    and "M a = Some o' \<Longrightarrow> 0 < refcount o' \<and> refcount o' = int (count (R + inner M) a) \<and> wf_ptr M (optr o')"
  using assms unfolding counts_ok_def by blast+

lemma refs_inner: "finite (dom M) \<Longrightarrow> M a = Some o' \<Longrightarrow> b \<in># refs_of (optr o') \<Longrightarrow> b \<in># inner M"
  using inner_del [of M a o'] by auto

section \<open>Counting references\<close>

text \<open>A changed count, or an object taken away, leaves the others well formed.\<close>

lemma counts_ok_recount:
  assumes "counts_ok R M" and "M a = Some o'"
    and "count R' a + count (inner M) a > 0"
    and "\<forall>b. b \<noteq> a \<longrightarrow> count R' b = count R b"
  shows "counts_ok R' (M(a \<mapsto> o'\<lparr>refcount := int (count (R' + inner M) a)\<rparr>))"
proof -
  let ?M = "M(a \<mapsto> o'\<lparr>refcount := int (count (R' + inner M) a)\<rparr>)"
  note ok = counts_okD [OF assms(1)]
  have inn: "inner ?M = inner M" by (rule inner_same_ptr [OF ok(1) assms(2)]) simp
  have wf: "wf_ptr ?M p" if "wf_ptr M p" for p
    using that assms(2) by (elim wf_ptr_cong) simp
  have "set_mset (R' + inner ?M) \<subseteq> dom ?M"
  proof
    fix b assume "b \<in># R' + inner ?M"
    then have "b = a \<or> b \<in># R + inner M"
      using assms(4) inn by (metis count_greater_zero_iff count_union)
    then show "b \<in> dom ?M" using ok(2) by auto
  qed
  moreover have "0 < refcount x \<and> refcount x = int (count (R' + inner ?M) b) \<and> wf_ptr ?M (optr x)"
    if "?M b = Some x" for b x
  proof (cases "b = a")
    case True
    then have "x = o'\<lparr>refcount := int (count (R' + inner M) a)\<rparr>" using that by simp
    moreover have "0 < int (count (R' + inner M) a)"
      using assms(3) by (simp only: count_union of_nat_0_less_iff)
    ultimately show ?thesis using True inn wf ok(3) [OF assms(2)] by simp
  next
    case False
    then show ?thesis using that ok(3) [of b x] inn wf assms(4) by simp
  qed
  moreover have "finite (dom ?M)" using ok(1) by simp
  ultimately show ?thesis unfolding counts_ok_def by blast
qed

lemma count_pos: "n - 1 = int (count (R + S) a) \<Longrightarrow> n \<noteq> 1 \<Longrightarrow> 0 < count R a + count S a"
proof -
  assume "n - 1 = int (count (R + S) a)" "n \<noteq> 1"
  then have "int (count (R + S) a) \<noteq> int 0" by linarith
  then have "count (R + S) a \<noteq> 0" by metis
  then show ?thesis by (simp only: count_union neq0_conv)
qed

lemma counts_ok_remove:
  assumes "counts_ok (add_mset a R) M" and "M a = Some o'" and "refcount o' = 1"
  shows "counts_ok (refs_of (optr o') + R) (M(a := None))"
proof -
  let ?M = "M(a := None)"
  note ok = counts_okD [OF assms(1)]
  have inn: "inner M = inner ?M + refs_of (optr o')" by (rule inner_del [OF ok(1) assms(2)])
  have "int (count (add_mset a R + inner M) a) = 1" using ok(3) [OF assms(2)] assms(3) by simp
  then have a: "a \<notin># R" "a \<notin># inner M" by (simp_all add: not_in_iff)
  have cnt: "count (refs_of (optr o') + R + inner ?M) b = count (add_mset a R + inner M) b"
    if "b \<noteq> a" for b using that inn by simp
  have "0 < refcount x \<and> refcount x = int (count (refs_of (optr o') + R + inner ?M) b) \<and> wf_ptr ?M (optr x)"
    if x: "?M b = Some x" for b x
  proof -
    from x have b: "b \<noteq> a" "M b = Some x" by (auto split: if_splits)
    have "a \<notin># refs_of (optr x)" using refs_inner [OF ok(1) b(2)] a(2) by blast
    moreover have "wf_ptr M (optr x)" using ok(3) [OF b(2)] by blast
    ultimately have "wf_ptr ?M (optr x)" by (elim wf_ptr_cong) auto
    then show ?thesis using ok(3) [OF b(2)] unfolding cnt [OF b(1)] by blast
  qed
  moreover have "set_mset (refs_of (optr o') + R + inner ?M) \<subseteq> dom ?M"
  proof
    fix b assume b: "b \<in># refs_of (optr o') + R + inner ?M"
    then have "b \<in># R + inner M" using inn by auto
    moreover from this have "b \<noteq> a" using a by auto
    ultimately show "b \<in> dom ?M" using ok(2) [of b] by auto
  qed
  moreover have "finite (dom ?M)" using ok(1) by simp
  ultimately show ?thesis unfolding counts_ok_def by blast
qed

lemma counts_ok_create:
  assumes "counts_ok (refs_of p + R) M" and "M a = None" and "wf_ptr M p"
  shows "counts_ok (add_mset a R) (M(a \<mapsto> \<lparr>optr = p, refcount = 1\<rparr>))"
proof -
  let ?M = "M(a \<mapsto> \<lparr>optr = p, refcount = 1\<rparr>)"
  note ok = counts_okD [OF assms(1)]
  have inn: "inner ?M = inner M + refs_of p" using inner_upd [OF ok(1), of a "\<lparr>optr = p, refcount = 1\<rparr>"] assms(2) by simp
  have a: "a \<notin># refs_of p + R + inner M" using ok(2) [of a] assms(2) by auto
  have wf: "wf_ptr ?M q" if "wf_ptr M q" "a \<notin># refs_of q" for q
    by (rule wf_ptr_cong [OF that(1)]) (use that(2) in auto)
  have "0 < refcount x \<and> refcount x = int (count (add_mset a R + inner ?M) b) \<and> wf_ptr ?M (optr x)"
    if x: "?M b = Some x" for b x
  proof (cases "b = a")
    case True
    then have "x = \<lparr>optr = p, refcount = 1\<rparr>" using x by simp
    moreover have "count (add_mset a R + inner ?M) a = 1" using a inn by (simp add: not_in_iff)
    ultimately show ?thesis using wf [OF assms(3)] a True by simp
  next
    case False
    then have b: "M b = Some x" using x by simp
    have "a \<notin># refs_of (optr x)" using refs_inner [OF ok(1) b] a by auto
    then have "wf_ptr ?M (optr x)" using ok(3) [OF b] wf [of "optr x"] by blast
    moreover have c: "count (add_mset a R + inner ?M) b = count (refs_of p + R + inner M) b"
      using False inn by simp
    ultimately show ?thesis using ok(3) [OF b] unfolding c by blast
  qed
  moreover have "set_mset (add_mset a R + inner ?M) \<subseteq> dom ?M"
    using ok(2) unfolding inn by (auto simp: dom_def)
  moreover have "finite (dom ?M)" using ok(1) by simp
  ultimately show ?thesis unfolding counts_ok_def by blast
qed

lemma free_ok_kill:
  assumes "free_ok h" and "a \<in> dom (objs h)"
  shows "free_ok (h\<lparr>objs := (objs h)(a := None), free_objs := a # free_objs h\<rparr>)"
  using assms by (auto simp: free_ok_def)

text \<open>
  Releasing a string. \<open>D\<close> are objects that are being released themselves: their counts are no longer
  kept, nobody refers to them, and they are not touched.
\<close>

lemma decr_string:
  assumes "counts_ok (add_mset a R) (objs h |` (- D))" and "is_string (objs h |` (- D)) a" and "free_ok h"
  shows "\<exists>h'. decr_ref (Suc n) a h = Some h' \<and> counts_ok R (objs h' |` (- D)) \<and>
    (\<forall>b \<in> D. objs h' b = objs h b) \<and> keeps h h' \<and> free_ok h'"
proof -
  let ?M = "objs h |` (- D)"
  from assms(2) obtain o' s where o': "?M a = Some o'" "optr o' = OString (Some s)"
    by (auto simp: is_string_def)
  then have a: "a \<notin> D" "objs h a = Some o'" by (auto simp: restrict_map_def split: if_splits)
  note ok = counts_okD(3) [OF assms(1) o'(1)]
  show ?thesis
  proof (cases "refcount o' = 1")
    case True
    let ?h = "h\<lparr>objs := (objs h)(a := None), free_objs := a # free_objs h\<rparr>"
    have "objs ?h |` (- D) = ?M(a := None)" using a(1) by (auto simp: restrict_map_def)
    then have "counts_ok R (objs ?h |` (- D))"
      using counts_ok_remove [OF assms(1) o'(1) True] o'(2) by simp
    moreover have "decr_ref (Suc n) a h = Some ?h" using a o'(2) True by simp
    moreover have "keeps h ?h" by (auto simp: keeps_def split: if_splits)
    ultimately show ?thesis using free_ok_kill [OF assms(3), of a] a by auto
  next
    case False
    let ?o = "o'\<lparr>refcount := refcount o' - 1\<rparr>"
    let ?h = "h\<lparr>objs := (objs h)(a \<mapsto> ?o)\<rparr>"
    have c: "refcount o' - 1 = int (count (R + inner ?M) a)" using ok by simp
    have "objs ?h |` (- D) = ?M(a \<mapsto> o'\<lparr>refcount := int (count (R + inner ?M) a)\<rparr>)"
      using a(1) unfolding c [symmetric] by (auto simp: restrict_map_def)
    moreover have "counts_ok R (?M(a \<mapsto> o'\<lparr>refcount := int (count (R + inner ?M) a)\<rparr>))"
      using count_pos [OF c] False by (intro counts_ok_recount [OF assms(1) o'(1)]) simp_all
    ultimately have "counts_ok R (objs ?h |` (- D))" by simp
    moreover have "decr_ref (Suc n) a h = Some ?h" using a False by simp
    moreover have "keeps h ?h" using a by (auto simp: keeps_def split: if_splits)
    moreover have "free_ok ?h" using assms(3) a(2) by (auto simp: free_ok_def)
    ultimately show ?thesis using a(1) by auto
  qed
qed

lemma decr_strings:
  assumes "counts_ok (mset xs + R) (objs h |` (- D))" and "\<forall>x \<in> set xs. is_string (objs h |` (- D)) x"
    and "free_ok h"
  shows "\<exists>h'. foldM (decr_ref (Suc n)) xs h = Some h' \<and> counts_ok R (objs h' |` (- D)) \<and>
    (\<forall>b \<in> D. objs h' b = objs h b) \<and> keeps h h' \<and> free_ok h'"
  using assms
proof (induction xs arbitrary: h)
  case Nil
  then show ?case by simp
next
  case (Cons x xs)
  from Cons.prems(1) have "counts_ok (add_mset x (mset xs + R)) (objs h |` (- D))" by simp
  from decr_string [OF this _ Cons.prems(3), of n] Cons.prems(2) obtain h1 where
    h1: "decr_ref (Suc n) x h = Some h1" "counts_ok (mset xs + R) (objs h1 |` (- D))"
      "\<forall>b \<in> D. objs h1 b = objs h b" "keeps h h1" "free_ok h1" by auto
  have "is_string (objs h1 |` (- D)) y" if y: "y \<in> set xs" for y
  proof -
    obtain o1 where o1: "(objs h1 |` (- D)) y = Some o1"
      using counts_okD(2) [OF h1(2), of y] y by auto
    moreover from this h1(4) obtain x where "objs h y = Some x" "optr x = optr o1"
      by (auto simp: keeps_def restrict_map_def split: if_splits)
    ultimately show ?thesis using Cons.prems(2) y
      by (auto simp: is_string_def restrict_map_def split: if_splits)
  qed
  with Cons.IH [OF h1(2) _ h1(5)] obtain h2 where
    h2: "foldM (decr_ref (Suc n)) xs h1 = Some h2" "counts_ok R (objs h2 |` (- D))"
      "\<forall>b \<in> D. objs h2 b = objs h1 b" "keeps h1 h2" "free_ok h2" by blast
  then show ?case using h1 keeps_trans by (intro exI [of _ h2]) auto
qed

lemma foldM_map: "foldM f (map g xs) s = foldM (\<lambda>x. f (g x)) xs s"
  by (induction xs arbitrary: s) (auto split: option.splits)

lemma free_entry_set: "free_entry (SetDictType f h) = (\<lambda>e. f (fst e))"
proof (intro ext)
  fix e :: "addr \<times> unit" and s
  have "DictFreeEntryVal (SetDictType f h) (snd e) = Some"
    by (rule ext) (simp add: DictFreeEntryVal_def SetDictType_def)
  then show "free_entry (SetDictType f h) e s = f (fst e) s"
    by (simp add: free_entry_def DictFreeEntryKey_def) (simp add: SetDictType_def)
qed

lemma decr_ref_last:
  assumes "objs h a = Some o'" and "refcount o' = 1"
    and "h1 = h\<lparr>objs := (objs h)(a \<mapsto> o'\<lparr>refcount := 0\<rparr>)\<rparr>"
  shows "decr_ref (Suc n) a h =
    map_option (\<lambda>h. h\<lparr>objs := (objs h)(a := None), free_objs := a # free_objs h\<rparr>)
      (case optr o' of OString _ \<Rightarrow> Some h1 | OList l \<Rightarrow> foldM (decr_ref n) l h1
        | OSet d \<Rightarrow> DictRelease (SetDictType (decr_ref n) h1) d h1)"
  by (simp only: decr_ref.simps assms bind.bind_lunit Let_def cancel_comm_monoid_add_class.diff_cancel
      if_True simp_thms) (simp add: map_conv_bind_option comp_def)

text \<open>What the last release of an object releases in turn.\<close>

lemma children_released:
  assumes "wf_ptr ((objs h)(a := None)) p" and "a \<notin># refs_of p" and "h1 = h\<lparr>objs := (objs h)(a \<mapsto> o1)\<rparr>"
  shows "\<exists>xs. refs_of p = mset xs \<and> (\<forall>x \<in> set xs. is_string ((objs h)(a := None)) x) \<and>
    (case p of OString _ \<Rightarrow> Some h1 | OList l \<Rightarrow> foldM (decr_ref (Suc 0)) l h1
     | OSet d \<Rightarrow> DictRelease (SetDictType (decr_ref (Suc 0)) h1) d h1) = foldM (decr_ref (Suc 0)) xs h1"
proof (cases p)
  case (OString s)
  then show ?thesis by (intro exI [of _ "[]"]) simp
next
  case (OList l)
  then show ?thesis using assms(1) by (intro exI [of _ l]) simp
next
  case (OSet d)
  have "obj_str h1 k = obj_str (store_of ((objs h)(a := None))) k" if "k \<in> fst ` set (entries d)" for k
    using that assms(2,3) OSet by (auto simp: obj_str_def store_of_def)
  then have "dict_ok (SetDictType (decr_ref (Suc 0)) h1) (obj_str h1) d"
    using assms(1) OSet dict_ok_cong [of d "SetDictType (decr_ref (Suc 0)) h1"
        "set_type (store_of ((objs h)(a := None)))" "obj_str h1" "mstr ((objs h)(a := None))"]
    by (simp add: set_ok_def del: decr_ref.simps)
  from DictRelease_ok [OF this]
  have "DictRelease (SetDictType (decr_ref (Suc 0)) h1) d h1 = foldM (decr_ref (Suc 0)) (map fst (entries d)) h1"
    by (simp add: foldM_map free_entry_set del: decr_ref.simps)
  then show ?thesis using assms(1) OSet by (intro exI [of _ "map fst (entries d)"]) simp
qed

lemma last_reference:
  assumes "heap_ok (add_mset a R) h" and "objs h a = Some o'" and "refcount o' = 1"
  shows "\<exists>h'. DecrRefCount a h = Some h' \<and> heap_ok R h' \<and> keeps h h'"
proof -
  from assms(1) have ok: "counts_ok (add_mset a R) (objs h)" "free_ok h" by (simp_all add: heap_ok_def)
  note oka = counts_okD(3) [OF ok(1) assms(2)]
  let ?h1 = "h\<lparr>objs := (objs h)(a \<mapsto> o'\<lparr>refcount := 0\<rparr>)\<rparr>"
  have M: "objs ?h1 |` (- {a}) = (objs h)(a := None)" by (auto simp: restrict_map_def)
  have cnt: "counts_ok (refs_of (optr o') + R) (objs ?h1 |` (- {a}))"
    unfolding M by (rule counts_ok_remove [OF ok(1) assms(2,3)])
  have free1: "free_ok ?h1" using ok(2) assms(2) by (auto simp: free_ok_def)
  have "int (count (add_mset a R + inner (objs h)) a) = 1" using oka assms(3) by simp
  then have na: "a \<notin># inner (objs h)" by (simp add: not_in_iff)
  then have nr: "a \<notin># refs_of (optr o')" using refs_inner [OF counts_okD(1) [OF ok(1)] assms(2)] by blast
  have wf1: "wf_ptr ((objs h)(a := None)) (optr o')"
    by (rule wf_ptr_cong [of "objs h"]) (use oka in blast, use nr in auto)
  from children_released [OF wf1 nr refl] obtain xs where
    xs: "refs_of (optr o') = mset xs" "\<forall>x \<in> set xs. is_string (objs ?h1 |` (- {a})) x"
      "(case optr o' of OString _ \<Rightarrow> Some ?h1 | OList l \<Rightarrow> foldM (decr_ref (Suc 0)) l ?h1
        | OSet d \<Rightarrow> DictRelease (SetDictType (decr_ref (Suc 0)) ?h1) d ?h1) = foldM (decr_ref (Suc 0)) xs ?h1"
    unfolding M by blast
  from decr_strings [OF cnt [unfolded xs(1)] xs(2) free1] obtain h2 where
    h2: "foldM (decr_ref (Suc 0)) xs ?h1 = Some h2" "counts_ok R (objs h2 |` (- {a}))"
      "objs h2 a = objs ?h1 a" "keeps ?h1 h2" "free_ok h2" by blast
  let ?h = "h2\<lparr>objs := (objs h2)(a := None), free_objs := a # free_objs h2\<rparr>"
  have "objs h2 |` (- {a}) = objs ?h" by (auto simp: restrict_map_def)
  then have "counts_ok R (objs ?h)" using h2(2) by simp
  moreover have "free_ok ?h" using free_ok_kill [OF h2(5), of a] h2(3) by auto
  moreover have "keeps h ?h" using h2(4) assms(2) by (fastforce simp: keeps_def split: if_splits)
  moreover have "DecrRefCount a h = Some ?h"
    unfolding DecrRefCount_def numeral_2_eq_2 decr_ref_last [OF assms(2,3) refl] xs(3) h2(1) by simp
  ultimately show ?thesis by (auto simp: heap_ok_def)
qed

theorem DecrRefCount_ok:
  assumes "heap_ok (add_mset a R) h"
  shows "\<exists>h'. DecrRefCount a h = Some h' \<and> heap_ok R h' \<and> keeps h h'"
proof -
  from assms have ok: "counts_ok (add_mset a R) (objs h)" "free_ok h" by (simp_all add: heap_ok_def)
  from counts_okD(2) [OF ok(1), of a] obtain o' where o': "objs h a = Some o'" by auto
  show ?thesis
  proof (cases "refcount o' = 1")
    case False
    let ?h = "h\<lparr>objs := (objs h)(a \<mapsto> o'\<lparr>refcount := refcount o' - 1\<rparr>)\<rparr>"
    have c: "refcount o' - 1 = int (count (R + inner (objs h)) a)" using counts_okD(3) [OF ok(1) o'] by simp
    have "counts_ok R (objs ?h)"
      using counts_ok_recount [OF ok(1) o', of R] count_pos [OF c] False unfolding c by simp
    moreover have "free_ok ?h" using ok(2) o' by (auto simp: free_ok_def)
    moreover have "keeps h ?h" using o' by (auto simp: keeps_def split: if_splits)
    ultimately show ?thesis using o' False
      by (simp add: DecrRefCount_def numeral_2_eq_2 heap_ok_def)
  qed (rule last_reference [OF assms o'])
qed

theorem IncrRefCount_ok:
  assumes "heap_ok R h" and o': "objs h a = Some o'"
  shows "\<exists>h'. IncrRefCount a h = Some h' \<and> heap_ok (add_mset a R) h' \<and> keeps h h' \<and> keeps h' h"
proof -
  from assms(1) have ok: "counts_ok R (objs h)" "free_ok h" by (simp_all add: heap_ok_def)
  let ?h = "h\<lparr>objs := (objs h)(a \<mapsto> o'\<lparr>refcount := refcount o' + 1\<rparr>)\<rparr>"
  have c: "refcount o' + 1 = int (count (add_mset a R + inner (objs h)) a)"
    using counts_okD(3) [OF ok(1) o'] by simp
  have "counts_ok (add_mset a R) (objs ?h)"
    using counts_ok_recount [OF ok(1) o', of "add_mset a R"] unfolding c by simp
  moreover have "free_ok ?h" using ok(2) o' by (auto simp: free_ok_def)
  moreover have "keeps h ?h" "keeps ?h h" using o' by (auto simp: keeps_def split: if_splits)
  ultimately show ?thesis using o' by (simp add: IncrRefCount_def heap_ok_def)
qed

lemma Create_fresh:
  assumes "free_ok h" and "CreateCutisObject p h = (a, h')"
  shows "objs h a = None \<and> objs h' = (objs h)(a \<mapsto> \<lparr>optr = p, refcount = 1\<rparr>) \<and> free_ok h'"
proof (cases "free_objs h")
  case Nil
  then have h': "a = next_obj h"
    "h' = h\<lparr>objs := (objs h)(a \<mapsto> \<lparr>optr = p, refcount = 1\<rparr>), next_obj := Suc a\<rparr>"
    using assms(2) by (auto simp: CreateCutisObject_def Let_def)
  have "a \<notin> dom (objs h)" using assms(1) h'(1) by (auto simp: free_ok_def)
  then show ?thesis using assms(1) Nil h' by (auto simp: free_ok_def less_Suc_eq domIff)
next
  case (Cons b fs)
  then have h': "a = b" "h' = h\<lparr>objs := (objs h)(a \<mapsto> \<lparr>optr = p, refcount = 1\<rparr>), free_objs := fs\<rparr>"
    using assms(2) Cons by (auto simp: CreateCutisObject_def Let_def)
  then show ?thesis using assms(1) Cons by (auto simp: free_ok_def)
qed

text \<open>A new object takes over the references its creator held for its contents.\<close>

theorem CreateCutisObject_ok:
  assumes "heap_ok (refs_of p + R) h" and "wf_ptr (objs h) p" and "CreateCutisObject p h = (a, h')"
  shows "heap_ok (add_mset a R) h' \<and> keeps h' (h\<lparr>objs := (objs h)(a \<mapsto> \<lparr>optr = p, refcount = 1\<rparr>)\<rparr>) \<and>
    objs h' = (objs h)(a \<mapsto> \<lparr>optr = p, refcount = 1\<rparr>) \<and> objs h a = None"
proof -
  from assms(1) have ok: "counts_ok (refs_of p + R) (objs h)" "free_ok h" by (simp_all add: heap_ok_def)
  from Create_fresh [OF ok(2) assms(3)] have c: "objs h a = None"
    "objs h' = (objs h)(a \<mapsto> \<lparr>optr = p, refcount = 1\<rparr>)" "free_ok h'" by simp_all
  then show ?thesis using counts_ok_create [OF ok(1) c(1) assms(2)]
    by (simp add: heap_ok_def keeps_def)
qed

lemma live: "heap_ok R h \<Longrightarrow> a \<in># R \<Longrightarrow> \<exists>o'. objs h a = Some o'"
  using counts_okD(2) [of R "objs h" a] by (auto simp: heap_ok_def)

lemma live_wf: "heap_ok R h \<Longrightarrow> objs h a = Some o' \<Longrightarrow> wf_ptr (objs h) (optr o')"
  using counts_okD(3) [of R "objs h" a o'] by (auto simp: heap_ok_def)

lemma live_inner: "heap_ok R h \<Longrightarrow> objs h a = Some o' \<Longrightarrow> b \<in># refs_of (optr o') \<Longrightarrow> \<exists>x. objs h b = Some x"
  using counts_okD(1,2) [of R "objs h"] refs_inner [of "objs h" a o' b] by (auto simp: heap_ok_def)

text \<open>Releasing a reference of several takes nothing away.\<close>

lemma decr_kept:
  assumes "heap_ok (add_mset a R) h" and "a \<in># R" and "DecrRefCount a h = Some h'"
  shows "keeps h' h"
proof -
  from live [OF assms(1), of a] obtain o' where o': "objs h a = Some o'" by auto
  have "counts_ok (add_mset a R) (objs h)" using assms(1) by (simp add: heap_ok_def)
  from counts_okD(3) [OF this o'] have "refcount o' = 1 + (int (count R a) + int (count (inner (objs h)) a))"
    by simp
  moreover have "0 < count R a" using assms(2) by (simp only: count_greater_zero_iff)
  ultimately have "refcount o' - 1 \<noteq> 0" by linarith
  then have "h' = h\<lparr>objs := (objs h)(a \<mapsto> o'\<lparr>refcount := refcount o' - 1\<rparr>)\<rparr>"
    using assms(3) o' by (simp add: DecrRefCount_def numeral_2_eq_2 Let_def)
  then show ?thesis using o' by (auto simp: keeps_def)
qed

section \<open>Values\<close>

text \<open>What an object means to the clients of the database.\<close>

datatype cvalue = VNull | VString string | VList "string list" | VSet "string set"

fun ptr_value :: "heap \<Rightarrow> optr \<Rightarrow> cvalue" where
  "ptr_value h (OString None) = VNull"
| "ptr_value h (OString (Some s)) = VString s"
| "ptr_value h (OList l) = VList (map (obj_str h) l)"
| "ptr_value h (OSet d) = VSet (obj_str h ` fst ` set (entries d))"

definition obj_value :: "heap \<Rightarrow> addr \<Rightarrow> cvalue" where
  "obj_value h a = (case objs h a of None \<Rightarrow> VNull | Some o' \<Rightarrow> ptr_value h (optr o'))"

lemma keeps_str: "keeps h h' \<Longrightarrow> objs h' a = Some o' \<Longrightarrow> obj_str h' a = obj_str h a"
  by (fastforce simp: keeps_def obj_str_def)

lemma ptr_value_cong: "\<forall>b \<in># refs_of p. obj_str h' b = obj_str h b \<Longrightarrow> ptr_value h' p = ptr_value h p"
  by (cases "(h, p)" rule: ptr_value.cases) (auto simp: image_image)

text \<open>An object that is still there has the value it had.\<close>

lemma keeps_value:
  assumes "keeps h h'" and "heap_ok R h'" and "objs h' a = Some o'"
  shows "obj_value h' a = obj_value h a"
proof -
  from assms(1,3) obtain x where x: "objs h a = Some x" "optr x = optr o'" by (auto simp: keeps_def)
  have "\<forall>b \<in># refs_of (optr o'). obj_str h' b = obj_str h b"
    using live_inner [OF assms(2,3)] keeps_str [OF assms(1)] by blast
  then show ?thesis using ptr_value_cong x assms(3) by (simp add: obj_value_def)
qed

lemma kept_value:
  assumes "keeps h' h" and "heap_ok R h" and "objs h a = Some o'"
  shows "obj_value h' a = obj_value h a"
  using keeps_value [OF assms] by simp

lemma value_live: "obj_value h a \<noteq> VNull \<Longrightarrow> \<exists>o'. objs h a = Some o'"
  by (auto simp: obj_value_def split: option.splits)

section \<open>The contract of the store\<close>

text \<open>
  What the users of objects rely on: with exact counts for the references \<open>R\<close>, one more reference
  can be taken to anything referred to, any reference can be given back, and neither changes the
  value of what is still referred to.
\<close>

locale refcounted =
  fixes ok :: "'a multiset \<Rightarrow> 'h \<Rightarrow> bool"
    and incr decr :: "'a \<Rightarrow> 'h \<Rightarrow> 'h option"
    and val :: "'h \<Rightarrow> 'a \<Rightarrow> 'v"
  assumes incr_law: "ok R h \<Longrightarrow> a \<in># R \<Longrightarrow>
      \<exists>h'. incr a h = Some h' \<and> ok (add_mset a R) h' \<and> (\<forall>b \<in># R. val h' b = val h b)"
    and decr_law: "ok (add_mset a R) h \<Longrightarrow>
      \<exists>h'. decr a h = Some h' \<and> ok R h' \<and> (\<forall>b \<in># R. val h' b = val h b)"
begin

text \<open>Giving back many references.\<close>

lemma decr_all:
  "ok (mset xs + R) h \<Longrightarrow> \<exists>h'. foldM decr xs h = Some h' \<and> ok R h' \<and> (\<forall>b \<in># R. val h' b = val h b)"
proof (induction xs arbitrary: h)
  case Nil
  then show ?case by simp
next
  case (Cons x xs)
  then have "ok (add_mset x (mset xs + R)) h" by simp
  from decr_law [OF this] obtain h1 where h1: "decr x h = Some h1" "ok (mset xs + R) h1"
    "\<forall>b \<in># mset xs + R. val h1 b = val h b" by blast
  from Cons.IH [OF h1(2)] h1 show ?case by auto
qed

text \<open>Replacing a reference by another, taking the new one first.\<close>

lemma swap:
  assumes "ok (add_mset old R) h" and "new \<in># R"
  shows "\<exists>h1 h2. incr new h = Some h1 \<and> decr old h1 = Some h2 \<and> ok (add_mset new R) h2 \<and>
    (\<forall>b \<in># R. val h2 b = val h b)"
proof -
  from incr_law [OF assms(1), of new] assms(2) obtain h1 where
    h1: "incr new h = Some h1" "ok (add_mset old (add_mset new R)) h1"
      "\<forall>b \<in># add_mset old R. val h1 b = val h b" by (auto simp: add_mset_commute)
  from decr_law [OF h1(2)] h1 show ?thesis by force
qed

end

sublocale refcounted \<subseteq> owner: value_owner decr "\<lambda>xs h. ok (mset xs + R) h" for R
proof
  fix xs x ys s
  assume "ok (mset (xs @ x # ys) + R) s"
  then have "ok (add_mset x (mset (xs @ ys) + R)) s" by simp
  from decr_law [OF this] show "\<exists>s'. decr x s = Some s' \<and> ok (mset (xs @ ys) + R) s'" by blast
qed

interpretation store: refcounted heap_ok IncrRefCount DecrRefCount obj_value
proof
  fix R h a
  assume "heap_ok R h" "a \<in># R"
  with live obtain o' where "objs h a = Some o'" by blast
  from IncrRefCount_ok [OF \<open>heap_ok R h\<close> this] obtain h' where
    h': "IncrRefCount a h = Some h'" "heap_ok (add_mset a R) h'" "keeps h h'" by blast
  moreover have "\<forall>b \<in># R. obj_value h' b = obj_value h b"
    using keeps_value [OF h'(3,2)] live [OF h'(2)] by fastforce
  ultimately show "\<exists>h'. IncrRefCount a h = Some h' \<and> heap_ok (add_mset a R) h' \<and>
      (\<forall>b \<in># R. obj_value h' b = obj_value h b)" by blast
next
  fix R h a
  assume "heap_ok (add_mset a R) h"
  from DecrRefCount_ok [OF this] obtain h' where
    h': "DecrRefCount a h = Some h'" "heap_ok R h'" "keeps h h'" by blast
  moreover have "\<forall>b \<in># R. obj_value h' b = obj_value h b"
    using keeps_value [OF h'(3,2)] live [OF h'(2)] by fastforce
  ultimately show "\<exists>h'. DecrRefCount a h = Some h' \<and> heap_ok R h' \<and>
      (\<forall>b \<in># R. obj_value h' b = obj_value h b)" by blast
qed

text \<open>A new object without contents of its own is referred to once, and nothing else changes.\<close>

lemma Create_value:
  assumes "heap_ok R h" and "CreateCutisObject p h = (a, h')" and "refs_of p = {#}" and "wf_ptr (objs h) p"
  shows "heap_ok (add_mset a R) h' \<and> obj_value h' a = ptr_value h p \<and>
    (\<forall>b \<in># R. obj_value h' b = obj_value h b) \<and> a \<notin># R \<and>
    objs h' = (objs h)(a \<mapsto> \<lparr>optr = p, refcount = 1\<rparr>)"
proof -
  from CreateCutisObject_ok [of p R h a h'] assms have
    c: "heap_ok (add_mset a R) h'" "objs h' = (objs h)(a \<mapsto> \<lparr>optr = p, refcount = 1\<rparr>)"
      "objs h a = None" by simp_all
  have a: "a \<notin># R" using live [OF assms(1), of a] c(3) by auto
  have "obj_value h' b = obj_value h b" if b: "b \<in># R" for b
  proof -
    from live [OF assms(1) b] obtain x where x: "objs h b = Some x" by blast
    then have "b \<noteq> a" using c(3) by auto
    have "obj_str h' d = obj_str h d" if "d \<in># refs_of (optr x)" for d
      using live_inner [OF assms(1) x that] c by (auto simp: obj_str_def)
    then show ?thesis using ptr_value_cong x c(2) \<open>b \<noteq> a\<close> by (simp add: obj_value_def)
  qed
  moreover have "obj_value h' a = ptr_value h p"
    using c(2) ptr_value_cong [of p h' h] assms(3) by (simp add: obj_value_def)
  ultimately show ?thesis using c a by simp
qed

lemma new_string_ok:
  assumes "heap_ok R h" and "new_string s h = (a, h')"
  shows "heap_ok (add_mset a R) h' \<and> obj_value h' a = VString s \<and>
    (\<forall>b \<in># R. obj_value h' b = obj_value h b) \<and> a \<notin># R"
  using Create_value [OF assms(1), of "OString (Some s)" a h'] assms(2) by (simp add: new_string_def)

text \<open>
  Storing new contents in an object nobody else's contents refer to: references move between the
  outside (\<open>Q\<close> to \<open>Q'\<close>) and the contents.
\<close>

lemma heap_ok_mutate:
  assumes "heap_ok (Q + R) h" and "objs h a = Some o'" and "a \<notin># inner (objs h)"
    and "wf_ptr (objs h) p" and "a \<notin># refs_of p" and "Q + refs_of (optr o') = Q' + refs_of p"
  shows "heap_ok (Q' + R) (h\<lparr>objs := (objs h)(a \<mapsto> o'\<lparr>optr := p\<rparr>)\<rparr>)"
proof -
  let ?M = "objs h" and ?x = "o'\<lparr>optr := p\<rparr>"
  let ?M' = "?M(a \<mapsto> ?x)"
  from assms(1) have ok: "counts_ok (Q + R) ?M" "free_ok h" by (simp_all add: heap_ok_def)
  note okD = counts_okD [OF ok(1)]
  have inn: "inner ?M' + refs_of (optr o') = inner ?M + refs_of p"
    using inner_upd [OF okD(1), of a ?x] assms(2) by simp
  have tot: "Q' + R + inner ?M' = Q + R + inner ?M"
  proof -
    have "(Q' + R + inner ?M') + refs_of (optr o') = (Q' + refs_of p) + R + inner ?M"
      using inn by (simp add: ac_simps)
    also have "\<dots> = (Q + R + inner ?M) + refs_of (optr o')"
      unfolding assms(6) [symmetric] by (simp add: ac_simps)
    finally show ?thesis by simp
  qed
  have wf: "wf_ptr ?M' q" if "wf_ptr ?M q" "a \<notin># refs_of q" for q
    by (rule wf_ptr_cong [OF that(1)]) (use that(2) in auto)
  have "0 < refcount y \<and> refcount y = int (count (Q' + R + inner ?M') b) \<and> wf_ptr ?M' (optr y)"
    if y: "?M' b = Some y" for b y
  proof (cases "b = a")
    case True
    then have "y = ?x" using y by simp
    then show ?thesis using okD(3) [OF assms(2)] wf [OF assms(4,5)] True unfolding tot by simp
  next
    case False
    then have b: "?M b = Some y" using y by simp
    have "a \<notin># refs_of (optr y)" using refs_inner [OF okD(1) b] assms(3) by blast
    then have "wf_ptr ?M' (optr y)" using wf okD(3) [OF b] by blast
    then show ?thesis using okD(3) [OF b] unfolding tot by blast
  qed
  moreover have "set_mset (Q' + R + inner ?M') \<subseteq> dom ?M'"
    using okD(2) unfolding tot by (auto simp: dom_def)
  moreover have "finite (dom ?M')" using okD(1) by simp
  ultimately have "counts_ok (Q' + R) ?M'" unfolding counts_ok_def by blast
  moreover have "free_ok (h\<lparr>objs := ?M'\<rparr>)" using ok(2) assms(2) by (auto simp: free_ok_def)
  ultimately show ?thesis by (simp add: heap_ok_def)
qed

lemma mutate_value:
  assumes "heap_ok R h" and "objs h a = Some o'" and "a \<notin># inner (objs h)" and "a \<notin># refs_of p"
    and "h' = h\<lparr>objs := (objs h)(a \<mapsto> o'\<lparr>optr := p\<rparr>)\<rparr>"
  shows "obj_value h' a = ptr_value h p" and "b \<noteq> a \<Longrightarrow> obj_value h' b = obj_value h b"
proof -
  have str: "obj_str h' d = obj_str h d" if "d \<noteq> a" for d
    using that assms(5) by (simp add: obj_str_def)
  show "obj_value h' a = ptr_value h p"
  proof -
    have "\<forall>b \<in># refs_of p. obj_str h' b = obj_str h b" using str assms(4) by metis
    from ptr_value_cong [OF this] show ?thesis by (simp add: obj_value_def assms(5))
  qed
  show "obj_value h' b = obj_value h b" if "b \<noteq> a"
  proof (cases "objs h b")
    case None
    then show ?thesis using that assms(5) by (simp add: obj_value_def)
  next
    case (Some y)
    have "finite (dom (objs h))" using assms(1) by (simp add: heap_ok_def counts_ok_def)
    then have "\<forall>d \<in># refs_of (optr y). d \<noteq> a" using refs_inner [of "objs h" b y] Some assms(3) by blast
    then show ?thesis using ptr_value_cong [of "optr y" h' h] str Some that assms(5)
      by (simp add: obj_value_def)
  qed
qed

text \<open>Containers hold strings, so no object's contents refer to a container.\<close>

lemma container_not_inner:
  assumes "heap_ok R h" and "objs h a = Some o'" and "\<And>s. optr o' \<noteq> OString (Some s)"
  shows "a \<notin># inner (objs h)"
proof
  assume "a \<in># inner (objs h)"
  then obtain b where "b \<in> dom (objs h)" "a \<in># refs_of (optr (the (objs h b)))"
    using assms(1) by (auto simp: inner_def set_mset_sum heap_ok_def counts_ok_def)
  then obtain y where y: "objs h b = Some y" "a \<in># refs_of (optr y)" by auto
  from live_wf [OF assms(1) y(1)] y(2) have "is_string (objs h) a" by (cases "optr y") auto
  then show False using assms(2,3) by (auto simp: is_string_def)
qed

theorem InitSharedObjects_ok:
  assumes "heap_ok R h" and "InitSharedObjects h = (sh, h')"
  shows "heap_ok (mset (shared_refs sh) + R) h'"
    and "obj_value h' (sh_crlf sh) = VString crlf \<and> obj_value h' (sh_ok sh) = VString (''+OK'' @ crlf) \<and>
      obj_value h' (sh_err sh) = VString (''-ERR'' @ crlf) \<and>
      obj_value h' (sh_zerobulk sh) = VString (''0'' @ crlf @ crlf) \<and>
      obj_value h' (sh_nil sh) = VString (''nil'' @ crlf) \<and> obj_value h' (sh_zero sh) = VString (''0'' @ crlf) \<and>
      obj_value h' (sh_one sh) = VString (''1'' @ crlf) \<and> obj_value h' (sh_pong sh) = VString (''+PONG'' @ crlf)"
proof -
  obtain c h1 where 1: "new_string crlf h = (c, h1)" by force
  obtain k h2 where 2: "new_string (''+OK'' @ crlf) h1 = (k, h2)" by force
  obtain e h3 where 3: "new_string (''-ERR'' @ crlf) h2 = (e, h3)" by force
  obtain b h4 where 4: "new_string (''0'' @ crlf @ crlf) h3 = (b, h4)" by force
  obtain n h5 where 5: "new_string (''nil'' @ crlf) h4 = (n, h5)" by force
  obtain z h6 where 6: "new_string (''0'' @ crlf) h5 = (z, h6)" by force
  obtain i h7 where 7: "new_string (''1'' @ crlf) h6 = (i, h7)" by force
  obtain p h8 where 8: "new_string (''+PONG'' @ crlf) h7 = (p, h8)" by force
  have "InitSharedObjects h = (\<lparr>sh_crlf = c, sh_ok = k, sh_err = e, sh_zerobulk = b, sh_nil = n,
      sh_zero = z, sh_one = i, sh_pong = p\<rparr>, h8)"
    by (simp only: InitSharedObjects_def Let_def 1 2 3 4 5 6 7 8 prod.case)
  with assms(2) have r: "sh = \<lparr>sh_crlf = c, sh_ok = k, sh_err = e, sh_zerobulk = b, sh_nil = n,
      sh_zero = z, sh_one = i, sh_pong = p\<rparr>" "h' = h8" by simp_all
  note s1 = new_string_ok [OF assms(1) 1]
  note s2 = new_string_ok [OF s1 [THEN conjunct1] 2]
  note s3 = new_string_ok [OF s2 [THEN conjunct1] 3]
  note s4 = new_string_ok [OF s3 [THEN conjunct1] 4]
  note s5 = new_string_ok [OF s4 [THEN conjunct1] 5]
  note s6 = new_string_ok [OF s5 [THEN conjunct1] 6]
  note s7 = new_string_ok [OF s6 [THEN conjunct1] 7]
  note s8 = new_string_ok [OF s7 [THEN conjunct1] 8]
  show "heap_ok (mset (shared_refs sh) + R) h'"
    using s8 r by (simp add: shared_refs_def add_mset_commute)
  show "obj_value h' (sh_crlf sh) = VString crlf \<and> obj_value h' (sh_ok sh) = VString (''+OK'' @ crlf) \<and>
      obj_value h' (sh_err sh) = VString (''-ERR'' @ crlf) \<and>
      obj_value h' (sh_zerobulk sh) = VString (''0'' @ crlf @ crlf) \<and>
      obj_value h' (sh_nil sh) = VString (''nil'' @ crlf) \<and> obj_value h' (sh_zero sh) = VString (''0'' @ crlf) \<and>
      obj_value h' (sh_one sh) = VString (''1'' @ crlf) \<and> obj_value h' (sh_pong sh) = VString (''+PONG'' @ crlf)"
    unfolding r using s1 s2 s3 s4 s5 s6 s7 s8 by simp
qed

text \<open>The tables of the databases as maps.\<close>

lemma sds_type_dup [simp]: "DictSetHashKey sdsDictType k = k" "DictSetHashVal sdsDictType v = v"
  by (simp_all add: DictSetHashKey_def DictSetHashVal_def sdsDictType_def)

lemma dict_finds:
  assumes "dict_ok sdsDictType (\<lambda>k. k) d"
  shows "\<exists>e. DictFind sdsDictType k d = Some e \<and> map_option snd e = dict_map (\<lambda>k. k) d k"
  using db.DictFind_ok [OF assms] by blast

lemma db_insert_lookup:
  assumes "dict_ok sdsDictType (\<lambda>k. k) d" and "unat (d_used d) < 2 ^ 27"
  shows "\<exists>r d'. DictAdd sdsDictType k a d = Some (r, d') \<and> dict_ok sdsDictType (\<lambda>k. k) d' \<and>
    (if dict_map (\<lambda>k. k) d k = None
     then r = DICT_OK \<and> dict_map (\<lambda>k. k) d' = (dict_map (\<lambda>k. k) d)(k \<mapsto> a)
     else r = DICT_ERR \<and> dict_map (\<lambda>k. k) d' = dict_map (\<lambda>k. k) d) \<and>
    (\<forall>k'. \<exists>e. DictFind sdsDictType k' d' = Some e \<and> map_option snd e = dict_map (\<lambda>k. k) d' k')"
proof -
  from db.DictAdd_ok [OF assms] obtain r d' where d': "DictAdd sdsDictType k a d = Some (r, d')"
    "dict_ok sdsDictType (\<lambda>k. k) d'"
    "if k \<in> dom (dict_map (\<lambda>k. k) d) then r = DICT_ERR \<and> mset (entries d') = mset (entries d)
     else r = DICT_OK \<and> mset (entries d') = add_mset (k, a) (mset (entries d))"
    unfolding sds_type_dup by blast
  note t = dict_ok_tableD(3) [OF d'(2)]
  show ?thesis
  proof (cases "dict_map (\<lambda>k. k) d k")
    case None
    then have "mset (entries d') = add_mset (k, a) (mset (entries d))" "r = DICT_OK" using d'(3) by (simp_all split: if_splits add: domIff)
    with dict_map_cons [OF this(1) t] d'(1,2) None dict_finds [OF d'(2)] show ?thesis by auto
  next
    case Some
    then have "mset (entries d') = mset (entries d)" "r = DICT_ERR" using d'(3) by (simp_all split: if_splits add: domIff)
    with dict_map_perm [OF this(1) t] d'(1,2) Some dict_finds [OF d'(2)] show ?thesis by auto
  qed
qed

lemma db_delete_map:
  assumes "dict_ok sdsDictType (\<lambda>k. k) d"
  shows "case dict_map (\<lambda>k. k) d k of
      None \<Rightarrow> DictDelete sdsDictType k d h = Some (DICT_ERR, d, h)
    | Some a \<Rightarrow> \<exists>d'. DictDelete sdsDictType k d h = map_option (\<lambda>h. (DICT_OK, d', h)) (DecrRefCount a h) \<and>
        dict_ok sdsDictType (\<lambda>k. k) d' \<and> dict_map (\<lambda>k. k) d' = (dict_map (\<lambda>k. k) d)(k := None)"
proof (cases "dict_map (\<lambda>k. k) d k")
  case None
  then show ?thesis using db.DictGenericDelete_ok [OF assms, of k False h] by (simp add: DictDelete_def)
next
  case (Some a)
  with db.DictGenericDelete_ok [OF assms, of k False h] obtain d' where
    d': "DictGenericDelete sdsDictType k False d h = map_option (\<lambda>h. (DICT_OK, d', h))
        (DictFreeEntryKey sdsDictType k h \<bind> DictFreeEntryVal sdsDictType a)"
      "dict_ok sdsDictType (\<lambda>k. k) d'" "mset (entries d) = add_mset (k, a) (mset (entries d'))" by auto
  have "DictFreeEntryKey sdsDictType k h \<bind> DictFreeEntryVal sdsDictType a = DecrRefCount a h"
    by (simp add: DictFreeEntryKey_def DictFreeEntryVal_def sdsDictType_def)
  then show ?thesis using Some d' dict_map_uncons [OF d'(3) dict_ok_tableD(3) [OF assms]]
    by (auto simp: DictDelete_def)
qed

lemma resize_keeps_map:
  assumes "dict_ok ty canon d" and "unat (d_used d) \<le> 2 ^ 27"
  shows "\<exists>d' m. DictResize ty d = Some (DICT_OK, d') \<and> dict_ok ty canon d' \<and>
    mset (entries d') = mset (entries d) \<and> dict_map canon d' = dict_map canon d \<and> d_size d' = 2 ^ m \<and>
    (m = 4 \<or> 2 ^ (m - 1) < unat (d_used d))"
proof -
  from DictResize_ok [OF assms] obtain d' m where d': "DictResize ty d = Some (DICT_OK, d')" "dict_ok ty canon d'"
    "mset (entries d') = mset (entries d)" "d_size d' = 2 ^ m" "m = 4 \<or> 2 ^ (m - 1) < unat (d_used d)" by blast
  from dict_map_perm [OF d'(3) dict_ok_tableD(3) [OF d'(2)]] d' show ?thesis by blast
qed

end
