(* ===== verification/Server_State.thy ===== *)
theory Server_State
  imports Object Ae
begin

text \<open>
  The state of the program: the server (\<open>server.h\<close>), a client (\<open>client.h\<close>), the world outside, and
  the operations of \<open>client.c\<close> that every command uses: replies, the selected database, the
  argument vector.

  Functions that are given a client take it out of the table of clients while they run: they act
  on the client \<open>c\<close> and the server \<open>s\<close> side by side. A client that was freed is gone, so nothing can
  be done with it afterwards.
\<close>

section \<open>The world\<close>

text \<open>
  The result of the n-th system call is \<open>sys n\<close>, the numbers a run of \<open>random()\<close> yields at that
  point are \<open>rands n\<close>, and what \<open>read\<close> finds on a socket is \<open>reads n\<close>; \<open>calls\<close> counts the calls.
  \<open>files\<close> are the contents of the files by name.
\<close>

text \<open>\<open>Data []\<close> is the end of the connection; \<open>WouldBlock\<close> is \<open>EAGAIN\<close>.\<close>

datatype read_result = Data string | WouldBlock | ReadError

record world =
  sys :: "nat \<Rightarrow> int"
  rands :: "nat \<Rightarrow> nat \<Rightarrow> u32"
  reads :: "nat \<Rightarrow> read_result"
  calls :: nat
  files :: "string \<rightharpoonup> string"
  wire :: "int \<Rightarrow> string"

definition sys_call :: "world \<Rightarrow> int \<times> world" where
  "sys_call w = (sys w (calls w), w\<lparr>calls := Suc (calls w)\<rparr>)"

section \<open>Client and server\<close>

definition CUTIS_OK :: int where "CUTIS_OK = 0"
definition CUTIS_ERR :: int where "CUTIS_ERR = -1"
definition CUTIS_AGAIN :: int where "CUTIS_AGAIN = 1"
definition CUTIS_QUERY_BUF_LEN :: nat where "CUTIS_QUERY_BUF_LEN = 1024"
definition CUTIS_MAX_ARGS :: nat where "CUTIS_MAX_ARGS = 16"
definition CUTIS_MAX_STRING_LENGTH :: int where "CUTIS_MAX_STRING_LENGTH = 1024 * 1024 * 1024"

text \<open>
  \<open>c_id\<close> is the pointer to the client. \<open>argv\<close> holds the \<open>argc\<close> first entries of the array of the
  same name; an entry is NULL once the string has a new owner. \<open>c_db\<close> is the index of the database
  the pointer \<open>dict\<close> points to.
\<close>

record CutisClient =
  c_id :: addr
  c_fd :: int
  query_buf :: string
  reply :: "addr list"
  sent_len :: int
  last_interaction :: int
  argv :: "string option list"
  bulk_len :: int
  c_db :: nat

abbreviation argc :: "CutisClient \<Rightarrow> nat" where
  "argc c \<equiv> length (argv c)"

datatype handler = AcceptProc | ReadProc | SendProc
datatype timer = CronProc

record SaveParam =
  sp_seconds :: int
  sp_changes :: int

text \<open>\<open>clients\<close> is the list of client pointers, \<open>client_at\<close> the memory they point to.\<close>

record CutisServer =
  heap :: heap
  shared :: SharedObject
  dict :: "(string, addr) Dict list"
  dirty :: int
  last_save :: int
  bg_saving :: bool
  save_params :: "SaveParam list"
  cron_loops :: int
  clients :: "addr list"
  client_at :: "addr \<rightharpoonup> CutisClient"
  el :: "(handler, timer, addr) AeEventLoop"
  port :: int
  listen_fd :: int
  max_idle_time :: int
  db_num :: int
  verbosity :: int
  log_file :: "string option"
  world :: world

type_synonym cmd = "CutisClient \<Rightarrow> CutisServer \<Rightarrow> (CutisClient \<times> CutisServer) option"

definition syscall :: "CutisServer \<Rightarrow> int \<times> CutisServer" where
  "syscall s = (let (x, w) = sys_call (world s) in (x, s\<lparr>world := w\<rparr>))"

text \<open>An argument that is not there, or has been given away, cannot be used.\<close>

definition arg :: "nat \<Rightarrow> CutisClient \<Rightarrow> string option" where
  "arg i c = (if i < argc c then argv c ! i else None)"

definition take_arg :: "nat \<Rightarrow> CutisClient \<Rightarrow> CutisClient" where
  "take_arg i c = c\<lparr>argv := (argv c)[i := None]\<rparr>"

section \<open>Operations every command uses\<close>

definition AddReply :: "addr \<Rightarrow> cmd" where
  "AddReply a c s =
     (let s = (if reply c = []
               then s\<lparr>el := snd (AeCreateFileEvent (el s) (c_fd c) AE_WRITABLE SendProc (c_id c))\<rparr>
               else s);
          c = c\<lparr>reply := reply c @ [a]\<rparr>
      in do { h \<leftarrow> IncrRefCount a (heap s); Some (c, s\<lparr>heap := h\<rparr>) })"

definition AddReplySds :: "string \<Rightarrow> cmd" where
  "AddReplySds txt c s =
     (let (a, h) = CreateCutisObject (OString (Some txt)) (heap s);
          s = s\<lparr>heap := h\<rparr>
      in do { (c, s) \<leftarrow> AddReply a c s;
              h \<leftarrow> DecrRefCount a (heap s);
              Some (c, s\<lparr>heap := h\<rparr>) })"

definition FreeClientArgv :: "CutisClient \<Rightarrow> CutisClient" where
  "FreeClientArgv c = c\<lparr>argv := []\<rparr>"

definition ResetClient :: "CutisClient \<Rightarrow> CutisClient" where
  "ResetClient c = (FreeClientArgv c)\<lparr>bulk_len := -1\<rparr>"

definition SelectDB :: "CutisClient \<Rightarrow> int \<Rightarrow> CutisServer \<Rightarrow> int \<times> CutisClient" where
  "SelectDB c i s = (if i < 0 \<or> i \<ge> db_num s then (CUTIS_ERR, c) else (CUTIS_OK, c\<lparr>c_db := nat i\<rparr>))"

text \<open>The database of a client, and putting a changed one back.\<close>

definition db_of :: "CutisClient \<Rightarrow> CutisServer \<Rightarrow> (string, addr) Dict option" where
  "db_of c s = nth_opt (dict s) (c_db c)"

definition put_db :: "nat \<Rightarrow> (string, addr) Dict \<Rightarrow> CutisServer \<Rightarrow> CutisServer" where
  "put_db i d s = s\<lparr>dict := (dict s)[i := d]\<rparr>"

text \<open>
  \<open>FreeClient\<close>: the client is out of the table already. Its replies are released, its descriptor
  closed, its pointer taken off the list of clients, where the code asserts it is.
\<close>

definition FreeClient :: "CutisClient \<Rightarrow> CutisServer \<Rightarrow> CutisServer option" where
  "FreeClient c s =
     (let el1 = AeDeleteFileEvent (el s) (c_fd c) AE_READABLE;
          el2 = AeDeleteFileEvent el1 (c_fd c) AE_WRITABLE
      in do { h \<leftarrow> foldM DecrRefCount (reply c) (heap s);
              guard (c_id c \<in> set (clients s));
              Some (s\<lparr>el := el2, heap := h, clients := remove1 (c_id c) (clients s)\<rparr>) })"

section \<open>Who holds references\<close>

text \<open>
  The shared objects, the values of the databases and the replies waiting at the clients; for a
  client that is being served, its replies come on top of those in the table.
\<close>

definition db_refs :: "CutisServer \<Rightarrow> addr multiset" where
  "db_refs s = mset (concat (map (\<lambda>d. map snd (entries d)) (dict s)))"

definition waiting :: "CutisServer \<Rightarrow> addr multiset" where
  "waiting s = mset (concat (map (\<lambda>p. case client_at s p of None \<Rightarrow> [] | Some c \<Rightarrow> reply c) (clients s)))"

definition server_refs :: "CutisServer \<Rightarrow> addr multiset" where
  "server_refs s = mset (shared_refs (shared s)) + db_refs s + waiting s"

text \<open>The texts of the shared objects.\<close>

definition shared_ok :: "CutisServer \<Rightarrow> bool" where
  "shared_ok s \<longleftrightarrow>
     (let v = obj_value (heap s); sh = shared s in
      v (sh_crlf sh) = VString crlf \<and> v (sh_ok sh) = VString (''+OK'' @ crlf) \<and>
      v (sh_err sh) = VString (''-ERR'' @ crlf) \<and> v (sh_zerobulk sh) = VString (''0'' @ crlf @ crlf) \<and>
      v (sh_nil sh) = VString (''nil'' @ crlf) \<and> v (sh_zero sh) = VString (''0'' @ crlf) \<and>
      v (sh_one sh) = VString (''1'' @ crlf) \<and> v (sh_pong sh) = VString (''+PONG'' @ crlf))"

definition dbs_ok :: "CutisServer \<Rightarrow> bool" where
  "dbs_ok s \<longleftrightarrow> db_num s = int (length (dict s)) \<and> dict s \<noteq> [] \<and>
     (\<forall>d \<in> set (dict s). dict_ok sdsDictType (\<lambda>k. k) d) \<and>
     (\<forall>a \<in># db_refs s. obj_value (heap s) a \<noteq> VNull)"

text \<open>
  The invariant while a client \<open>c\<close> is served; \<open>X\<close> are the references the running code holds. Between
  commands there are none. \<open>addr_map\<close> is a database as a map to objects; no object is the value of
  two keys.
\<close>

definition addr_map :: "CutisServer \<Rightarrow> nat \<Rightarrow> string \<rightharpoonup> addr" where
  "addr_map s i = (if i < length (dict s) then dict_map (\<lambda>k. k) (dict s ! i) else Map.empty)"

definition db_inj :: "CutisServer \<Rightarrow> bool" where
  "db_inj s \<longleftrightarrow> (\<forall>i j k k' a. addr_map s i k = Some a \<longrightarrow> addr_map s j k' = Some a \<longrightarrow> i = j \<and> k = k')"

definition all_refs :: "addr multiset \<Rightarrow> CutisClient \<Rightarrow> CutisServer \<Rightarrow> addr multiset" where
  "all_refs X c s = X + mset (reply c) + server_refs s"

definition serving :: "addr multiset \<Rightarrow> CutisClient \<Rightarrow> CutisServer \<Rightarrow> bool" where
  "serving X c s \<longleftrightarrow> heap_ok (all_refs X c s) (heap s) \<and> shared_ok s \<and> dbs_ok s \<and>
     c_db c < length (dict s) \<and>
     (\<forall>a \<in># mset (reply c) + waiting s. \<exists>t. obj_value (heap s) a = VString t)"

section \<open>What the clients see\<close>

text \<open>The contents of the databases, and the text waiting for a client.\<close>

type_synonym keyspace = "nat \<Rightarrow> string \<rightharpoonup> cvalue"

definition keyspace :: "CutisServer \<Rightarrow> keyspace" where
  "keyspace s i k = map_option (obj_value (heap s)) (addr_map s i k)"

fun text_of :: "cvalue \<Rightarrow> string" where
  "text_of (VString t) = t"
| "text_of _ = []"

definition pending :: "CutisClient \<Rightarrow> CutisServer \<Rightarrow> string" where
  "pending c s = concat (map (text_of \<circ> obj_value (heap s)) (reply c))"

section \<open>Replies\<close>

lemma AddReply_ok:
  assumes "heap_ok R (heap s)" and "objs (heap s) a = Some o'"
  shows "\<exists>h e. AddReply a c s = Some (c\<lparr>reply := reply c @ [a]\<rparr>, s\<lparr>heap := h, el := e\<rparr>) \<and>
    heap_ok (add_mset a R) h \<and> keeps h (heap s)"
proof -
  from IncrRefCount_ok [OF assms] obtain h where h: "IncrRefCount a (heap s) = Some h"
    "heap_ok (add_mset a R) h" "keeps h (heap s)" by blast
  let ?e = "if reply c = []
    then snd (AeCreateFileEvent (el s) (c_fd c) AE_WRITABLE SendProc (c_id c)) else el s"
  have "AddReply a c s = Some (c\<lparr>reply := reply c @ [a]\<rparr>, s\<lparr>heap := h, el := ?e\<rparr>)"
    using h(1) by (simp add: AddReply_def Let_def)
  with h show ?thesis by blast
qed

lemma AddReplySds_ok:
  assumes "heap_ok R (heap s)"
  shows "\<exists>a h e. AddReplySds txt c s = Some (c\<lparr>reply := reply c @ [a]\<rparr>, s\<lparr>heap := h, el := e\<rparr>) \<and>
    heap_ok (add_mset a R) h \<and> obj_value h a = VString txt \<and> keeps h (heap s)"
proof -
  obtain a h1 where n: "new_string txt (heap s) = (a, h1)" by force
  from new_string_ok [OF assms n] have n1: "heap_ok (add_mset a R) h1" "obj_value h1 a = VString txt" by auto
  have k1: "keeps h1 (heap s)"
    using CreateCutisObject_ok [of "OString (Some txt)" R "heap s" a h1] assms n
    by (auto simp: keeps_def new_string_def)
  from value_live [of h1 a] n1(2) obtain o' where o': "objs (heap (s\<lparr>heap := h1\<rparr>)) a = Some o'" by auto
  from AddReply_ok [OF _ o', of "add_mset a R" c] n1(1) obtain h2 e where
    h2: "AddReply a c (s\<lparr>heap := h1\<rparr>) = Some (c\<lparr>reply := reply c @ [a]\<rparr>, s\<lparr>heap := h2, el := e\<rparr>)"
      "heap_ok (add_mset a (add_mset a R)) h2" "keeps h2 h1" by auto
  from store.decr_law [OF h2(2)] obtain h3 where h3: "DecrRefCount a h2 = Some h3"
    "heap_ok (add_mset a R) h3" "\<forall>b \<in># add_mset a R. obj_value h3 b = obj_value h2 b" by blast
  have "AddReplySds txt c s = Some (c\<lparr>reply := reply c @ [a]\<rparr>, s\<lparr>heap := h3, el := e\<rparr>)"
    using n h2(1) h3(1) by (simp add: AddReplySds_def new_string_def)
  moreover have "obj_value h3 a = VString txt"
    using n1(2) h3(3) kept_value [OF h2(3) n1(1)] o' by simp
  moreover have "keeps h3 (heap s)"
    using decr_kept [OF h2(2) _ h3(1)] h2(3) k1 by (auto intro: keeps_trans)
  ultimately show ?thesis using h3(2) by blast
qed

text \<open>
  A run of replies: from \<open>(c, s)\<close> on, the client has been told \<open>txt\<close> in new replies, and nothing else
  has changed but reference counts and the registration for writing. \<open>R\<close> are the references that
  were held at the start.
\<close>

definition said ::
  "addr multiset \<Rightarrow> CutisClient \<Rightarrow> CutisServer \<Rightarrow> string \<Rightarrow> CutisClient \<Rightarrow> CutisServer \<Rightarrow> bool"
where
  "said R c s txt c' s' \<longleftrightarrow>
     (\<exists>as h e. c' = c\<lparr>reply := reply c @ as\<rparr> \<and> s' = s\<lparr>heap := h, el := e\<rparr> \<and> heap_ok (mset as + R) h \<and>
       keeps h (heap s) \<and>
       (\<forall>a \<in> set as. \<exists>t. obj_value h a = VString t) \<and>
       concat (map (text_of \<circ> obj_value h) as) = txt)"

lemma said_refl: "heap_ok R (heap s) \<Longrightarrow> said R c s [] c s"
  unfolding said_def by (intro exI [of _ "[]"] exI [of _ "heap s"] exI [of _ "el s"]) simp

text \<open>One more reply: \<open>a\<close> has the text \<open>t\<close>, and what was there has stayed.\<close>

lemma said_extend:
  assumes "said R c s txt c1 s1" and "s2 = s1\<lparr>heap := h2, el := e2\<rparr>"
    and "heap_ok (add_mset a (mset (drop (length (reply c)) (reply c1)) + R)) h2"
    and "keeps h2 (heap s1)" and "obj_value h2 a = VString t"
  shows "said R c s (txt @ t) (c1\<lparr>reply := reply c1 @ [a]\<rparr>) s2"
proof -
  from assms(1) obtain as h e where s1: "c1 = c\<lparr>reply := reply c @ as\<rparr>" "s1 = s\<lparr>heap := h, el := e\<rparr>"
    "heap_ok (mset as + R) h" "keeps h (heap s)"
    "\<forall>a \<in> set as. \<exists>t. obj_value h a = VString t" "concat (map (text_of \<circ> obj_value h) as) = txt"
    unfolding said_def by blast
  have v: "obj_value h2 b = obj_value h b" if "b \<in> set as" for b
    using kept_value [of h2 h] assms(4) s1(2,3) live [OF s1(3), of b] that by auto
  then have "map (text_of \<circ> obj_value h2) as = map (text_of \<circ> obj_value h) as" by simp
  then have "concat (map (text_of \<circ> obj_value h2) as) = txt" using s1(6) by metis
  then show ?thesis
    unfolding said_def using s1 assms(2-5) v keeps_trans [of h2 h "heap s"]
    by (intro exI [of _ "as @ [a]"] exI [of _ h2] exI [of _ e2]) auto
qed

lemma said_heap_ok:
  "said R c s txt c1 s1 \<Longrightarrow> heap_ok (mset (drop (length (reply c)) (reply c1)) + R) (heap s1)"
  by (auto simp: said_def)

lemma said_keeps: "said R c s txt c1 s1 \<Longrightarrow> keeps (heap s1) (heap s)"
  by (auto simp: said_def)

lemma said_value:
  assumes "said R c s txt c1 s1" and "heap_ok R (heap s)" and "obj_value (heap s) a \<noteq> VNull"
  shows "obj_value (heap s1) a = obj_value (heap s) a"
proof -
  from value_live [OF assms(3)] obtain o' where "objs (heap s) a = Some o'" ..
  from kept_value [OF said_keeps [OF assms(1)] assms(2) this] show ?thesis .
qed

lemma said_reply:
  assumes "said R c s txt c1 s1" and "heap_ok R (heap s)" and "obj_value (heap s) a = VString t"
  shows "\<exists>c2 s2. AddReply a c1 s1 = Some (c2, s2) \<and> said R c s (txt @ t) c2 s2"
proof -
  have v: "obj_value (heap s1) a = VString t" using said_value [OF assms(1,2), of a] assms(3) by simp
  with value_live [of "heap s1" a] obtain o' where o': "objs (heap s1) a = Some o'" by auto
  from AddReply_ok [OF said_heap_ok [OF assms(1)] o', of c1] obtain h2 e2 where
    h2: "AddReply a c1 s1 = Some (c1\<lparr>reply := reply c1 @ [a]\<rparr>, s1\<lparr>heap := h2, el := e2\<rparr>)"
      "heap_ok (add_mset a (mset (drop (length (reply c)) (reply c1)) + R)) h2" "keeps h2 (heap s1)" by auto
  have "obj_value h2 a = VString t" using kept_value [OF h2(3) said_heap_ok [OF assms(1)] o'] v by simp
  from said_extend [OF assms(1) refl h2(2,3) this] h2(1) show ?thesis by blast
qed

lemma said_sds:
  assumes "said R c s txt c1 s1"
  shows "\<exists>c2 s2. AddReplySds t c1 s1 = Some (c2, s2) \<and> said R c s (txt @ t) c2 s2"
proof -
  from AddReplySds_ok [OF said_heap_ok [OF assms], of t c1] obtain a h2 e2 where
    h2: "AddReplySds t c1 s1 = Some (c1\<lparr>reply := reply c1 @ [a]\<rparr>, s1\<lparr>heap := h2, el := e2\<rparr>)"
      "heap_ok (add_mset a (mset (drop (length (reply c)) (reply c1)) + R)) h2"
      "obj_value h2 a = VString t" "keeps h2 (heap s1)" by auto
  from said_extend [OF assms refl h2(2,4,3)] h2(1) show ?thesis by blast
qed

end
