(* ===== verification/Persist.thy ===== *)
theory Persist
  imports Server_State
begin

text \<open>
  Saving and loading the databases (\<open>SaveDB\<close>, \<open>SaveDBBackground\<close>, \<open>LoadDB\<close> of \<open>server.c\<close>). The
  sequence of \<open>fwrite\<close> calls of \<open>SaveDB\<close> is the list \<open>save_chunks\<close>; each call may take less than it
  was given, and what it takes may stay in the buffer of the stream until \<open>fclose\<close>. \<open>LoadDB\<close> reads the same format and ends the process on anything it cannot use.
\<close>

section \<open>The file format\<close>

definition CUTIS_DB_NAME :: string where "CUTIS_DB_NAME = ''dump.cdb''"
definition CUTIS_DB_SIGNATURE :: string where "CUTIS_DB_SIGNATURE = ''CUTIS0000''"
definition CUTIS_SELECT_DB :: nat where "CUTIS_SELECT_DB = 254"
definition CUTIS_EOF :: nat where "CUTIS_EOF = 255"

definition byte :: "nat \<Rightarrow> char" where
  "byte n = char_of (n mod 256)"

text \<open>\<open>htonl\<close> of a length, as it lies in memory.\<close>

definition be32 :: "nat \<Rightarrow> string" where
  "be32 n = [byte (n div 2 ^ 24), byte (n div 2 ^ 16), byte (n div 2 ^ 8), byte n]"

text \<open>
  One call of \<open>fwrite\<close>: one item of the given bytes, which counts only when it is written whole, or
  that many items of one byte, of which any positive number counts as success.
\<close>

datatype chunk = Item string | Bytes string

fun chunk_bytes :: "chunk \<Rightarrow> string" where
  "chunk_bytes (Item x) = x"
| "chunk_bytes (Bytes x) = x"

fun mapM :: "('a \<Rightarrow> 'b option) \<Rightarrow> 'a list \<Rightarrow> 'b list option" where
  "mapM f [] = Some []"
| "mapM f (x # xs) = do { y \<leftarrow> f x; ys \<leftarrow> mapM f xs; Some (y # ys) }"

definition string_at :: "heap \<Rightarrow> addr \<Rightarrow> string option" where
  "string_at h a = do { o' \<leftarrow> objs h a; (case optr o' of OString s \<Rightarrow> s | _ \<Rightarrow> None) }"

definition save_string :: "string \<Rightarrow> chunk list" where
  "save_string s = Item (be32 (length s)) # (if s = [] then [] else [Bytes s])"

definition save_value :: "heap \<Rightarrow> optr \<Rightarrow> chunk list option" where
  "save_value h p =
     (case p of
        OString s \<Rightarrow> map_option save_string s
      | OList l \<Rightarrow>
          do { ss \<leftarrow> mapM (string_at h) l;
               Some (Item (be32 (length l)) # concat (map save_string ss)) }
      | OSet d \<Rightarrow>
          do { es \<leftarrow> dict_iterate d;
               ss \<leftarrow> mapM (\<lambda>e. string_at h (fst e)) es;
               Some (Item (be32 (unat (d_used d))) # concat (map save_string ss)) })"

definition save_entry :: "heap \<Rightarrow> string \<times> addr \<Rightarrow> chunk list option" where
  "save_entry h e =
     do { o' \<leftarrow> objs h (snd e);
          v \<leftarrow> save_value h (optr o');
          Some ([Item [byte (nat (otype (optr o')))], Item (be32 (length (fst e))), Bytes (fst e)] @ v) }"

definition save_db :: "heap \<Rightarrow> nat \<times> (string, addr) Dict \<Rightarrow> chunk list option" where
  "save_db h jd =
     (if d_used (snd jd) = 0 then Some []
      else do { es \<leftarrow> dict_iterate (snd jd);
                cs \<leftarrow> mapM (save_entry h) es;
                Some ([Item [byte CUTIS_SELECT_DB], Item (be32 (fst jd))] @ concat cs) })"

definition save_chunks :: "CutisServer \<Rightarrow> chunk list option" where
  "save_chunks s =
     do { dbs \<leftarrow> mapM (save_db (heap s)) (List.enumerate 0 (dict s));
          Some (Item CUTIS_DB_SIGNATURE # concat dbs @ [Item [byte CUTIS_EOF]]) }"

section \<open>Saving\<close>

definition set_file :: "string \<Rightarrow> string option \<Rightarrow> CutisServer \<Rightarrow> CutisServer" where
  "set_file name content s = s\<lparr>world := (world s)\<lparr>files := (files (world s))(name := content)\<rparr>\<rparr>"

text \<open>
  A stream open for writing holds the bytes that were taken and have not reached the file. The library
  tries to write them out after every \<open>fwrite\<close> and when the stream is closed; the system call says how
  many of them reach the file, the others stay in the buffer.
\<close>

definition flush :: "string \<Rightarrow> string \<Rightarrow> CutisServer \<Rightarrow> string \<times> CutisServer" where
  "flush name buf s =
     (let (r, s) = syscall s;
          n = min (nat r) (length buf)
      in (drop n buf, set_file name (map_option (\<lambda>old. old @ take n buf) (files (world s) name)) s))"

text \<open>The first call says how many bytes are taken.\<close>

definition fwrite :: "string \<Rightarrow> chunk \<Rightarrow> string \<Rightarrow> CutisServer \<Rightarrow> bool \<times> string \<times> CutisServer" where
  "fwrite name ch buf s =
     (let x = chunk_bytes ch;
          (r, s) = syscall s;
          n = min (nat r) (length x);
          (buf, s) = flush name (buf @ take n x) s
      in (case ch of Item x \<Rightarrow> n = length x | Bytes x \<Rightarrow> n \<noteq> 0, buf, s))"

fun fwrites :: "string \<Rightarrow> chunk list \<Rightarrow> string \<Rightarrow> CutisServer \<Rightarrow> bool \<times> string \<times> CutisServer" where
  "fwrites name [] buf s = (True, buf, s)"
| "fwrites name (ch # chs) buf s =
     (let (ok, buf, s) = fwrite name ch buf s in if ok then fwrites name chs buf s else (False, buf, s))"

text \<open>\<open>fclose\<close> says whether everything reached the file. What did not is lost.\<close>

definition fclose :: "string \<Rightarrow> string \<Rightarrow> CutisServer \<Rightarrow> bool \<times> CutisServer" where
  "fclose name buf s = (let (lost, s) = flush name buf s in (lost = [], s))"

definition tmp_name :: "int \<Rightarrow> int \<Rightarrow> string" where
  "tmp_name now rnd = ''dump-'' @ show_int (as_int now) @ ''.'' @ show_int rnd @ ''.cdb''"

definition SaveDB :: "string \<Rightarrow> CutisServer \<Rightarrow> (int \<times> CutisServer) option" where
  "SaveDB filename s =
     (let (now, s) = syscall s;
          (rnd, s) = syscall s;
          tmpfile = tmp_name now rnd;
          (opened, s) = syscall s
      in if opened = 0 then Some (CUTIS_ERR, s)
         else do {
           let s = set_file tmpfile (Some []) s;
           chs \<leftarrow> save_chunks s;
           let (ok, buf, s) = fwrites tmpfile chs [] s;
           let (closed, s) = fclose tmpfile buf s;
           if \<not> ok then Some (CUTIS_ERR, set_file tmpfile None s)
           else
             (let (renamed, s) = syscall s in
              if renamed = -1 then Some (CUTIS_ERR, set_file tmpfile None s)
              else
                (let s = set_file tmpfile None (set_file filename (files (world s) tmpfile) s);
                     (now, s) = syscall s
                 in Some (CUTIS_OK, s\<lparr>dirty := 0, last_save := now\<rparr>))) })"

text \<open>
  \<open>fork\<close> returns twice: in the parent \<open>SaveDBBackground\<close> goes on (with any result but 0), in the
  child \<open>bgsave_child\<close> saves and ends with its exit code.
\<close>

definition SaveDBBackground :: "string \<Rightarrow> CutisServer \<Rightarrow> int \<times> CutisServer" where
  "SaveDBBackground filename s =
     (if bg_saving s then (CUTIS_ERR, s)
      else let (child, s) = syscall s in (CUTIS_OK, s\<lparr>bg_saving := True\<rparr>))"

definition bgsave_child :: "string \<Rightarrow> CutisServer \<Rightarrow> (int \<times> world) option" where
  "bgsave_child filename s =
     do { (r, s) \<leftarrow> SaveDB filename s; Some (if r = CUTIS_OK then 0 else 1, world s) }"

section \<open>Loading\<close>

text \<open>
  The three ways on: undefined behaviour, the end of the process (\<open>exit(1)\<close>, and \<open>abort\<close> in
  \<open>CutisOom\<close> and \<open>assert(0)\<close>), and a value.
\<close>

definition and_then :: "'a outcome option \<Rightarrow> ('a \<Rightarrow> 'b outcome option) \<Rightarrow> 'b outcome option" where
  "and_then m f =
     (case m of None \<Rightarrow> None | Some Exit \<Rightarrow> Some Exit | Some (Returns x) \<Rightarrow> f x)"

lemma and_then_simps [simp]:
  "and_then None f = None" "and_then (Some Exit) f = Some Exit" "and_then (Some (Returns x)) f = f x"
  by (simp_all add: and_then_def)

text \<open>Four bytes as one item; \<open>n\<close> items of one byte, where fewer leave part of the buffer unset.\<close>

definition read_u32 :: "string \<Rightarrow> (nat \<times> string) outcome option" where
  "read_u32 r =
     (case r of
        a # b # c # d # r \<Rightarrow>
          Some (Returns (of_char a * 2 ^ 24 + of_char b * 2 ^ 16 + of_char c * 2 ^ 8 + of_char d, r))
      | _ \<Rightarrow> Some Exit)"

definition read_bytes :: "nat \<Rightarrow> string \<Rightarrow> (string \<times> string) outcome option" where
  "read_bytes n r =
     (if n = 0 \<or> r = [] then Some Exit
      else if length r < n then None
      else Some (Returns (take n r, drop n r)))"

text \<open>A length and that many bytes; here a length of 0 is accepted.\<close>

definition read_value :: "string \<Rightarrow> (string \<times> string) outcome option" where
  "read_value r =
     and_then (read_u32 r) (\<lambda>(vlen, r).
       if vlen = 0 then Some (Returns ([], r)) else read_bytes vlen r)"

definition set_ptr :: "addr \<Rightarrow> optr \<Rightarrow> heap \<Rightarrow> heap option" where
  "set_ptr a p h = do { o' \<leftarrow> objs h a; Some (h\<lparr>objs := (objs h)(a \<mapsto> o'\<lparr>optr := p\<rparr>)\<rparr>) }"

fun load_elems :: "nat \<Rightarrow> addr \<Rightarrow> string \<Rightarrow> heap \<Rightarrow> (string \<times> heap) outcome option" where
  "load_elems 0 a r h = Some (Returns (r, h))"
| "load_elems (Suc n) a r h =
     and_then (read_value r) (\<lambda>(v, r).
       let (x, h) = CreateCutisObject (OString (Some v)) h in
       case objs h a of
         None \<Rightarrow> None
       | Some o' \<Rightarrow>
           (case optr o' of
              OString _ \<Rightarrow> None
            | OList l \<Rightarrow> (case set_ptr a (OList (l @ [x])) h of None \<Rightarrow> None | Some h \<Rightarrow> load_elems n a r h)
            | OSet d \<Rightarrow>
                (case DictAdd (set_type h) x () d of
                   None \<Rightarrow> None
                 | Some (ret, d) \<Rightarrow>
                     if ret = DICT_ERR then Some Exit
                     else (case set_ptr a (OSet d) h of None \<Rightarrow> None | Some h \<Rightarrow> load_elems n a r h))))"

definition load_object :: "nat \<Rightarrow> string \<Rightarrow> heap \<Rightarrow> (addr \<times> string \<times> heap) outcome option" where
  "load_object type r h =
     (if int type = CUTIS_STRING then
        and_then (read_value r) (\<lambda>(v, r).
          let (a, h) = CreateCutisObject (OString (Some v)) h in Some (Returns (a, r, h)))
      else if int type = CUTIS_LIST \<or> int type = CUTIS_SET then
        and_then (read_u32 r) (\<lambda>(llen, r).
          let (a, h) = (if int type = CUTIS_LIST then CreateListObject h else CreateSetObject h) in
          and_then (load_elems llen a r h) (\<lambda>(r, h). Some (Returns (a, r, h))))
      else Some Exit)"

text \<open>One record of the file, and the loop over all of them; \<open>n\<close> bounds the number of records.\<close>

fun load_loop :: "nat \<Rightarrow> nat \<Rightarrow> string \<Rightarrow> CutisServer \<Rightarrow> CutisServer outcome option" where
  "load_loop 0 dbid r s = None"
| "load_loop (Suc n) dbid r s =
     (case r of
        [] \<Rightarrow> Some Exit
      | t # r \<Rightarrow>
          let type = of_char t :: nat in
          if type = CUTIS_EOF then Some (Returns s)
          else if type = CUTIS_SELECT_DB then
            and_then (read_u32 r) (\<lambda>(j, r).
              if int j \<ge> db_num s then Some Exit else load_loop n j r s)
          else
            and_then (read_u32 r) (\<lambda>(klen, r).
            and_then (read_bytes klen r) (\<lambda>(key, r).
            and_then (load_object type r (heap s)) (\<lambda>(a, r, h).
              case nth_opt (dict s) dbid of
                None \<Rightarrow> None
              | Some d \<Rightarrow>
                  (case DictAdd sdsDictType key a d of
                     None \<Rightarrow> None
                   | Some (ret, d) \<Rightarrow>
                       if ret = DICT_ERR then Some Exit
                       else load_loop n dbid r (put_db dbid d (s\<lparr>heap := h\<rparr>)))))))"

text \<open>Every record takes at least one byte, so the length of the file bounds their number.\<close>

definition LoadDB :: "string \<Rightarrow> CutisServer \<Rightarrow> (int \<times> CutisServer) outcome option" where
  "LoadDB filename s =
     (case files (world s) filename of
        None \<Rightarrow> Some (Returns (CUTIS_ERR, s))
      | Some content \<Rightarrow>
          and_then (read_bytes 9 content) (\<lambda>(sig, r).
            if sig \<noteq> CUTIS_DB_SIGNATURE then Some (Returns (CUTIS_ERR, s))
            else and_then (load_loop (Suc (length r)) 0 r s) (\<lambda>s. Some (Returns (CUTIS_OK, s)))))"

end
