(* ===== verification/Command.thy ===== *)
theory Command
  imports Persist Sds String_Util
begin

text \<open>
  The commands of \<open>commands/command.c\<close>: one definition per command procedure, the table of
  commands, and \<open>ProcessCommand\<close>, which checks a request and runs it. Every dereference of an
  object that is not live, of an argument that was given away or of a NULL string is undefined,
  and so is a signed overflow.
\<close>

section \<open>Replies with numbers\<close>

definition num_line :: "int \<Rightarrow> string" where
  "num_line n = show_int n @ crlf"

text \<open>\<open>"%d\r\n%s\r\n"\<close> with the negated length of a message, and a message line.\<close>

definition err_bulk :: "string \<Rightarrow> string" where
  "err_bulk msg = num_line (- int (length msg)) @ msg @ crlf"

definition err_line :: "string \<Rightarrow> string" where
  "err_line msg = ''-ERR '' @ msg @ crlf"

definition reply_shared :: "(SharedObject \<Rightarrow> addr) \<Rightarrow> cmd" where
  "reply_shared f c s = AddReply (f (shared s)) c s"

text \<open>\<open>"%d\r\n"\<close> with the length of a string object, the object, and the end of the line.\<close>

definition reply_bulk :: "addr \<Rightarrow> cmd" where
  "reply_bulk a c s =
     do { v \<leftarrow> string_at (heap s) a;
          (c, s) \<leftarrow> AddReplySds (num_line (as_int (int (length v)))) c s;
          (c, s) \<leftarrow> AddReply a c s;
          reply_shared sh_crlf c s }"

definition reply_ok_dirty :: cmd where
  "reply_ok_dirty c s = reply_shared sh_ok c (s\<lparr>dirty := dirty s + 1\<rparr>)"

text \<open>\<open>DictFind(c->dict, c->argv[1])\<close>, and the object of an entry.\<close>

definition find_key :: "CutisClient \<Rightarrow> CutisServer \<Rightarrow> (string \<times> addr) option option" where
  "find_key c s = do { d \<leftarrow> db_of c s; k \<leftarrow> arg 1 c; DictFind sdsDictType k d }"

definition ptr_at :: "CutisServer \<Rightarrow> addr \<Rightarrow> optr option" where
  "ptr_at s a = map_option optr (objs (heap s) a)"

definition create :: "optr \<Rightarrow> CutisServer \<Rightarrow> addr \<times> CutisServer" where
  "create p s = (let (a, h) = CreateCutisObject p (heap s) in (a, s\<lparr>heap := h\<rparr>))"

definition decr :: "addr \<Rightarrow> CutisServer \<Rightarrow> CutisServer option" where
  "decr a s = do { h \<leftarrow> DecrRefCount a (heap s); Some (s\<lparr>heap := h\<rparr>) }"

definition store_ptr :: "addr \<Rightarrow> optr \<Rightarrow> CutisServer \<Rightarrow> CutisServer option" where
  "store_ptr a p s = do { h \<leftarrow> set_ptr a p (heap s); Some (s\<lparr>heap := h\<rparr>) }"

text \<open>The operations of the selected database, with their effect on the heap.\<close>

definition db_add :: "string \<Rightarrow> addr \<Rightarrow> nat \<Rightarrow> CutisServer \<Rightarrow> (int \<times> CutisServer) option" where
  "db_add k o' i s =
     do { d \<leftarrow> nth_opt (dict s) i;
          (ret, d) \<leftarrow> DictAdd sdsDictType k o' d;
          Some (ret, put_db i d s) }"

definition db_replace :: "string \<Rightarrow> addr \<Rightarrow> nat \<Rightarrow> CutisServer \<Rightarrow> (int \<times> CutisServer) option" where
  "db_replace k o' i s =
     do { d \<leftarrow> nth_opt (dict s) i;
          (ret, d, h) \<leftarrow> DictReplace sdsDictType k o' d (heap s);
          Some (ret, put_db i d (s\<lparr>heap := h\<rparr>)) }"

definition db_delete :: "string \<Rightarrow> nat \<Rightarrow> CutisServer \<Rightarrow> (int \<times> CutisServer) option" where
  "db_delete k i s =
     do { d \<leftarrow> nth_opt (dict s) i;
          (ret, d, h) \<leftarrow> DictDelete sdsDictType k d (heap s);
          Some (ret, put_db i d (s\<lparr>heap := h\<rparr>)) }"

definition db_delete_no_free :: "string \<Rightarrow> nat \<Rightarrow> CutisServer \<Rightarrow> (int \<times> CutisServer) option" where
  "db_delete_no_free k i s =
     do { d \<leftarrow> nth_opt (dict s) i;
          (ret, d, h) \<leftarrow> DictDeleteNoFree sdsDictType k d (heap s);
          Some (ret, put_db i d (s\<lparr>heap := h\<rparr>)) }"

section \<open>Strings\<close>

definition SetGenericCommand :: "bool \<Rightarrow> cmd" where
  "SetGenericCommand nx c s =
     do { v \<leftarrow> arg 2 c;
          let (o', s) = create (OString (Some v)) s;
          let c = take_arg 2 c;
          k \<leftarrow> arg 1 c;
          (ret, s) \<leftarrow> db_add k o' (c_db c) s;
          (c, s) \<leftarrow>
            (if ret = DICT_ERR then
               (if \<not> nx then do { (_, s) \<leftarrow> db_replace k o' (c_db c) s; Some (c, s) }
                else do { s \<leftarrow> decr o' s; Some (c, s) })
             else Some (take_arg 1 c, s));
          reply_ok_dirty c s }"

definition GetCommand :: cmd where
  "GetCommand c s =
     do { de \<leftarrow> find_key c s;
          case de of
            None \<Rightarrow> reply_shared sh_nil c s
          | Some (_, o') \<Rightarrow>
              do { p \<leftarrow> ptr_at s o';
                   case p of
                     OString _ \<Rightarrow> reply_bulk o' c s
                   | _ \<Rightarrow> AddReplySds (err_bulk ''GET against key not holding a string value'') c s } }"

definition SetCommand :: cmd where "SetCommand = SetGenericCommand False"
definition SetnxCommand :: cmd where "SetnxCommand = SetGenericCommand True"

definition ExistsCommand :: cmd where
  "ExistsCommand c s =
     do { de \<leftarrow> find_key c s;
          reply_shared (if de = None then sh_zero else sh_one) c s }"

definition DelCommand :: cmd where
  "DelCommand c s =
     do { k \<leftarrow> arg 1 c;
          (ret, s) \<leftarrow> db_delete k (c_db c) s;
          reply_shared sh_ok c (if ret = DICT_OK then s\<lparr>dirty := dirty s + 1\<rparr> else s) }"

text \<open>\<open>strtoll\<close> reads the string up to its first NUL; the sum must stay in range.\<close>

definition IncrDecrCommand :: "int \<Rightarrow> cmd" where
  "IncrDecrCommand incr c s =
     do { de \<leftarrow> find_key c s;
          val \<leftarrow>
            (case de of
               None \<Rightarrow> Some 0
             | Some (_, o') \<Rightarrow>
                 do { p \<leftarrow> ptr_at s o';
                      case p of
                        OString v \<Rightarrow> map_option (\<lambda>t. strtoll (cstr t)) v
                      | _ \<Rightarrow> Some 0 });
          guard (LLONG_MIN \<le> val + incr \<and> val + incr \<le> LLONG_MAX);
          let (o', s) = create (OString (Some (show_int (val + incr)))) s;
          k \<leftarrow> arg 1 c;
          (ret, s) \<leftarrow> db_add k o' (c_db c) s;
          (c, s) \<leftarrow>
            (if ret = DICT_ERR then do { (_, s) \<leftarrow> db_replace k o' (c_db c) s; Some (c, s) }
             else Some (take_arg 1 c, s));
          (c, s) \<leftarrow> AddReply o' c (s\<lparr>dirty := dirty s + 1\<rparr>);
          reply_shared sh_crlf c s }"

definition IncrCommand :: cmd where "IncrCommand = IncrDecrCommand 1"
definition DecrCommand :: cmd where "DecrCommand = IncrDecrCommand (-1)"

definition RandomKeyCommand :: cmd where
  "RandomKeyCommand c s =
     do { d \<leftarrow> db_of c s;
          de \<leftarrow> DictGetRandomKey (rands (world s) (calls (world s))) d;
          let s = snd (syscall s);
          case de of
            None \<Rightarrow> reply_shared sh_crlf c s
          | Some (k, _) \<Rightarrow>
              do { (c, s) \<leftarrow> AddReplySds k c s; reply_shared sh_crlf c s } }"

section \<open>Lists\<close>

datatype side = CUTIS_HEAD | CUTIS_TAIL

fun push_list :: "side \<Rightarrow> 'a \<Rightarrow> 'a list \<Rightarrow> 'a list" where
  "push_list CUTIS_HEAD x l = x # l"
| "push_list CUTIS_TAIL x l = l @ [x]"

definition PushGenericCommand :: "side \<Rightarrow> cmd" where
  "PushGenericCommand side c s =
     do { v \<leftarrow> arg 2 c;
          let (x, s) = create (OString (Some v)) s;
          let c = take_arg 2 c;
          de \<leftarrow> find_key c s;
          case de of
            None \<Rightarrow>
              do { let (o', s) = create (OList []) s;
                   s \<leftarrow> store_ptr o' (OList (push_list side x [])) s;
                   k \<leftarrow> arg 1 c;
                   (_, s) \<leftarrow> db_add k o' (c_db c) s;
                   reply_ok_dirty (take_arg 1 c) s }
          | Some (_, o') \<Rightarrow>
              do { p \<leftarrow> ptr_at s o';
                   case p of
                     OList l \<Rightarrow>
                       do { s \<leftarrow> store_ptr o' (OList (push_list side x l)) s; reply_ok_dirty c s }
                   | _ \<Rightarrow>
                       do { s \<leftarrow> decr x s;
                            AddReplySds (err_line ''push against existing key not holding a list '') c s } } }"

definition RPushCommand :: cmd where "RPushCommand = PushGenericCommand CUTIS_TAIL"
definition LPushCommand :: cmd where "LPushCommand = PushGenericCommand CUTIS_HEAD"

text \<open>\<open>listDelNode\<close> on a list of objects: the node goes, then its value is released.\<close>

fun end_elem :: "side \<Rightarrow> 'a list \<Rightarrow> 'a \<times> 'a list" where
  "end_elem CUTIS_HEAD l = (hd l, tl l)"
| "end_elem CUTIS_TAIL l = (last l, butlast l)"

definition del_end :: "side \<Rightarrow> addr \<Rightarrow> CutisServer \<Rightarrow> CutisServer option" where
  "del_end side o' s =
     do { p \<leftarrow> ptr_at s o';
          case p of
            OList l \<Rightarrow>
              do { guard (l \<noteq> []);
                   s \<leftarrow> store_ptr o' (OList (snd (end_elem side l))) s;
                   decr (fst (end_elem side l)) s }
          | _ \<Rightarrow> None }"

definition PopGenericCommand :: "side \<Rightarrow> cmd" where
  "PopGenericCommand side c s =
     do { de \<leftarrow> find_key c s;
          case de of
            None \<Rightarrow> reply_shared sh_nil c s
          | Some (_, o') \<Rightarrow>
              do { p \<leftarrow> ptr_at s o';
                   case p of
                     OList l \<Rightarrow>
                       if l = [] then reply_shared sh_nil c s
                       else do { (c, s) \<leftarrow> reply_bulk (fst (end_elem side l)) c s;
                                 s \<leftarrow> del_end side o' s;
                                 Some (c, s\<lparr>dirty := dirty s + 1\<rparr>) }
                   | _ \<Rightarrow> AddReplySds (err_bulk ''POP against key not holding a list value'') c s } }"

definition RPopCommand :: cmd where "RPopCommand = PopGenericCommand CUTIS_TAIL"
definition LPopCommand :: cmd where "LPopCommand = PopGenericCommand CUTIS_HEAD"

definition LLenCommand :: cmd where
  "LLenCommand c s =
     do { de \<leftarrow> find_key c s;
          case de of
            None \<Rightarrow> reply_shared sh_zero c s
          | Some (_, o') \<Rightarrow>
              do { p \<leftarrow> ptr_at s o';
                   case p of
                     OList l \<Rightarrow> AddReplySds (num_line (as_int (int (length l)))) c s
                   | _ \<Rightarrow> AddReplySds (''-1'' @ crlf) c s } }"

text \<open>\<open>listIndex\<close> negates a negative index, which \<open>INT_MIN\<close> does not survive.\<close>

definition list_index :: "addr list \<Rightarrow> int \<Rightarrow> addr option option" where
  "list_index l i = (if i = INT_MIN then None else Some (index_spec l i))"

definition LIndexCommand :: cmd where
  "LIndexCommand c s =
     do { de \<leftarrow> find_key c s;
          i \<leftarrow> arg 2 c;
          case de of
            None \<Rightarrow> reply_shared sh_nil c s
          | Some (_, o') \<Rightarrow>
              do { p \<leftarrow> ptr_at s o';
                   case p of
                     OList l \<Rightarrow>
                       do { ln \<leftarrow> list_index l (atoi (cstr i));
                            case ln of
                              None \<Rightarrow> reply_shared sh_nil c s
                            | Some x \<Rightarrow> reply_bulk x c s }
                   | _ \<Rightarrow> AddReplySds (err_bulk ''LINDEX against key not holding a list value'') c s } }"

text \<open>The conversion of the two indexes that \<open>LRANGE\<close> and \<open>LTRIM\<close> share.\<close>

definition clip :: "int \<Rightarrow> int \<Rightarrow> int" where
  "clip llen i = (let i = (if i < 0 then llen + i else i) in if i < 0 then 0 else i)"

definition LRangeCommand :: cmd where
  "LRangeCommand c s =
     do { de \<leftarrow> find_key c s;
          a1 \<leftarrow> arg 2 c;
          a2 \<leftarrow> arg 3 c;
          case de of
            None \<Rightarrow> reply_shared sh_nil c s
          | Some (_, o') \<Rightarrow>
              do { p \<leftarrow> ptr_at s o';
                   case p of
                     OList l \<Rightarrow>
                       (let llen = as_int (int (length l));
                            start = clip llen (atoi (cstr a1));
                            stop = clip llen (atoi (cstr a2)) in
                        if start > stop \<or> start \<ge> llen then reply_shared sh_zero c s
                        else
                          (let stop = (if stop \<ge> llen then llen - 1 else stop);
                               range_len = stop - start + 1 in
                           do { guard (nat start + nat range_len \<le> length l);
                                (c, s) \<leftarrow> AddReplySds (num_line range_len) c s;
                                foldM (\<lambda>x (c, s). reply_bulk x c s)
                                  (take (nat range_len) (drop (nat start) l)) (c, s) }))
                   | _ \<Rightarrow> AddReplySds (err_bulk ''LRANGE against key not holding a list value'') c s } }"

definition LTrimCommand :: cmd where
  "LTrimCommand c s =
     do { de \<leftarrow> find_key c s;
          a1 \<leftarrow> arg 2 c;
          a2 \<leftarrow> arg 3 c;
          case de of
            None \<Rightarrow> AddReplySds (err_line ''no such key'') c s
          | Some (_, o') \<Rightarrow>
              do { p \<leftarrow> ptr_at s o';
                   case p of
                     OList l \<Rightarrow>
                       (let llen = as_int (int (length l));
                            start = clip llen (atoi (cstr a1));
                            stop = clip llen (atoi (cstr a2));
                            (ltrim, rtrim) =
                              (if start > stop \<or> start \<ge> llen then (llen, 0)
                               else let stop = (if stop \<ge> llen then llen - 1 else stop)
                                    in (start, llen - stop - 1)) in
                        do { s \<leftarrow> timesM (nat ltrim) (del_end CUTIS_HEAD o') s;
                             s \<leftarrow> timesM (nat rtrim) (del_end CUTIS_TAIL o') s;
                             (c, s) \<leftarrow> reply_shared sh_ok c s;
                             Some (c, s\<lparr>dirty := dirty s + 1\<rparr>) })
                   | _ \<Rightarrow> AddReplySds (err_line ''LTRIM against key not holding a list value'') c s } }"

text \<open>The position of the node \<open>listIndex\<close> returns.\<close>

definition index_pos :: "'a list \<Rightarrow> int \<Rightarrow> nat" where
  "index_pos l i = nat (if i < 0 then int (length l) + i else i)"

definition LSetCommand :: cmd where
  "LSetCommand c s =
     do { i \<leftarrow> arg 2 c;
          de \<leftarrow> find_key c s;
          case de of
            None \<Rightarrow> AddReplySds (err_line ''no such key'') c s
          | Some (_, o') \<Rightarrow>
              do { p \<leftarrow> ptr_at s o';
                   case p of
                     OList l \<Rightarrow>
                       do { ln \<leftarrow> list_index l (atoi (cstr i));
                            case ln of
                              None \<Rightarrow> AddReplySds (err_line ''index out of range'') c s
                            | Some x \<Rightarrow>
                                do { s \<leftarrow> decr x s;
                                     v \<leftarrow> arg 3 c;
                                     let (y, s) = create (OString (Some v)) s;
                                     s \<leftarrow> store_ptr o' (OList (l[index_pos l (atoi (cstr i)) := y])) s;
                                     (c, s) \<leftarrow> reply_shared sh_ok (take_arg 3 c) s;
                                     Some (c, s\<lparr>dirty := dirty s + 1\<rparr>) } }
                   | _ \<Rightarrow> AddReplySds (err_line ''LSET against key not holding a list value'') c s } }"

section \<open>Sets\<close>

definition set_add :: "addr \<Rightarrow> addr \<Rightarrow> CutisServer \<Rightarrow> (int \<times> CutisServer) option" where
  "set_add o' x s =
     do { p \<leftarrow> ptr_at s o';
          case p of
            OSet d \<Rightarrow>
              do { (ret, d) \<leftarrow> DictAdd (set_type (heap s)) x () d;
                   s \<leftarrow> store_ptr o' (OSet d) s;
                   Some (ret, s) }
          | _ \<Rightarrow> None }"

definition SAddCommand :: cmd where
  "SAddCommand c s =
     do { de \<leftarrow> find_key c s;
          r \<leftarrow>
            (case de of
               None \<Rightarrow>
                 do { let (o', s) = create (OSet DictCreate) s;
                      k \<leftarrow> arg 1 c;
                      (_, s) \<leftarrow> db_add k o' (c_db c) s;
                      Some (Some (o', take_arg 1 c, s)) }
             | Some (_, o') \<Rightarrow>
                 do { p \<leftarrow> ptr_at s o';
                      case p of
                        OSet d \<Rightarrow> Some (Some (o', c, s))
                      | _ \<Rightarrow> Some None });
          case r of
            None \<Rightarrow> AddReplySds (err_line ''SADD against key not holding a set value'') c s
          | Some (o', c, s) \<Rightarrow>
              do { v \<leftarrow> arg 2 c;
                   let (x, s) = create (OString (Some v)) s;
                   (ret, s) \<leftarrow> set_add o' x s;
                   s \<leftarrow> (if ret = DICT_OK then Some (s\<lparr>dirty := dirty s + 1\<rparr>) else decr x s);
                   reply_shared sh_ok (take_arg 2 c) s } }"

text \<open>
  The member that is looked up borrows the argument: its object gives the string back (\<open>ptr\<close> is
  set to NULL) before it is released.
\<close>

definition drop_borrowed :: "addr \<Rightarrow> CutisServer \<Rightarrow> CutisServer option" where
  "drop_borrowed x s = do { s \<leftarrow> store_ptr x (OString None) s; decr x s }"

definition SRemCommand :: cmd where
  "SRemCommand c s =
     do { de \<leftarrow> find_key c s;
          case de of
            None \<Rightarrow> AddReplySds (err_line ''no such key'') c s
          | Some (_, o') \<Rightarrow>
              do { p \<leftarrow> ptr_at s o';
                   case p of
                     OSet d \<Rightarrow>
                       do { v \<leftarrow> arg 2 c;
                            let (x, s) = create (OString (Some v)) s;
                            (ret, d, h) \<leftarrow> DictDelete (set_type (heap s)) x d (heap s);
                            s \<leftarrow> store_ptr o' (OSet d) (s\<lparr>heap := h\<rparr>);
                            let s = (if ret = DICT_OK then s\<lparr>dirty := dirty s + 1\<rparr> else s);
                            s \<leftarrow> drop_borrowed x s;
                            reply_shared sh_ok c s }
                   | _ \<Rightarrow> AddReplySds (err_line ''SREM against key not holding a set value'') c s } }"

definition SIsMemberCommand :: cmd where
  "SIsMemberCommand c s =
     do { de \<leftarrow> find_key c s;
          case de of
            None \<Rightarrow> AddReplySds (''-1'' @ crlf) c s
          | Some (_, o') \<Rightarrow>
              do { p \<leftarrow> ptr_at s o';
                   case p of
                     OSet d \<Rightarrow>
                       do { v \<leftarrow> arg 2 c;
                            let (x, s) = create (OString (Some v)) s;
                            r \<leftarrow> DictFind (set_type (heap s)) x d;
                            (c, s) \<leftarrow> reply_shared (if r = None then sh_zero else sh_one) c s;
                            s \<leftarrow> drop_borrowed x s;
                            Some (c, s) }
                   | _ \<Rightarrow> AddReplySds (''-1'' @ crlf) c s } }"

definition SCardCommand :: cmd where
  "SCardCommand c s =
     do { de \<leftarrow> find_key c s;
          case de of
            None \<Rightarrow> reply_shared sh_zero c s
          | Some (_, o') \<Rightarrow>
              do { p \<leftarrow> ptr_at s o';
                   case p of
                     OSet d \<Rightarrow> AddReplySds (num_line (as_int (uint (d_used d)))) c s
                   | _ \<Rightarrow> AddReplySds (''-1'' @ crlf) c s } }"

text \<open>
  The array \<open>dv\<close> of \<open>SINTER\<close>: a slot for every name, not yet set at first; \<open>None\<close> is the array after
  \<open>zfree\<close>. Using it then, or a slot outside it, is undefined.
\<close>

type_synonym set_table = "optr option list option"

definition free_table :: "set_table \<Rightarrow> set_table option" where
  "free_table dv = map_option (\<lambda>_. None) dv"

definition put_slot :: "nat \<Rightarrow> optr \<Rightarrow> set_table \<Rightarrow> set_table option" where
  "put_slot j p dv = do { xs \<leftarrow> dv; guard (j < length xs); Some (Some (xs[j := Some p])) }"

definition sets_in :: "set_table \<Rightarrow> (addr, unit) Dict list option" where
  "sets_in dv = do { xs \<leftarrow> dv; mapM (\<lambda>x. case x of Some (OSet d) \<Rightarrow> Some d | _ \<Rightarrow> None) xs }"

definition not_a_set_err :: string where
  "not_a_set_err = ''SINTER against key not holding a set value''"

text \<open>
  A key that holds no set: the length of the message goes out and, as the format has \<open>%d\<close> for the
  message itself, some number; the array is freed and the loop goes on.
\<close>

definition not_a_set ::
  "set_table \<Rightarrow> CutisClient \<Rightarrow> CutisServer \<Rightarrow> (set_table \<times> CutisClient \<times> CutisServer) option"
where
  "not_a_set dv c s =
     do { let (n, s) = syscall s;
          (c, s) \<leftarrow> AddReplySds (num_line (- int (length not_a_set_err)) @ num_line (as_int n)) c s;
          dv \<leftarrow> free_table dv;
          Some (dv, c, s) }"

text \<open>The loop that fills the array; \<open>Inl\<close> is the return in the middle of it.\<close>

fun sinter_sets ::
  "(string, addr) Dict \<Rightarrow> string option list \<Rightarrow> nat \<Rightarrow> set_table \<Rightarrow> CutisClient \<Rightarrow> CutisServer \<Rightarrow>
   ((CutisClient \<times> CutisServer) + (set_table \<times> CutisClient \<times> CutisServer)) option"
where
  "sinter_sets d [] j dv c s = Some (Inr (dv, c, s))"
| "sinter_sets d (k # ks) j dv c s =
     do { k \<leftarrow> k;
          de \<leftarrow> DictFind sdsDictType k d;
          case de of
            None \<Rightarrow>
              do { dv \<leftarrow> free_table dv;
                   cs \<leftarrow> AddReplySds (err_bulk ''No such key'') c s;
                   Some (Inl cs) }
          | Some (_, o') \<Rightarrow>
              do { p \<leftarrow> ptr_at s o';
                   (dv, c, s) \<leftarrow> (case p of OSet _ \<Rightarrow> Some (dv, c, s) | _ \<Rightarrow> not_a_set dv c s);
                   p \<leftarrow> ptr_at s o';
                   dv \<leftarrow> put_slot j p dv;
                   sinter_sets d ks (Suc j) dv c s } }"

text \<open>The C library's \<open>qsort\<close> is a merge sort, so equal cardinalities keep their order.\<close>

definition cardinality :: "(addr, unit) Dict \<Rightarrow> int" where
  "cardinality d = as_int (uint (d_used d))"

fun in_all :: "CutisServer \<Rightarrow> addr \<Rightarrow> (addr, unit) Dict list \<Rightarrow> bool option" where
  "in_all s x [] = Some True"
| "in_all s x (d # ds) =
     do { r \<leftarrow> DictFind (set_type (heap s)) x d;
          case r of None \<Rightarrow> Some False | Some _ \<Rightarrow> in_all s x ds }"

definition sinter_step ::
  "(addr, unit) Dict list \<Rightarrow> addr \<times> unit \<Rightarrow> (CutisClient \<times> CutisServer) \<times> int \<Rightarrow>
   ((CutisClient \<times> CutisServer) \<times> int) option"
where
  "sinter_step others e st =
     (case st of ((c, s), n) \<Rightarrow>
        do { hit \<leftarrow> in_all s (fst e) others;
             if \<not> hit then Some ((c, s), n)
             else do { cs \<leftarrow> reply_bulk (fst e) c s; Some (cs, n + 1) } })"

definition SInterCommand :: cmd where
  "SInterCommand c s =
     do { d \<leftarrow> db_of c s;
          r \<leftarrow> sinter_sets d (drop 1 (argv c)) 0 (Some (replicate (argc c - 1) None)) c s;
          case r of
            Inl cs \<Rightarrow> Some cs
          | Inr (dv, c, s) \<Rightarrow>
              do { sets \<leftarrow> sets_in dv;
                   case sort_key cardinality sets of
                     [] \<Rightarrow> None
                   | smallest # others \<Rightarrow>
                       do { let (lenobj, s) = create (OString None) s;
                            (c, s) \<leftarrow> AddReply lenobj c s;
                            s \<leftarrow> decr lenobj s;
                            es \<leftarrow> dict_iterate smallest;
                            ((c, s), n) \<leftarrow> foldM (sinter_step others) es ((c, s), 0);
                            s \<leftarrow> store_ptr lenobj (OString (Some (num_line n))) s;
                            dv \<leftarrow> free_table dv;
                            Some (c, s) } } }"

section \<open>Keys and databases\<close>

definition TypeCommand :: cmd where
  "TypeCommand c s =
     do { de \<leftarrow> find_key c s;
          name \<leftarrow>
            (case de of
               None \<Rightarrow> Some ''none''
             | Some (_, o') \<Rightarrow>
                 do { p \<leftarrow> ptr_at s o';
                      Some (case p of OString _ \<Rightarrow> ''string'' | OList _ \<Rightarrow> ''list'' | OSet _ \<Rightarrow> ''set'') });
          (c, s) \<leftarrow> AddReplySds name c s;
          reply_shared sh_crlf c s }"

definition SelectCommand :: cmd where
  "SelectCommand c s =
     do { i \<leftarrow> arg 1 c;
          let (r, c) = SelectDB c (atoi (cstr i)) s;
          if r = CUTIS_ERR then AddReplySds (err_line ''invalid DB index'') c s
          else reply_shared sh_ok c s }"

definition MoveCommand :: cmd where
  "MoveCommand c s =
     do { let src = c_db c;
          i \<leftarrow> arg 2 c;
          let (r, c) = SelectDB c (atoi (cstr i)) s;
          if r = CUTIS_ERR then AddReplySds (err_line ''target DB out of range'') c s
          else
            do { let dst = c_db c;
                 let c = c\<lparr>c_db := src\<rparr>;
                 if src = dst then AddReplySds (err_line ''source DB is the same as target DB'') c s
                 else
                   do { de \<leftarrow> find_key c s;
                        case de of
                          None \<Rightarrow> AddReplySds (err_line ''no such key'') c s
                        | Some (key, o') \<Rightarrow>
                            do { (ret, s) \<leftarrow> db_add key o' dst s;
                                 if ret = DICT_ERR then
                                   AddReplySds (err_line ''target DB already contains the moved key'') c s
                                 else
                                   do { k \<leftarrow> arg 1 c;
                                        (_, s) \<leftarrow> db_delete_no_free k src s;
                                        reply_ok_dirty c s } } } } }"

definition incr :: "addr \<Rightarrow> CutisServer \<Rightarrow> CutisServer option" where
  "incr a s = do { h \<leftarrow> IncrRefCount a (heap s); Some (s\<lparr>heap := h\<rparr>) }"

definition RenameGenericCommand :: "bool \<Rightarrow> cmd" where
  "RenameGenericCommand nx c s =
     do { k1 \<leftarrow> arg 1 c;
          k2 \<leftarrow> arg 2 c;
          if k1 = k2 then AddReplySds (err_line ''src and dest key are the same'') c s
          else
            do { de \<leftarrow> find_key c s;
                 case de of
                   None \<Rightarrow> AddReplySds (err_line ''no such key'') c s
                 | Some (_, o') \<Rightarrow>
                     do { s \<leftarrow> incr o' s;
                          (ret, s) \<leftarrow> db_add k2 o' (c_db c) s;
                          if ret = DICT_ERR \<and> nx then
                            do { s \<leftarrow> decr o' s;
                                 AddReplySds (err_line ''destination key exists'') c s }
                          else
                            do { (c, s) \<leftarrow>
                                   (if ret = DICT_ERR then
                                      do { (_, s) \<leftarrow> db_replace k2 o' (c_db c) s; Some (c, s) }
                                    else Some (take_arg 2 c, s));
                                 (_, s) \<leftarrow> db_delete k1 (c_db c) s;
                                 reply_ok_dirty c s } } } }"

definition RenameCommand :: cmd where "RenameCommand = RenameGenericCommand False"
definition RenamenxCommand :: cmd where "RenamenxCommand = RenameGenericCommand True"

text \<open>\<open>pattern[0] == '*' && pattern[1] == '\0'\<close>, or the glob matcher.\<close>

definition key_matches :: "string \<Rightarrow> string \<Rightarrow> bool option" where
  "key_matches pattern key =
     do { p0 \<leftarrow> rd pattern 0;
          all \<leftarrow> (if p0 = CHR ''*'' then map_option (\<lambda>p1. p1 = NUL) (rd pattern 1) else Some False);
          if all then Some True
          else StringMatch pattern 0 (as_int (int (length pattern))) key 0 (int (length key)) False }"

definition keys_step :: "string \<Rightarrow> string \<times> addr \<Rightarrow> string \<Rightarrow> string option" where
  "keys_step pattern e keys =
     do { hit \<leftarrow> key_matches pattern (fst e);
          Some (if hit then keys @ fst e @ '' '' else keys) }"

definition KeysCommand :: cmd where
  "KeysCommand c s =
     do { pattern \<leftarrow> arg 1 c;
          d \<leftarrow> db_of c s;
          es \<leftarrow> dict_iterate d;
          keys \<leftarrow> foldM (keys_step pattern) es [];
          let keys = strip (strchr_in '' '') keys;
          AddReplySds (num_line (int (length keys)) @ keys @ crlf) c s }"

definition DbsizeCommand :: cmd where
  "DbsizeCommand c s = do { d \<leftarrow> db_of c s; AddReplySds (num_line (uint (d_used d))) c s }"

section \<open>The server\<close>

definition SaveCommand :: cmd where
  "SaveCommand c s =
     do { (r, s) \<leftarrow> SaveDB CUTIS_DB_NAME s;
          reply_shared (if r = CUTIS_OK then sh_ok else sh_err) c s }"

definition BgsaveCommand :: cmd where
  "BgsaveCommand c s =
     (if bg_saving s then AddReplySds (err_line ''background save already in process'') c s
      else let (r, s) = SaveDBBackground CUTIS_DB_NAME s
           in reply_shared (if r = CUTIS_OK then sh_ok else sh_err) c s)"

definition ShutDownCommand :: cmd where
  "ShutDownCommand c s =
     do { (r, s) \<leftarrow> SaveDB CUTIS_DB_NAME s;
          if r = CUTIS_OK then Some (c, s\<lparr>el := AeStop (el s)\<rparr>)
          else AddReplySds (err_line ([CHR ''c'', CHR ''a'', CHR ''n'', CHR 0x27] @ ''t quit, problems saving the DB'')) c s }"

definition PingCommand :: cmd where "PingCommand = reply_shared sh_pong"

definition EchoCommand :: cmd where
  "EchoCommand c s =
     do { v \<leftarrow> arg 1 c;
          (c, s) \<leftarrow> AddReplySds (num_line (as_int (int (length v)))) c s;
          (c, s) \<leftarrow> AddReplySds v c s;
          (c, s) \<leftarrow> reply_shared sh_crlf c s;
          Some (take_arg 1 c, s) }"

definition LastSaveCommand :: cmd where
  "LastSaveCommand c s = AddReplySds (num_line (last_save s)) c s"

section \<open>The table of commands\<close>

datatype cmd_type = CUTIS_CMD_INLINE | CUTIS_CMD_BULK

record CutisCommand =
  cmd_name :: string
  cmd_proc :: cmd
  arity :: int
  cmd_type :: cmd_type

definition entry :: "string \<Rightarrow> cmd \<Rightarrow> int \<Rightarrow> cmd_type \<Rightarrow> CutisCommand" where
  "entry n p a t = \<lparr>cmd_name = n, cmd_proc = p, arity = a, cmd_type = t\<rparr>"

definition cmdTable :: "CutisCommand list" where
  "cmdTable =
    [entry ''get'' GetCommand 2 CUTIS_CMD_INLINE,
     entry ''set'' SetCommand 3 CUTIS_CMD_BULK,
     entry ''setnx'' SetnxCommand 3 CUTIS_CMD_BULK,
     entry ''exists'' ExistsCommand 2 CUTIS_CMD_INLINE,
     entry ''del'' DelCommand 2 CUTIS_CMD_INLINE,
     entry ''incr'' IncrCommand 2 CUTIS_CMD_INLINE,
     entry ''decr'' DecrCommand 2 CUTIS_CMD_INLINE,
     entry ''rpush'' RPushCommand 3 CUTIS_CMD_BULK,
     entry ''lpush'' LPushCommand 3 CUTIS_CMD_BULK,
     entry ''rpop'' RPopCommand 2 CUTIS_CMD_INLINE,
     entry ''lpop'' LPopCommand 2 CUTIS_CMD_INLINE,
     entry ''llen'' LLenCommand 2 CUTIS_CMD_INLINE,
     entry ''lindex'' LIndexCommand 3 CUTIS_CMD_INLINE,
     entry ''lrange'' LRangeCommand 4 CUTIS_CMD_INLINE,
     entry ''ltrim'' LTrimCommand 4 CUTIS_CMD_INLINE,
     entry ''lset'' LSetCommand 4 CUTIS_CMD_BULK,
     entry ''sadd'' SAddCommand 3 CUTIS_CMD_BULK,
     entry ''srem'' SRemCommand 3 CUTIS_CMD_BULK,
     entry ''sismember'' SIsMemberCommand 3 CUTIS_CMD_BULK,
     entry ''scard'' SCardCommand 2 CUTIS_CMD_INLINE,
     entry ''sinter'' SInterCommand (-2) CUTIS_CMD_INLINE,
     entry ''smembers'' SInterCommand 2 CUTIS_CMD_INLINE,
     entry ''select'' SelectCommand 2 CUTIS_CMD_INLINE,
     entry ''move'' MoveCommand 3 CUTIS_CMD_INLINE,
     entry ''rename'' RenameCommand 3 CUTIS_CMD_INLINE,
     entry ''renamenx'' RenamenxCommand 3 CUTIS_CMD_INLINE,
     entry ''randomkey'' RandomKeyCommand 1 CUTIS_CMD_INLINE,
     entry ''keys'' KeysCommand 2 CUTIS_CMD_INLINE,
     entry ''dbsize'' DbsizeCommand 1 CUTIS_CMD_INLINE,
     entry ''save'' SaveCommand 1 CUTIS_CMD_INLINE,
     entry ''bgsave'' BgsaveCommand 1 CUTIS_CMD_INLINE,
     entry ''shutdown'' ShutDownCommand 1 CUTIS_CMD_INLINE,
     entry ''ping'' PingCommand 1 CUTIS_CMD_INLINE,
     entry ''echo'' EchoCommand 2 CUTIS_CMD_INLINE,
     entry ''lastsave'' LastSaveCommand 1 CUTIS_CMD_INLINE,
     entry ''type'' TypeCommand 2 CUTIS_CMD_INLINE]"

definition LookupCommand :: "string \<Rightarrow> CutisCommand option" where
  "LookupCommand name = find (\<lambda>e. strcmp_eq (cmd_name e) name) cmdTable"

section \<open>Processing a request\<close>

definition run_command :: "CutisCommand \<Rightarrow> CutisClient \<Rightarrow> CutisServer \<Rightarrow>
    (int \<times> CutisClient option \<times> CutisServer) option" where
  "run_command cm c s = do { (c, s) \<leftarrow> cmd_proc cm c s; Some (1, Some (ResetClient c), s) }"

definition refuse :: "string \<Rightarrow> CutisClient \<Rightarrow> CutisServer \<Rightarrow>
    (int \<times> CutisClient option \<times> CutisServer) option" where
  "refuse msg c s = do { (c, s) \<leftarrow> AddReplySds (err_line msg) c s; Some (1, Some (ResetClient c), s) }"

text \<open>
  The result is 0 when the client is gone. Taking the bulk argument out of the query buffer is
  \<open>sdsnewlen\<close> and \<open>sdsrange\<close> on it, in the terms of \<open>Sds\<close>.
\<close>

definition ProcessCommand :: "CutisClient \<Rightarrow> CutisServer \<Rightarrow> (int \<times> CutisClient option \<times> CutisServer) option" where
  "ProcessCommand c s =
     do { a0 \<leftarrow> arg 0 c;
          let name = map tolower a0;
          let c = c\<lparr>argv := (argv c)[0 := Some name]\<rparr>;
          if strcmp_eq name ''quit'' then do { s \<leftarrow> FreeClient c s; Some (0, None, s) }
          else
            (case LookupCommand name of
               None \<Rightarrow> refuse ''unknown command'' c s
             | Some cm \<Rightarrow>
                 if (arity cm > 0 \<and> arity cm \<noteq> int (argc c)) \<or> int (argc c) < - arity cm then
                   refuse ''wrong number of arguments'' c s
                 else if cmd_type cm = CUTIS_CMD_BULK \<and> bulk_len c = -1 then
                   do { len_arg \<leftarrow> arg (argc c - 1) c;
                        let len = atoi (cstr len_arg);
                        let c = c\<lparr>argv := butlast (argv c)\<rparr>;
                        if len < 0 \<or> len > CUTIS_MAX_STRING_LENGTH then
                          refuse ''invalid bulk write count'' c s
                        else
                          (let c = c\<lparr>bulk_len := len + 2\<rparr> in
                           if int (length (query_buf c)) \<ge> bulk_len c then
                             run_command cm
                               (c\<lparr>argv := argv c @ [Some (take (nat len) (query_buf c))],
                                  query_buf := range_spec (query_buf c) (bulk_len c) (-1)\<rparr>) s
                           else Some (1, Some c, s)) }
                 else run_command cm c s) }"

end
