(* ===== verification/Client.thy ===== *)
theory Client
  imports Command
begin

text \<open>
  The protocol side of a client (\<open>server/client.c\<close>): reading from the socket, splitting the query
  buffer into requests, sending the replies. The functions return the client they were given, or
  none when it was freed.
\<close>

type_synonym client_result = "(int \<times> CutisClient option \<times> CutisServer) option"

section \<open>Parsing\<close>

text \<open>
  \<open>strchr(query_buf, '\n')\<close> looks no further than the first NUL. The line ends before the newline,
  and before a carriage return in front of it. (When the newline is the first byte, the byte before
  it is the last one of the header's \<open>free\<close>, which is no carriage return.)
\<close>

definition newline_at :: "string \<Rightarrow> nat option" where
  "newline_at q =
     (let n = length (takeWhile (\<lambda>ch. ch \<noteq> LF) (cstr q)) in if n < strlen q then Some n else None)"

definition chomp :: "string \<Rightarrow> string" where
  "chomp line = (if line \<noteq> [] \<and> last line = CR then butlast line else line)"

text \<open>The loop that fills the argument vector leaves out empty fields and stops when it is full.\<close>

fun collect_args :: "string list \<Rightarrow> string option list \<Rightarrow> string option list" where
  "collect_args [] av = av"
| "collect_args (t # ts) av =
     (if length av < CUTIS_MAX_ARGS then collect_args ts (if t \<noteq> [] then av @ [Some t] else av) else av)"

text \<open>Whether to go on: the client is still there and its buffer is not empty.\<close>

definition after_process :: "client_result \<Rightarrow> client_result" where
  "after_process m =
     do { (r, c, s) \<leftarrow> m;
          Some (if r \<noteq> 0 \<and> (case c of None \<Rightarrow> False | Some c' \<Rightarrow> query_buf c' \<noteq> []) then CUTIS_AGAIN else CUTIS_OK, c, s) }"

definition ParseBulkQuery :: "CutisClient \<Rightarrow> CutisServer \<Rightarrow> client_result" where
  "ParseBulkQuery c s =
     (if bulk_len c \<le> int (length (query_buf c)) then
        do { guard (argc c < CUTIS_MAX_ARGS);
             let d = take (nat (bulk_len c - 2)) (query_buf c);
             after_process (ProcessCommand
               (c\<lparr>argv := argv c @ [Some d], query_buf := range_spec (query_buf c) (bulk_len c) (-1)\<rparr>) s) }
      else Some (CUTIS_OK, Some c, s))"

definition ParseNonBulkQuery :: "CutisClient \<Rightarrow> CutisServer \<Rightarrow> client_result" where
  "ParseNonBulkQuery c s =
     (case newline_at (query_buf c) of
        Some p \<Rightarrow>
          (let line = chomp (take p (query_buf c));
               c = c\<lparr>query_buf := drop (Suc p) (query_buf c)\<rparr> in
           if line = [] then Some (CUTIS_OK, Some c, s)
           else after_process (ProcessCommand
                  (c\<lparr>argv := collect_args (Sds.fields (CHR '' '') line) (argv c)\<rparr>) s))
      | None \<Rightarrow>
          if length (query_buf c) \<ge> 1024 then do { s \<leftarrow> FreeClient c s; Some (CUTIS_OK, None, s) }
          else Some (CUTIS_OK, Some c, s))"

text \<open>
  \<open>n\<close> bounds the number of rounds; every round that asks for another one has taken something out
  of the query buffer, so its length is enough.
\<close>

fun parse_loop :: "nat \<Rightarrow> CutisClient \<Rightarrow> CutisServer \<Rightarrow> client_result" where
  "parse_loop 0 c s = None"
| "parse_loop (Suc n) c s =
     do { (res, c', s) \<leftarrow> (if bulk_len c = -1 then ParseNonBulkQuery c s else ParseBulkQuery c s);
          (case c' of
             Some c \<Rightarrow> if res = CUTIS_AGAIN then parse_loop n c s else Some (res, Some c, s)
           | None \<Rightarrow> Some (res, None, s)) }"

definition ParseQuery :: "CutisClient \<Rightarrow> CutisServer \<Rightarrow> client_result" where
  "ParseQuery c s = parse_loop (Suc (length (query_buf c))) c s"

section \<open>Reading and writing\<close>

definition ReadQueryFromClient :: "CutisClient \<Rightarrow> CutisServer \<Rightarrow> client_result" where
  "ReadQueryFromClient c s =
     (let got = reads (world s) (calls (world s)); s = snd (syscall s) in
      case got of
        ReadError \<Rightarrow> do { s \<leftarrow> FreeClient c s; Some (AE_ERR, None, s) }
      | WouldBlock \<Rightarrow> Some (AE_ERR, Some c, s)
      | Data buf \<Rightarrow>
          if buf = [] then do { s \<leftarrow> FreeClient c s; Some (AE_ERR, None, s) }
          else
            (let (now, s) = syscall s in
             ParseQuery (c\<lparr>query_buf := query_buf c @ take CUTIS_QUERY_BUF_LEN buf, last_interaction := now\<rparr>) s))"

text \<open>
  \<open>write\<close> says how many of the bytes it is given it took, \<open>-1\<close> for \<open>EAGAIN\<close> and less for any other
  error; the bytes it took are what has gone out on the descriptor. The loop gives it the rest of the
  first reply, from \<open>msg + sent_len\<close> on, and ends with the last result of \<open>write\<close> and the number of bytes written in all.
\<close>

definition del_first_reply :: cmd where
  "del_first_reply c s =
     (case reply c of
        [] \<Rightarrow> None
      | a # as \<Rightarrow> do { s \<leftarrow> decr a s; Some (c\<lparr>reply := as\<rparr>, s) })"

definition write_call :: "int \<Rightarrow> string \<Rightarrow> CutisServer \<Rightarrow> int \<times> CutisServer" where
  "write_call fd bs s =
     (let (r, s) = syscall s;
          n = min r (int (length bs));
          w = world s
      in (n, s\<lparr>world := w\<lparr>wire := (wire w)(fd := wire w fd @ take (nat n) bs)\<rparr>\<rparr>))"

partial_function (option) send_loop ::
  "int \<Rightarrow> int \<Rightarrow> CutisClient \<Rightarrow> CutisServer \<Rightarrow> (int \<times> int \<times> CutisClient \<times> CutisServer) option"
where
  "send_loop nwritten written c s =
     (case reply c of
        [] \<Rightarrow> Some (nwritten, written, c, s)
      | a # as \<Rightarrow>
          do { msg \<leftarrow> string_at (heap s) a;
               let len = as_int (int (length msg));
               if len = 0 then do { (c, s) \<leftarrow> del_first_reply c s; send_loop nwritten written c s }
               else
                 do { guard (0 \<le> sent_len c \<and> sent_len c \<le> len);
                      let (n, s) = write_call (c_fd c) (take (nat (len - sent_len c)) (drop (nat (sent_len c)) msg)) s;
                      if n \<le> 0 then Some (n, written, c, s)
                      else
                        do { let c = c\<lparr>sent_len := sent_len c + n\<rparr>;
                             if sent_len c = len then
                               do { (c, s) \<leftarrow> del_first_reply c s;
                                    send_loop n (written + n) (c\<lparr>sent_len := 0\<rparr>) s }
                             else send_loop n (written + n) c s } } })"

definition SendReplyToClient :: "CutisClient \<Rightarrow> CutisServer \<Rightarrow> client_result" where
  "SendReplyToClient c s =
     do { (nwritten, written, c, s) \<leftarrow> send_loop 0 0 c s;
          if nwritten < -1 then do { s \<leftarrow> FreeClient c s; Some (AE_ERR, None, s) }
          else
            do { let (c, s) = (if written > 0 then let (now, s) = syscall s in (c\<lparr>last_interaction := now\<rparr>, s)
                               else (c, s));
                 Some (if reply c = []
                       then (AE_OK, Some (c\<lparr>sent_len := 0\<rparr>),
                             s\<lparr>el := AeDeleteFileEvent (el s) (c_fd c) AE_WRITABLE\<rparr>)
                       else (AE_OK, Some c, s)) } }"

section \<open>Clients come and go\<close>

text \<open>\<open>p\<close> is the memory \<open>zmalloc\<close> found for the client.\<close>

definition CreateClient :: "addr \<Rightarrow> int \<Rightarrow> CutisServer \<Rightarrow> CutisServer" where
  "CreateClient p fd s =
     (let (now, s) = syscall s;
          c = \<lparr>c_id = p, c_fd = fd, query_buf = [], reply = [], sent_len = 0, last_interaction = now,
               argv = [], bulk_len = -1, c_db = 0\<rparr>;
          c = snd (SelectDB c 0 s)
      in s\<lparr>el := snd (AeCreateFileEvent (el s) fd AE_READABLE ReadProc p),
           clients := clients s @ [p],
           client_at := (client_at s)(p \<mapsto> c)\<rparr>)"

text \<open>A function on a client, called with a pointer to it.\<close>

definition with_client ::
  "(CutisClient \<Rightarrow> CutisServer \<Rightarrow> client_result) \<Rightarrow> addr \<Rightarrow> CutisServer \<Rightarrow> (int \<times> CutisServer) option"
where
  "with_client f p s =
     do { c \<leftarrow> client_at s p;
          (r, c, s) \<leftarrow> f c (s\<lparr>client_at := (client_at s)(p := None)\<rparr>);
          Some (r, s\<lparr>client_at := (client_at s)(p := c)\<rparr>) }"

end
