(* ===== verification/Server.thy ===== *)
theory Server
  imports Client
begin

text \<open>
  The server of \<open>server/server.c\<close>: its configuration, the cron function the event loop calls every
  second, the acceptance and the timeout of clients, start and clean up.
\<close>

section \<open>Configuration\<close>

definition CUTIS_SERVER_PORT :: int where "CUTIS_SERVER_PORT = 6380"
definition CUTIS_MAX_IDLE_TIME :: int where "CUTIS_MAX_IDLE_TIME = 60 * 5"
definition CUTIS_DEFAULT_DBNUM :: int where "CUTIS_DEFAULT_DBNUM = 16"
definition CUTIS_CONFIG_LINE_MAX :: nat where "CUTIS_CONFIG_LINE_MAX = 1024"
definition CUTIS_HT_MINFILL :: u32 where "CUTIS_HT_MINFILL = 10"
definition CUTIS_HT_MINSLOTS :: u32 where "CUTIS_HT_MINSLOTS = 16384"
definition CUTIS_DEBUG :: int where "CUTIS_DEBUG = 0"
definition CUTIS_NOTICE :: int where "CUTIS_NOTICE = 1"
definition CUTIS_WARNING :: int where "CUTIS_WARNING = 2"

definition AppendServerSaveParams :: "int \<Rightarrow> int \<Rightarrow> CutisServer \<Rightarrow> CutisServer" where
  "AppendServerSaveParams seconds changes s =
     s\<lparr>save_params := save_params s @ [\<lparr>sp_seconds = seconds, sp_changes = changes\<rparr>]\<rparr>"

definition ResetServerSaveParams :: "CutisServer \<Rightarrow> CutisServer" where
  "ResetServerSaveParams s = s\<lparr>save_params := []\<rparr>"

definition InitServerConfig :: "CutisServer \<Rightarrow> CutisServer" where
  "InitServerConfig s =
     (let s = s\<lparr>db_num := CUTIS_DEFAULT_DBNUM, port := CUTIS_SERVER_PORT, listen_fd := -1,
                log_file := None, verbosity := CUTIS_DEBUG, max_idle_time := CUTIS_MAX_IDLE_TIME\<rparr>;
          s = ResetServerSaveParams s;
          s = AppendServerSaveParams (60 * 60) 1 s;
          s = AppendServerSaveParams 300 100 s
      in AppendServerSaveParams 60 10000 s)"

text \<open>\<open>fgets\<close> returns a line with its newline, or the first 1024 bytes of a longer one.\<close>

definition fgets :: "string \<Rightarrow> string \<times> string" where
  "fgets r =
     (let line = takeWhile (\<lambda>ch. ch \<noteq> LF) r @ (if LF \<in> set r then [LF] else []);
          line = take CUTIS_CONFIG_LINE_MAX line
      in (line, drop (length line) r))"

lemma fgets_shrinks: "r \<noteq> [] \<Longrightarrow> length (snd (fgets r)) < length r"
  by (cases r) (auto simp: fgets_def CUTIS_CONFIG_LINE_MAX_def Let_def)

definition blanks :: string where "blanks = '' '' @ [CHR 0x09, CR, LF]"

text \<open>A directive: the new server, or none when the line is an error.\<close>

definition config_directive :: "string list \<Rightarrow> CutisServer \<Rightarrow> CutisServer option" where
  "config_directive av s =
     (let name = map tolower (av ! 0); n = length av; val = (\<lambda>i. atoi (cstr (av ! i))) in
      if strcmp_eq name ''port'' \<and> n = 2 then
        (if val 1 < 1 \<or> val 1 > 65535 then None else Some (s\<lparr>port := val 1\<rparr>))
      else if strcmp_eq name ''timeout'' \<and> n = 2 then
        (if val 1 < 1 then None else Some (s\<lparr>max_idle_time := val 1\<rparr>))
      else if strcmp_eq name ''save'' \<and> n = 3 then
        (if val 1 < 1 \<or> val 2 < 0 then None else Some (AppendServerSaveParams (val 1) (val 2) s))
      else if strcmp_eq name ''dir'' \<and> n = 2 then
        (let (r, s) = syscall s in if r = -1 then None else Some s)
      else if strcmp_eq name ''loglevel'' \<and> n = 2 then
        (if strcmp_eq (av ! 1) ''debug'' then Some (s\<lparr>verbosity := CUTIS_DEBUG\<rparr>)
         else if strcmp_eq (av ! 1) ''notice'' then Some (s\<lparr>verbosity := CUTIS_NOTICE\<rparr>)
         else if strcmp_eq (av ! 1) ''warning'' then Some (s\<lparr>verbosity := CUTIS_WARNING\<rparr>)
         else None)
      else if strcmp_eq name ''logfile'' \<and> n = 2 then
        (if strcmp_eq (av ! 1) ''stdout'' then Some (s\<lparr>log_file := None\<rparr>)
         else let (r, s) = syscall (s\<lparr>log_file := Some (cstr (av ! 1))\<rparr>)
              in if r = 0 then None else Some s)
      else if strcmp_eq name ''databases'' \<and> n = 2 then
        (if val 1 < 1 then None else Some (s\<lparr>db_num := val 1\<rparr>))
      else None)"

function config_loop :: "string \<Rightarrow> CutisServer \<Rightarrow> CutisServer option" where
  "config_loop r s =
     (if r = [] then Some s
      else
        let r' = snd (fgets r);
            line = strip (strchr_in blanks) (cstr (fst (fgets r))) in
        if line = [] \<or> hd line = CHR ''#'' then config_loop r' s
        else (case config_directive (Sds.fields (CHR '' '') line) s of
                None \<Rightarrow> None
              | Some s \<Rightarrow> config_loop r' s))"
  by pat_completeness auto
termination
  by (relation "measure (\<lambda>(r, s). length r)") (auto dest: fgets_shrinks)

declare config_loop.simps [simp del]

text \<open>
  The settings made before a bad line stay; the caller ends the program then, so the server is
  not returned.
\<close>

definition LoadServerConfig :: "string \<Rightarrow> CutisServer \<Rightarrow> int \<times> CutisServer option" where
  "LoadServerConfig filename s =
     (case files (world s) filename of
        None \<Rightarrow> (CUTIS_ERR, Some s)
      | Some text \<Rightarrow>
          (case config_loop text s of None \<Rightarrow> (CUTIS_ERR, None) | Some s \<Rightarrow> (CUTIS_OK, Some s)))"

section \<open>Starting\<close>

text \<open>\<open>anetTcpServer\<close> yields the listening socket, or \<open>-1\<close>, which ends the program.\<close>

definition InitServer :: "CutisServer \<Rightarrow> CutisServer outcome" where
  "InitServer s =
     (let (sh, h) = InitSharedObjects empty_heap;
          s = s\<lparr>clients := [], client_at := Map.empty, heap := h, shared := sh, el := AeCreateEventLoop\<rparr>;
          (fd, s) = syscall s
      in if fd = -1 then Exit
         else
           (let s = s\<lparr>listen_fd := fd, dict := replicate (nat (db_num s)) DictCreate, cron_loops := 0\<rparr>;
                (now, s) = syscall s;
                s = s\<lparr>last_save := now, bg_saving := False, dirty := 0\<rparr>;
                (sec, s) = syscall s;
                (ms, s) = syscall s;
                (_, e) = AeCreateTimeEvent (sec, ms) (el s) 1000 CronProc 0
            in Returns (s\<lparr>el := e\<rparr>)))"

text \<open>What \<open>StartServer\<close> does before it enters the event loop.\<close>

definition listen :: "CutisServer \<Rightarrow> CutisServer" where
  "listen s = s\<lparr>el := snd (AeCreateFileEvent (el s) (listen_fd s) AE_READABLE AcceptProc 0)\<rparr>"

definition AcceptHandler :: "addr \<Rightarrow> CutisServer \<Rightarrow> int \<times> CutisServer" where
  "AcceptHandler p s =
     (let (cfd, s) = syscall s in
      if cfd = -1 then (-1, s) else (0, CreateClient p cfd s))"

section \<open>The cron function\<close>

text \<open>Used slots in percent, computed in 32 bits as the code does.\<close>

definition sparse :: "('k, 'v) Dict \<Rightarrow> bool" where
  "sparse d \<longleftrightarrow> d_size d \<ge> CUTIS_HT_MINSLOTS \<and> (d_used d * 100) div d_size d < CUTIS_HT_MINFILL"

definition resize_db :: "(string, addr) Dict \<Rightarrow> (string, addr) Dict option" where
  "resize_db d = (if sparse d then map_option snd (DictResize sdsDictType d) else Some d)"

text \<open>The iterator moves on before the client under it is freed.\<close>

definition close_if_idle :: "int \<Rightarrow> addr \<Rightarrow> CutisServer \<Rightarrow> CutisServer option" where
  "close_if_idle now p s =
     do { c \<leftarrow> client_at s p;
          if now - last_interaction c > max_idle_time s
          then FreeClient c (s\<lparr>client_at := (client_at s)(p := None)\<rparr>)
          else Some s }"

definition CloseTimeoutClients :: "CutisServer \<Rightarrow> CutisServer option" where
  "CloseTimeoutClients s =
     (let (now, s) = syscall s in foldM (close_if_idle now) (clients s) s)"

definition save_due :: "int \<Rightarrow> CutisServer \<Rightarrow> SaveParam \<Rightarrow> bool" where
  "save_due now s sp \<longleftrightarrow> dirty s \<ge> sp_changes sp \<and> now - last_save s > sp_seconds sp"

text \<open>
  \<open>wait4\<close> yields 0 while the child runs, its pid when it has ended (then the next result is its exit
  code) and \<open>-1\<close> on errors, where the status that is examined was never set.
\<close>

definition check_background :: "CutisServer \<Rightarrow> CutisServer option" where
  "check_background s =
     (let (r, s) = syscall s in
      if r = 0 then Some s
      else if r < 0 then None
      else
        (let (exit_code, s) = syscall s;
             s = (if exit_code = 0
                  then let (now, s) = syscall s in s\<lparr>dirty := 0, last_save := now\<rparr>
                  else s)
         in Some (s\<lparr>bg_saving := False\<rparr>)))"

definition check_save :: "CutisServer \<Rightarrow> CutisServer" where
  "check_save s =
     (let (now, s) = syscall s in
      if list_ex (save_due now s) (save_params s) then snd (SaveDBBackground CUTIS_DB_NAME s) else s)"

definition ServerCron :: "CutisServer \<Rightarrow> (int \<times> CutisServer) option" where
  "ServerCron s =
     do { let loops = cron_loops s;
          let s = s\<lparr>cron_loops := loops + 1\<rparr>;
          ds \<leftarrow> mapM resize_db (dict s);
          let s = s\<lparr>dict := ds\<rparr>;
          s \<leftarrow> (if loops smod 10 = 0 then CloseTimeoutClients s else Some s);
          s \<leftarrow> (if bg_saving s then check_background s else Some (check_save s));
          Some (1000, s) }"

section \<open>Stopping\<close>

text \<open>
  \<open>CleanServer\<close> frees the clients, the databases, the shared objects and the free list, the event
  loop and the name of the log file; what is left of the heap is returned.
\<close>

definition free_client_at :: "addr \<Rightarrow> CutisServer \<Rightarrow> CutisServer option" where
  "free_client_at p s =
     do { c \<leftarrow> client_at s p; FreeClient c (s\<lparr>client_at := (client_at s)(p := None)\<rparr>) }"

definition release_db :: "(string, addr) Dict \<Rightarrow> heap \<Rightarrow> heap option" where
  "release_db d h = DictRelease sdsDictType d h"

definition CleanServer :: "CutisServer \<Rightarrow> CutisServer option" where
  "CleanServer s =
     do { s \<leftarrow> foldM free_client_at (clients s) s;
          h \<leftarrow> foldM release_db (dict s) (heap s);
          h \<leftarrow> ReleaseSharedObjects (shared s) h;
          let s = ResetServerSaveParams (s\<lparr>dict := [], heap := h\<lparr>free_objs := []\<rparr>\<rparr>);
          Some (s\<lparr>el := AeDeleteEventLoop (el s), log_file := None\<rparr>) }"

end
