(* ===== verification/Keyspace.thy ===== *)
theory Keyspace
  imports Command
begin

text \<open>
  What the commands do to the databases a client sees. The lemmas of the first part say how the
  steps that commands are made of (creating and releasing objects, replies, operations on a
  database, storing into a container) act on the invariant \<open>serving\<close>, on the keyspace and on the
  pending output; the theorems of the second part put them together, one for each command.
\<close>

section \<open>Fields the invariant does not depend on\<close>

lemma refs_dirty [simp]:
  "server_refs (s\<lparr>dirty := n\<rparr>) = server_refs s" "server_refs (s\<lparr>heap := h\<rparr>) = server_refs s"
  "server_refs (s\<lparr>el := e\<rparr>) = server_refs s" "server_refs (s\<lparr>world := w\<rparr>) = server_refs s"
  by (simp_all add: server_refs_def db_refs_def waiting_def)

lemma all_refs_dirty [simp]:
  "all_refs X c (s\<lparr>dirty := n\<rparr>) = all_refs X c s" "all_refs X c (s\<lparr>heap := h\<rparr>) = all_refs X c s"
  "all_refs X c (s\<lparr>el := e\<rparr>) = all_refs X c s" "all_refs X c (s\<lparr>world := w\<rparr>) = all_refs X c s"
  "all_refs X (take_arg i c) s = all_refs X c s" "all_refs X (c\<lparr>argv := av\<rparr>) s = all_refs X c s"
  by (simp_all add: all_refs_def take_arg_def)

lemma addr_map_dirty [simp]:
  "addr_map (s\<lparr>dirty := n\<rparr>) = addr_map s" "addr_map (s\<lparr>heap := h\<rparr>) = addr_map s"
  "addr_map (s\<lparr>el := e\<rparr>) = addr_map s" "addr_map (s\<lparr>world := w\<rparr>) = addr_map s"
  by (simp_all add: addr_map_def fun_eq_iff)

lemma keyspace_dirty [simp]:
  "keyspace (s\<lparr>dirty := n\<rparr>) = keyspace s" "keyspace (s\<lparr>el := e\<rparr>) = keyspace s"
  "keyspace (s\<lparr>world := w\<rparr>) = keyspace s"
  by (simp_all add: keyspace_def fun_eq_iff)

lemma pending_dirty [simp]:
  "pending c (s\<lparr>dirty := n\<rparr>) = pending c s" "pending c (s\<lparr>el := e\<rparr>) = pending c s"
  "pending c (s\<lparr>world := w\<rparr>) = pending c s" "pending (take_arg i c) s = pending c s"
  "pending (c\<lparr>argv := av\<rparr>) s = pending c s"
  by (simp_all add: pending_def take_arg_def)

lemma ok_dirty [simp]:
  "shared_ok (s\<lparr>dirty := n\<rparr>) = shared_ok s" "dbs_ok (s\<lparr>dirty := n\<rparr>) = dbs_ok s"
  "shared_ok (s\<lparr>el := e\<rparr>) = shared_ok s" "dbs_ok (s\<lparr>el := e\<rparr>) = dbs_ok s"
  "shared_ok (s\<lparr>world := w\<rparr>) = shared_ok s" "dbs_ok (s\<lparr>world := w\<rparr>) = dbs_ok s"
  by (simp_all add: shared_ok_def dbs_ok_def db_refs_def)

lemma waiting_simps [simp]:
  "waiting (s\<lparr>heap := h\<rparr>) = waiting s" "waiting (s\<lparr>dirty := n\<rparr>) = waiting s" "waiting (s\<lparr>el := e\<rparr>) = waiting s"
  "waiting (s\<lparr>world := w\<rparr>) = waiting s" "waiting (put_db i d s) = waiting s"
  by (simp_all add: waiting_def put_db_def)

lemma serving_dirty [simp]:
  "serving X c (s\<lparr>dirty := n\<rparr>) = serving X c s" "serving X c (s\<lparr>el := e\<rparr>) = serving X c s"
  "serving X c (s\<lparr>world := w\<rparr>) = serving X c s"
  "serving X (take_arg i c) s = serving X c s" "serving X (c\<lparr>argv := av\<rparr>) s = serving X c s"
  by (simp_all add: serving_def) (simp_all add: take_arg_def)

lemma db_inj_dirty [simp]:
  "db_inj (s\<lparr>dirty := n\<rparr>) = db_inj s" "db_inj (s\<lparr>heap := h\<rparr>) = db_inj s" "db_inj (s\<lparr>el := e\<rparr>) = db_inj s"
  "db_inj (s\<lparr>world := w\<rparr>) = db_inj s"
  by (simp_all add: db_inj_def)

section \<open>Databases and the references they hold\<close>

lemma servingD:
  assumes "serving X c s"
  shows "heap_ok (all_refs X c s) (heap s)" and "shared_ok s" and "dbs_ok s" and "c_db c < length (dict s)"
    and "a \<in># mset (reply c) + waiting s \<Longrightarrow> \<exists>t. obj_value (heap s) a = VString t"
  using assms unfolding serving_def by blast+

lemma dbs_okD: "dbs_ok s \<Longrightarrow> i < length (dict s) \<Longrightarrow> dict_ok sdsDictType (\<lambda>k. k) (dict s ! i)"
  by (simp add: dbs_ok_def)

lemma addr_map_ref:
  assumes "dbs_ok s" and "addr_map s i k = Some a"
  shows "a \<in># db_refs s"
proof -
  from assms(2) have i: "i < length (dict s)" "dict_map (\<lambda>k. k) (dict s ! i) k = Some a"
    by (auto simp: addr_map_def split: if_splits)
  then have "(k, a) \<in> set (entries (dict s ! i))"
    using dict_map_Some [OF dict_ok_tableD(3) [OF dbs_okD [OF assms(1) i(1)]]] by fastforce
  then show ?thesis using i(1) unfolding db_refs_def by force
qed

lemma addr_map_all_refs: "dbs_ok s \<Longrightarrow> addr_map s i k = Some a \<Longrightarrow> a \<in># all_refs X c s"
  using addr_map_ref by (auto simp: all_refs_def server_refs_def)

lemma find_key_ok:
  assumes "serving X c s" and "arg 1 c = Some k"
  shows "find_key c s = Some (map_option (Pair k) (addr_map s (c_db c) k))"
proof -
  let ?d = "dict s ! c_db c"
  note ok = dbs_okD [OF servingD(3,4) [OF assms(1)]]
  have d: "db_of c s = Some ?d" using servingD(4) [OF assms(1)] by (simp add: db_of_def)
  from db.DictFind_ok [OF ok, of k] obtain r where
    "DictFind sdsDictType k ?d = Some r" "dict_map (\<lambda>k. k) ?d k = map_option snd r"
    "\<forall>k' v. r = Some (k', v) \<longrightarrow> (k', v) \<in> set (entries ?d) \<and> k' = k" by metis
  then show ?thesis using d assms(2) servingD(4) [OF assms(1)]
    by (cases r) (auto simp: find_key_def addr_map_def)
qed

lemma shared_in: "a \<in> set (shared_refs (shared s)) \<Longrightarrow> a \<in># all_refs X c s"
  by (simp add: all_refs_def server_refs_def)

text \<open>Only values change the meaning of a server: with the same values, all stays as it is.\<close>

lemma serving_values:
  assumes "serving X c s" and "heap_ok (all_refs X' c s) h"
    and "\<forall>b \<in># all_refs {#} c s. obj_value h b = obj_value (heap s) b"
  shows "serving X' c (s\<lparr>heap := h\<rparr>)" and "keyspace (s\<lparr>heap := h\<rparr>) = keyspace s"
    and "pending c (s\<lparr>heap := h\<rparr>) = pending c s"
proof -
  note S = servingD [OF assms(1)]
  have v: "obj_value h b = obj_value (heap s) b" if "b \<in># all_refs {#} c s" for b
    using that assms(3) by blast
  have sh: "obj_value h b = obj_value (heap s) b" if "b \<in> set (shared_refs (shared s))" for b
    using v shared_in [OF that] by blast
  have rp: "obj_value h b = obj_value (heap s) b" if "b \<in> set (reply c)" for b
    using v that by (simp add: all_refs_def)
  have wt: "obj_value h b = obj_value (heap s) b" if "b \<in># waiting s" for b
    using v that by (simp add: all_refs_def server_refs_def)
  have db: "obj_value h b = obj_value (heap s) b" if "b \<in># db_refs s" for b
    using v that by (simp add: all_refs_def server_refs_def)
  have "shared_ok (s\<lparr>heap := h\<rparr>)" using S(2) sh by (simp add: shared_ok_def shared_refs_def Let_def)
  moreover have "dbs_ok (s\<lparr>heap := h\<rparr>)" using S(3) db by (auto simp: dbs_ok_def db_refs_def)
  ultimately show "serving X' c (s\<lparr>heap := h\<rparr>)" using S(4,5) rp wt assms(2) by (auto simp: serving_def)
  show "keyspace (s\<lparr>heap := h\<rparr>) = keyspace s"
  proof (intro ext)
    fix i k
    show "keyspace (s\<lparr>heap := h\<rparr>) i k = keyspace s i k"
      using db addr_map_ref [OF S(3)] by (cases "addr_map s i k") (simp_all add: keyspace_def)
  qed
  show "pending c (s\<lparr>heap := h\<rparr>) = pending c s"
    using rp by (auto simp: pending_def intro!: arg_cong [of _ _ concat])
qed

section \<open>Steps that keep the keyspace\<close>

lemma said_serving:
  assumes "serving X c s" and "said (all_refs X c s) c s txt c' s'"
  shows "serving X c' s' \<and> keyspace s' = keyspace s \<and> pending c' s' = pending c s @ txt \<and>
    addr_map s' = addr_map s \<and> (\<forall>b \<in># all_refs X c s. obj_value (heap s') b = obj_value (heap s) b) \<and>
    dirty s' = dirty s \<and> argv c' = argv c \<and> c_db c' = c_db c \<and> dict s' = dict s"
proof -
  from assms(2) obtain as h e where s': "c' = c\<lparr>reply := reply c @ as\<rparr>" "s' = s\<lparr>heap := h, el := e\<rparr>"
    "heap_ok (mset as + all_refs X c s) h" "keeps h (heap s)"
    "\<forall>a \<in> set as. \<exists>t. obj_value h a = VString t" "concat (map (text_of \<circ> obj_value h) as) = txt"
    unfolding said_def by blast
  have hk: "heap_ok (all_refs (mset as + X) c s) h" using s'(3) by (simp add: all_refs_def ac_simps)
  have v: "\<forall>b \<in># all_refs X c s. obj_value h b = obj_value (heap s) b"
    using kept_value [OF s'(4) servingD(1) [OF assms(1)]] live [OF servingD(1) [OF assms(1)]] by blast
  then have "\<forall>b \<in># all_refs {#} c s. obj_value h b = obj_value (heap s) b" by (simp add: all_refs_def)
  note V = serving_values [OF assms(1) hk this]
  have r: "all_refs X c' s = all_refs (mset as + X) c s" using s'(1) by (simp add: all_refs_def ac_simps)
  have "serving X c' (s\<lparr>heap := h\<rparr>)"
    using V(1) s'(1,5) by (auto simp: serving_def r [simplified s'(1)])
  moreover have "pending c' (s\<lparr>heap := h\<rparr>) = pending c s @ txt"
    using V(3) s'(1,6) by (simp add: pending_def)
  ultimately show ?thesis using V(2) s' v by (simp add: fun_eq_iff)
qed

lemma reply_shared_said:
  assumes "said R c s txt c1 s1" and "heap_ok R (heap s)" and "obj_value (heap s) (f (shared s)) = VString t"
  shows "\<exists>c2 s2. reply_shared f c1 s1 = Some (c2, s2) \<and> said R c s (txt @ t) c2 s2"
proof -
  have "shared s1 = shared s" using assms(1) by (auto simp: said_def)
  then show ?thesis using said_reply [OF assms] by (simp add: reply_shared_def)
qed

lemma all_refs_add: "all_refs (add_mset a X) c s = add_mset a (all_refs X c s)"
  by (simp add: all_refs_def)

lemma create_ok:
  assumes "serving X c s" and "create p s = (a, s1)" and "refs_of p = {#}" and "wf_ptr (objs (heap s)) p"
  shows "\<exists>h. s1 = s\<lparr>heap := h\<rparr> \<and> serving (add_mset a X) c s1 \<and> keyspace s1 = keyspace s \<and>
    pending c s1 = pending c s \<and> obj_value h a = ptr_value (heap s) p \<and>
    (\<forall>b \<in># all_refs X c s. obj_value h b = obj_value (heap s) b) \<and> a \<notin># all_refs X c s \<and>
    objs h = (objs (heap s))(a \<mapsto> \<lparr>optr = p, refcount = 1\<rparr>)"
proof -
  obtain h where h: "CreateCutisObject p (heap s) = (a, h)" "s1 = s\<lparr>heap := h\<rparr>"
    using assms(2) by (auto simp: create_def split: prod.splits)
  from Create_value [OF servingD(1) [OF assms(1)] h(1) assms(3,4)] have
    v: "heap_ok (all_refs (add_mset a X) c s) h" "obj_value h a = ptr_value (heap s) p"
      "\<forall>b \<in># all_refs X c s. obj_value h b = obj_value (heap s) b" "a \<notin># all_refs X c s"
      "objs h = (objs (heap s))(a \<mapsto> \<lparr>optr = p, refcount = 1\<rparr>)"
    by (simp_all add: all_refs_add)
  have "\<forall>b \<in># all_refs {#} c s. obj_value h b = obj_value (heap s) b"
    using v(3) by (simp add: all_refs_def)
  from serving_values [OF assms(1) v(1) this] v h(2) show ?thesis by (intro exI [of _ h]) simp
qed

lemma decr_ok:
  assumes "serving (add_mset a X) c s"
  shows "\<exists>h. decr a s = Some (s\<lparr>heap := h\<rparr>) \<and> serving X c (s\<lparr>heap := h\<rparr>) \<and>
    keyspace (s\<lparr>heap := h\<rparr>) = keyspace s \<and> pending c (s\<lparr>heap := h\<rparr>) = pending c s \<and>
    (\<forall>b \<in># all_refs X c s. obj_value h b = obj_value (heap s) b)"
proof -
  have "heap_ok (add_mset a (all_refs X c s)) (heap s)"
    using servingD(1) [OF assms] by (simp add: all_refs_add)
  from store.decr_law [OF this] obtain h where h: "DecrRefCount a (heap s) = Some h"
    "heap_ok (all_refs X c s) h" "\<forall>b \<in># all_refs X c s. obj_value h b = obj_value (heap s) b" by blast
  have "\<forall>b \<in># all_refs {#} c s. obj_value h b = obj_value (heap s) b"
    using h(3) by (simp add: all_refs_def)
  from serving_values [OF assms h(2) this] h show ?thesis
    by (intro exI [of _ h]) (simp add: decr_def)
qed

section \<open>Operations on a database\<close>

definition room :: "nat \<Rightarrow> CutisServer \<Rightarrow> bool" where
  "room i s \<longleftrightarrow> i < length (dict s) \<and> unat (d_used (dict s ! i)) < 2 ^ 27"

lemma room_simps [simp]:
  "room i (s\<lparr>heap := h\<rparr>) = room i s" "room i (s\<lparr>el := e\<rparr>) = room i s" "room i (s\<lparr>dirty := n\<rparr>) = room i s"
  by (simp_all add: room_def)

lemma sds_type_dups [simp]: "DictSetHashKey sdsDictType k = k" "DictSetHashVal sdsDictType v = v"
  by (simp_all add: DictSetHashKey_def DictSetHashVal_def sdsDictType_def)

lemma sds_type_frees [simp]:
  "DictFreeEntryKey sdsDictType k h = Some h" "DictFreeEntryVal sdsDictType v h = DecrRefCount v h"
  by (simp_all add: DictFreeEntryKey_def DictFreeEntryVal_def sdsDictType_def)

lemma addr_map_put:
  "i < length (dict s) \<Longrightarrow> addr_map (put_db i d s) = (addr_map s)(i := dict_map (\<lambda>k. k) d)"
  by (rule ext) (simp add: addr_map_def put_db_def)

lemma db_refs_put:
  assumes "i < length (dict s)"
  shows "db_refs (put_db i d s) + mset (map snd (entries (dict s ! i))) = db_refs s + mset (map snd (entries d))"
proof -
  let ?f = "\<lambda>d. map snd (entries d)"
  have "map ?f ((dict s)[i := d]) = (map ?f (dict s))[i := ?f d]" by (simp add: map_update)
  then show ?thesis
    using concat_update_perm [of i "map ?f (dict s)" "?f d"] assms by (simp add: db_refs_def put_db_def)
qed

text \<open>A database changed, with the references moving accordingly, and a heap that fits them.\<close>

lemma serving_put:
  assumes "serving X c s" and "i < length (dict s)" and "dict_ok sdsDictType (\<lambda>k. k) d"
    and "heap_ok (all_refs X' c (put_db i d s)) h"
    and "\<forall>b \<in># all_refs X' c (put_db i d s). obj_value h b = obj_value (heap s) b"
    and "\<forall>b \<in> snd ` set (entries d). obj_value (heap s) b \<noteq> VNull"
  shows "serving X' c (put_db i d (s\<lparr>heap := h\<rparr>))" and "pending c (put_db i d (s\<lparr>heap := h\<rparr>)) = pending c s"
proof -
  note S = servingD [OF assms(1)]
  let ?s = "put_db i d (s\<lparr>heap := h\<rparr>)"
  have r: "all_refs Y c ?s = all_refs Y c (put_db i d s)" "db_refs ?s = db_refs (put_db i d s)" for Y
    by (simp_all add: all_refs_def server_refs_def db_refs_def waiting_def put_db_def)
  have v: "obj_value h b = obj_value (heap s) b" if "b \<in># all_refs {#} c (put_db i d s)" for b
    using assms(5) that by (simp add: all_refs_def)
  have sh: "obj_value h b = obj_value (heap s) b" if "b \<in> set (shared_refs (shared s))" for b
    using v that by (simp add: all_refs_def server_refs_def put_db_def)
  have rp: "obj_value h b = obj_value (heap s) b" if "b \<in> set (reply c)" for b
    using v that by (simp add: all_refs_def)
  have wt: "obj_value h b = obj_value (heap s) b" if "b \<in># waiting s" for b
    using v that by (simp add: all_refs_def server_refs_def put_db_def waiting_def)
  have w: "waiting ?s = waiting s" by (simp add: put_db_def waiting_def)
  have "shared_ok ?s" using S(2) sh by (simp add: shared_ok_def shared_refs_def Let_def put_db_def)
  moreover have "dbs_ok ?s"
  proof -
    have "obj_value h a \<noteq> VNull" if a: "a \<in># db_refs (put_db i d s)" for a
    proof -
      have "a \<in># db_refs s + mset (map snd (entries d))"
        using a db_refs_put [OF assms(2), of d] by (metis union_iff)
      then have "obj_value (heap s) a \<noteq> VNull" using S(3) assms(6) by (auto simp: dbs_ok_def)
      then show ?thesis using v [of a] a by (simp add: all_refs_def server_refs_def)
    qed
    moreover have "\<forall>d' \<in> set ((dict s)[i := d]). dict_ok sdsDictType (\<lambda>k. k) d'"
      using S(3) assms(3) set_update_subset_insert [of "dict s" i d] by (auto simp: dbs_ok_def)
    ultimately show ?thesis using S(3) unfolding dbs_ok_def r by (simp add: put_db_def)
  qed
  ultimately show "serving X' c ?s" using S(4,5) rp wt assms(4) unfolding serving_def r w
    by (auto simp: put_db_def)
  show "pending c ?s = pending c s"
    using rp by (auto simp: pending_def put_db_def intro!: arg_cong [of _ _ concat])
qed

lemma all_refs_put:
  "all_refs X c (put_db i d s) = X + mset (reply c) + (mset (shared_refs (shared s)) + db_refs (put_db i d s) + waiting s)"
  by (simp add: all_refs_def server_refs_def waiting_def put_db_def)

lemma db_value_nonnull:
  assumes "serving X c s" and "i < length (dict s)" and "b \<in> snd ` set (entries (dict s ! i))"
  shows "obj_value (heap s) b \<noteq> VNull"
proof -
  have "b \<in># db_refs s" using assms(2,3) by (auto simp: db_refs_def)
  then show ?thesis using servingD(3) [OF assms(1)] by (simp add: dbs_ok_def)
qed

text \<open>A key that is there already stops \<open>DictAdd\<close>, whatever the object.\<close>

lemma db_add_refused:
  assumes "serving X c s" and "room i s" and "addr_map s i k \<noteq> None"
  shows "\<exists>d. db_add k a i s = Some (DICT_ERR, put_db i d s) \<and> serving X c (put_db i d s) \<and>
    addr_map (put_db i d s) = addr_map s \<and> pending c (put_db i d s) = pending c s \<and> room i (put_db i d s)"
proof -
  note S = servingD [OF assms(1)]
  have i: "i < length (dict s)" "unat (d_used (dict s ! i)) < 2 ^ 27" using assms(2) by (simp_all add: room_def)
  note ok = dbs_okD [OF S(3) i(1)]
  have m: "addr_map s i = dict_map (\<lambda>k. k) (dict s ! i)" using i(1) by (simp add: addr_map_def)
  from db.DictAdd_ok [OF ok i(2), of k a] assms(3) m obtain d where
    d: "DictAdd sdsDictType k a (dict s ! i) = Some (DICT_ERR, d)" "db.ok d"
      "mset (entries d) = mset (entries (dict s ! i))" by (auto simp: dom_def)
  have "mset (map snd (entries d)) = mset (map snd (entries (dict s ! i)))"
    using arg_cong [OF d(3), of "image_mset snd"] by simp
  then have "db_refs (put_db i d s) = db_refs s" using db_refs_put [OF i(1), of d] by simp
  then have r: "all_refs Y c (put_db i d s) = all_refs Y c s" for Y
    unfolding all_refs_put by (simp add: all_refs_def server_refs_def)
  have nn: "\<forall>b \<in> snd ` set (entries d). obj_value (heap s) b \<noteq> VNull"
    using db_value_nonnull [OF assms(1) i(1)] d(3) by (metis set_mset_mset)
  have same: "s\<lparr>heap := heap s\<rparr> = s" by simp
  from serving_put [OF assms(1) i(1) d(2), of X "heap s"] r S(1) nn
  have "serving X c (put_db i d s)" "pending c (put_db i d s) = pending c s" by (simp_all add: same)
  moreover have "addr_map (put_db i d s) = addr_map s"
    by (simp only: addr_map_put [OF i(1)] dict_map_perm [OF d(3) dict_ok_tableD(3) [OF d(2)]]
        m [symmetric] fun_upd_triv)
  moreover have "room i (put_db i d s)"
  proof -
    have "unat (d_used d) = unat (d_used (dict s ! i))"
      using dict_ok_tableD(2) [OF d(2)] dict_ok_tableD(2) [OF ok] d(3) by (metis size_mset)
    then show ?thesis using i by (simp add: room_def put_db_def)
  qed
  ultimately show ?thesis using d(1) i(1) by (intro exI [of _ d]) (simp add: db_add_def)
qed

lemma db_add_ok:
  assumes "serving (add_mset a X) c s" and "room i s" and "obj_value (heap s) a \<noteq> VNull"
    and "addr_map s i k = None"
  shows "\<exists>d. db_add k a i s = Some (DICT_OK, put_db i d s) \<and> serving X c (put_db i d s) \<and>
    addr_map (put_db i d s) = (addr_map s)(i := (addr_map s i)(k \<mapsto> a)) \<and>
    pending c (put_db i d s) = pending c s"
proof -
  note S = servingD [OF assms(1)]
  have i: "i < length (dict s)" "unat (d_used (dict s ! i)) < 2 ^ 27" using assms(2) by (simp_all add: room_def)
  note ok = dbs_okD [OF S(3) i(1)]
  have m: "addr_map s i = dict_map (\<lambda>k. k) (dict s ! i)" using i(1) by (simp add: addr_map_def)
  from db.DictAdd_ok [OF ok i(2), of k a] assms(4) m obtain d where
    d: "DictAdd sdsDictType k a (dict s ! i) = Some (DICT_OK, d)" "db.ok d"
      "mset (entries d) = add_mset (k, a) (mset (entries (dict s ! i)))" by (auto simp: dom_def)
  have "mset (map snd (entries d)) = add_mset a (mset (map snd (entries (dict s ! i))))"
    using arg_cong [OF d(3), of "image_mset snd"] by simp
  then have "db_refs (put_db i d s) = add_mset a (db_refs s)" using db_refs_put [OF i(1), of d] by simp
  then have r: "all_refs X c (put_db i d s) = all_refs (add_mset a X) c s"
    unfolding all_refs_put by (simp add: all_refs_def server_refs_def)
  have nn: "\<forall>b \<in> snd ` set (entries d). obj_value (heap s) b \<noteq> VNull"
  proof -
    have "set (entries d) = insert (k, a) (set (entries (dict s ! i)))"
      using d(3) by (metis set_mset_add_mset_insert set_mset_mset)
    then show ?thesis using db_value_nonnull [OF assms(1) i(1)] assms(3) by auto
  qed
  have same: "s\<lparr>heap := heap s\<rparr> = s" by simp
  from serving_put [OF assms(1) i(1) d(2), of X "heap s"] r S(1) nn
  have "serving X c (put_db i d s)" "pending c (put_db i d s) = pending c s" by (simp_all add: same)
  moreover have "addr_map (put_db i d s) = (addr_map s)(i := (addr_map s i)(k \<mapsto> a))"
    using dict_map_cons [OF d(3) dict_ok_tableD(3) [OF d(2)]] m by (simp add: addr_map_put [OF i(1)])
  ultimately show ?thesis using d(1) i(1) by (intro exI [of _ d]) (simp add: db_add_def)
qed

text \<open>Replacing the value of a key, and deleting a key, release the old value.\<close>

lemma release_old:
  assumes "serving Y c s" and "i < length (dict s)" and "db.ok d"
    and "all_refs Y c s = add_mset old (all_refs X c (put_db i d s))"
    and "\<forall>b \<in> snd ` set (entries d). obj_value (heap s) b \<noteq> VNull"
  shows "\<exists>h. DecrRefCount old (heap s) = Some h \<and> serving X c (put_db i d (s\<lparr>heap := h\<rparr>)) \<and>
    pending c (put_db i d (s\<lparr>heap := h\<rparr>)) = pending c s \<and>
    (\<forall>b \<in># all_refs X c (put_db i d s). obj_value h b = obj_value (heap s) b)"
proof -
  have "heap_ok (add_mset old (all_refs X c (put_db i d s))) (heap s)"
    using servingD(1) [OF assms(1)] assms(4) by simp
  from store.decr_law [OF this] obtain h where h: "DecrRefCount old (heap s) = Some h"
    "heap_ok (all_refs X c (put_db i d s)) h"
    "\<forall>b \<in># all_refs X c (put_db i d s). obj_value h b = obj_value (heap s) b" by blast
  from serving_put [OF assms(1-3) h(2,3) assms(5)] h show ?thesis by blast
qed

lemma db_replace_ok:
  assumes "serving (add_mset a X) c s" and "room i s" and "obj_value (heap s) a \<noteq> VNull"
    and "addr_map s i k = Some old"
  shows "\<exists>d h. db.ok d \<and> db_replace k a i s = Some (DICT_OK, put_db i d (s\<lparr>heap := h\<rparr>)) \<and>
    serving X c (put_db i d (s\<lparr>heap := h\<rparr>)) \<and>
    addr_map (put_db i d (s\<lparr>heap := h\<rparr>)) = (addr_map s)(i := (addr_map s i)(k \<mapsto> a)) \<and>
    pending c (put_db i d (s\<lparr>heap := h\<rparr>)) = pending c s \<and>
    (\<forall>b \<in># all_refs X c (put_db i d s). obj_value h b = obj_value (heap s) b) \<and>
    all_refs (add_mset a X) c s = add_mset old (all_refs X c (put_db i d s))"
proof -
  note S = servingD [OF assms(1)]
  have i: "i < length (dict s)" "unat (d_used (dict s ! i)) < 2 ^ 27" using assms(2) by (simp_all add: room_def)
  note ok = dbs_okD [OF S(3) i(1)]
  have m: "addr_map s i = dict_map (\<lambda>k. k) (dict s ! i)" using i(1) by (simp add: addr_map_def)
  from db.DictReplace_ok [OF ok i(2), of k a "heap s"] assms(4) m obtain d M where
    d: "DictReplace sdsDictType k a (dict s ! i) (heap s) =
        map_option (\<lambda>h. (DICT_OK, d, h)) (DecrRefCount old (heap s))" "db.ok d"
      "mset (entries (dict s ! i)) = add_mset (k, old) M" "mset (entries d) = add_mset (k, a) M" by auto
  have snds: "mset (map snd (entries (dict s ! i))) = add_mset old (image_mset snd M)"
      "mset (map snd (entries d)) = add_mset a (image_mset snd M)"
    using arg_cong [OF d(3), of "image_mset snd"] arg_cong [OF d(4), of "image_mset snd"] by simp_all
  have "add_mset old (db_refs (put_db i d s)) = add_mset a (db_refs s)"
  proof -
    have "db_refs (put_db i d s) + add_mset old (image_mset snd M) = db_refs s + add_mset a (image_mset snd M)"
      using db_refs_put [OF i(1), of d] unfolding snds .
    then have "add_mset old (db_refs (put_db i d s)) + image_mset snd M = add_mset a (db_refs s) + image_mset snd M"
      by simp
    then show ?thesis by (simp only: add_right_cancel)
  qed
  then have r: "all_refs (add_mset a X) c s = add_mset old (all_refs X c (put_db i d s))"
    unfolding all_refs_put by (simp add: all_refs_def server_refs_def)
  have "\<forall>b \<in> snd ` set (entries d). obj_value (heap s) b \<noteq> VNull"
  proof
    fix b assume "b \<in> snd ` set (entries d)"
    then have "b \<in># add_mset a (image_mset snd M)" using snds(2) by (metis set_map set_mset_mset)
    then have "b = a \<or> b \<in> snd ` set (entries (dict s ! i))" using snds(1) by (metis insert_iff set_map set_mset_add_mset_insert set_mset_mset)
    then show "obj_value (heap s) b \<noteq> VNull" using db_value_nonnull [OF assms(1) i(1)] assms(3) by auto
  qed
  from release_old [OF assms(1) i(1) d(2) r this] obtain h where
    h: "DecrRefCount old (heap s) = Some h" "serving X c (put_db i d (s\<lparr>heap := h\<rparr>))"
      "pending c (put_db i d (s\<lparr>heap := h\<rparr>)) = pending c s"
      "\<forall>b \<in># all_refs X c (put_db i d s). obj_value h b = obj_value (heap s) b" by blast
  have "addr_map (put_db i d (s\<lparr>heap := h\<rparr>)) = (addr_map s)(i := (addr_map s i)(k \<mapsto> a))"
  proof -
    have "dict_map (\<lambda>k. k) d = (dict_map (\<lambda>k. k) (dict s ! i))(k \<mapsto> a)"
    proof -
      obtain es where es: "mset es = M" by (metis ex_mset)
      have "dict_map (\<lambda>k. k) d = (map_of es)(k \<mapsto> a)"
      proof -
        have "distinct (map fst (entries d))" using dict_ok_tableD(3) [OF d(2)] by (simp add: comp_def)
        then have "map_of (entries d) = map_of ((k, a) # es)"
          using d(4) es by (intro map_of_perm) simp_all
        then show ?thesis by (simp add: dict_map_def)
      qed
      moreover have "dict_map (\<lambda>k. k) (dict s ! i) = (map_of es)(k \<mapsto> old)"
      proof -
        have "distinct (map fst (entries (dict s ! i)))" using dict_ok_tableD(3) [OF ok] by (simp add: comp_def)
        then have "map_of (entries (dict s ! i)) = map_of ((k, old) # es)"
          using d(3) es by (intro map_of_perm) simp_all
        then show ?thesis by (simp add: dict_map_def)
      qed
      ultimately show ?thesis by simp
    qed
    then show ?thesis using i(1) m by (simp add: addr_map_put)
  qed
  moreover have "db_replace k a i s = Some (DICT_OK, put_db i d (s\<lparr>heap := h\<rparr>))"
    using d(1) h(1) i(1) by (simp add: db_replace_def)
  ultimately show ?thesis using h d(2) r by (intro exI [of _ d] exI [of _ h]) simp
qed

lemma db_delete_ok:
  assumes "serving X c s" and "i < length (dict s)"
  shows "case addr_map s i k of
      None \<Rightarrow> db_delete k i s = Some (DICT_ERR, s)
    | Some old \<Rightarrow> \<exists>d h. db.ok d \<and> db_delete k i s = Some (DICT_OK, put_db i d (s\<lparr>heap := h\<rparr>)) \<and>
        serving X c (put_db i d (s\<lparr>heap := h\<rparr>)) \<and>
        addr_map (put_db i d (s\<lparr>heap := h\<rparr>)) = (addr_map s)(i := (addr_map s i)(k := None)) \<and>
        pending c (put_db i d (s\<lparr>heap := h\<rparr>)) = pending c s \<and>
        (\<forall>b \<in># all_refs X c (put_db i d s). obj_value h b = obj_value (heap s) b) \<and>
        all_refs X c s = add_mset old (all_refs X c (put_db i d s))"
proof -
  note S = servingD [OF assms(1)]
  note ok = dbs_okD [OF S(3) assms(2)]
  have m: "addr_map s i = dict_map (\<lambda>k. k) (dict s ! i)" using assms(2) by (simp add: addr_map_def)
  have same: "put_db i (dict s ! i) (s\<lparr>heap := heap s\<rparr>) = s" by (simp add: put_db_def)
  show ?thesis
  proof (cases "addr_map s i k")
    case None
    then show ?thesis
      using db.DictGenericDelete_ok [OF ok, of k False "heap s"] m assms(2) same
      by (simp add: db_delete_def DictDelete_def)
  next
    case (Some old)
    with db.DictGenericDelete_ok [OF ok, of k False "heap s"] m obtain d where
      d: "DictGenericDelete sdsDictType k False (dict s ! i) (heap s) =
          map_option (\<lambda>h. (DICT_OK, d, h)) (DecrRefCount old (heap s))" "db.ok d"
        "mset (entries (dict s ! i)) = add_mset (k, old) (mset (entries d))" by auto
    have snds: "mset (map snd (entries (dict s ! i))) = add_mset old (mset (map snd (entries d)))"
      using arg_cong [OF d(3), of "image_mset snd"] by simp
    have "db_refs s = add_mset old (db_refs (put_db i d s))"
      using db_refs_put [OF assms(2), of d] unfolding snds by simp
    then have r: "all_refs X c s = add_mset old (all_refs X c (put_db i d s))"
      unfolding all_refs_put by (simp add: all_refs_def server_refs_def)
    have "\<forall>b \<in> snd ` set (entries d). obj_value (heap s) b \<noteq> VNull"
    proof
      fix b assume "b \<in> snd ` set (entries d)"
      then have "b \<in> snd ` set (entries (dict s ! i))"
        using snds by (metis insertCI set_map set_mset_add_mset_insert set_mset_mset)
      then show "obj_value (heap s) b \<noteq> VNull" by (rule db_value_nonnull [OF assms])
    qed
    from release_old [OF assms d(2) r this] obtain h where
      h: "DecrRefCount old (heap s) = Some h" "serving X c (put_db i d (s\<lparr>heap := h\<rparr>))"
        "pending c (put_db i d (s\<lparr>heap := h\<rparr>)) = pending c s"
        "\<forall>b \<in># all_refs X c (put_db i d s). obj_value h b = obj_value (heap s) b" by blast
    have "addr_map (put_db i d (s\<lparr>heap := h\<rparr>)) = (addr_map s)(i := (addr_map s i)(k := None))"
      using dict_map_uncons [OF d(3) dict_ok_tableD(3) [OF ok]] assms(2) m by (simp add: addr_map_put)
    moreover have "db_delete k i s = Some (DICT_OK, put_db i d (s\<lparr>heap := h\<rparr>))"
      using d(1) h(1) assms(2) by (simp add: db_delete_def DictDelete_def)
    ultimately show ?thesis using h d(2) r Some by auto
  qed
qed

section \<open>Storing into a container\<close>

lemma container_value: "obj_value h a = VString t \<Longrightarrow> \<exists>o'. objs h a = Some o' \<and> optr o' = OString (Some t)"
proof -
  assume v: "obj_value h a = VString t"
  then obtain o' where o': "objs h a = Some o'" "ptr_value h (optr o') = VString t"
    by (cases "objs h a") (simp_all add: obj_value_def)
  then show ?thesis by (cases "(h, optr o')" rule: ptr_value.cases) auto
qed

text \<open>\<open>p\<close> and the old contents are a list or a set; elements move between \<open>Q\<close>, \<open>Q'\<close> and the contents.\<close>

lemma store_ptr_ok:
  assumes "serving (Q + X) c s" and "objs (heap s) a = Some o'" and "\<And>v. optr o' \<noteq> OString v"
    and "wf_ptr (objs (heap s)) p" and "\<And>v. p \<noteq> OString v" and "Q + refs_of (optr o') = Q' + refs_of p"
  shows "\<exists>h. store_ptr a p s = Some (s\<lparr>heap := h\<rparr>) \<and> serving (Q' + X) c (s\<lparr>heap := h\<rparr>) \<and>
    obj_value h a = ptr_value (heap s) p \<and> (\<forall>b. b \<noteq> a \<longrightarrow> obj_value h b = obj_value (heap s) b) \<and>
    pending c (s\<lparr>heap := h\<rparr>) = pending c s \<and> objs h = (objs (heap s))(a \<mapsto> o'\<lparr>optr := p\<rparr>)"
proof -
  note S = servingD [OF assms(1)]
  let ?h = "(heap s)\<lparr>objs := (objs (heap s))(a \<mapsto> o'\<lparr>optr := p\<rparr>)\<rparr>"
  let ?R = "mset (reply c) + server_refs s"
  have ok: "heap_ok (Q + (X + ?R)) (heap s)" using S(1) by (simp add: all_refs_def ac_simps)
  have na: "a \<notin># inner (objs (heap s))" using container_not_inner [OF ok assms(2)] assms(3) by blast
  have np: "a \<notin># refs_of p"
  proof
    assume "a \<in># refs_of p"
    then have "is_string (objs (heap s)) a" using assms(4) by (cases p) auto
    then show False using assms(2,3) by (auto simp: is_string_def)
  qed
  have "heap_ok (Q' + (X + ?R)) ?h" by (rule heap_ok_mutate [OF ok assms(2) na assms(4) np assms(6)])
  then have hk: "heap_ok (all_refs (Q' + X) c s) ?h" by (simp add: all_refs_def ac_simps)
  note V = mutate_value [OF ok assms(2) na np refl]
  have str: "b \<noteq> a" if "obj_value (heap s) b = VString t" for b t
    using container_value [OF that] assms(2,3) by auto
  have "shared_ok (s\<lparr>heap := ?h\<rparr>)" using S(2) V(2) str by (simp add: shared_ok_def Let_def)
  moreover have "dbs_ok (s\<lparr>heap := ?h\<rparr>)"
  proof -
    have "ptr_value (heap s) p \<noteq> VNull" using assms(5) by (cases p) auto
    then have "obj_value ?h b \<noteq> VNull" if "b \<in># db_refs s" for b
      using V S(3) that by (cases "b = a") (auto simp: dbs_ok_def)
    then show ?thesis using S(3) by (simp add: dbs_ok_def db_refs_def)
  qed
  moreover have rp: "obj_value ?h b = obj_value (heap s) b" if "b \<in># mset (reply c) + waiting s" for b
    using S(5) [OF that] str V(2) by blast
  ultimately have "serving (Q' + X) c (s\<lparr>heap := ?h\<rparr>)" using S(4,5) hk unfolding serving_def by simp
  moreover have "pending c (s\<lparr>heap := ?h\<rparr>) = pending c s"
    using rp by (auto simp: pending_def intro!: arg_cong [of _ _ concat])
  moreover have "store_ptr a p s = Some (s\<lparr>heap := ?h\<rparr>)" using assms(2) by (simp add: store_ptr_def set_ptr_def)
  ultimately show ?thesis using V by (intro exI [of _ ?h]) simp
qed

section \<open>Changes of the keyspace\<close>

definition ks_put :: "nat \<Rightarrow> string \<Rightarrow> cvalue \<Rightarrow> keyspace \<Rightarrow> keyspace" where
  "ks_put i k v K = K(i := (K i)(k \<mapsto> v))"

definition ks_del :: "nat \<Rightarrow> string \<Rightarrow> keyspace \<Rightarrow> keyspace" where
  "ks_del i k K = K(i := (K i)(k := None))"

lemma keyspace_put:
  assumes "addr_map s1 = (addr_map s)(i := (addr_map s i)(k \<mapsto> a))" and "obj_value (heap s1) a = v"
    and "\<And>j k' b. addr_map s j k' = Some b \<Longrightarrow> (j, k') \<noteq> (i, k) \<Longrightarrow> obj_value (heap s1) b = obj_value (heap s) b"
  shows "keyspace s1 = ks_put i k v (keyspace s)"
proof (intro ext)
  fix j k'
  show "keyspace s1 j k' = ks_put i k v (keyspace s) j k'"
  proof (cases "(j, k') = (i, k)")
    case True
    then show ?thesis using assms(1,2) by (simp add: keyspace_def ks_put_def)
  next
    case False
    then show ?thesis using assms(1) assms(3) [of j k']
      by (cases "addr_map s j k'") (auto simp: keyspace_def ks_put_def)
  qed
qed

lemma keyspace_del:
  assumes "addr_map s1 = (addr_map s)(i := (addr_map s i)(k := None))"
    and "\<And>j k' b. addr_map s j k' = Some b \<Longrightarrow> (j, k') \<noteq> (i, k) \<Longrightarrow> obj_value (heap s1) b = obj_value (heap s) b"
  shows "keyspace s1 = ks_del i k (keyspace s)"
proof (intro ext)
  fix j k'
  show "keyspace s1 j k' = ks_del i k (keyspace s) j k'"
  proof (cases "(j, k') = (i, k)")
    case True
    then show ?thesis using assms(1) by (simp add: keyspace_def ks_del_def)
  next
    case False
    then show ?thesis using assms(1) assms(2) [of j k']
      by (cases "addr_map s j k'") (auto simp: keyspace_def ks_del_def)
  qed
qed

lemma keyspace_store:
  assumes "db_inj s" and "addr_map s i k = Some a" and "obj_value h a = v"
    and "\<forall>b. b \<noteq> a \<longrightarrow> obj_value h b = obj_value (heap s) b"
  shows "keyspace (s\<lparr>heap := h\<rparr>) = ks_put i k v (keyspace s)"
proof (rule keyspace_put)
  show "addr_map (s\<lparr>heap := h\<rparr>) = (addr_map s)(i := (addr_map s i)(k \<mapsto> a))"
    using assms(2) by (simp add: fun_upd_idem)
  show "obj_value (heap (s\<lparr>heap := h\<rparr>)) a = v" using assms(3) by simp
  fix j k' b
  assume "addr_map s j k' = Some b" "(j, k') \<noteq> (i, k)"
  then have "b \<noteq> a" using assms(1,2) unfolding db_inj_def by blast
  then show "obj_value (heap (s\<lparr>heap := h\<rparr>)) b = obj_value (heap s) b" using assms(4) by simp
qed

lemma db_inj_put:
  assumes "db_inj s" and "addr_map s1 = (addr_map s)(i := (addr_map s i)(k \<mapsto> a))"
    and "\<And>j k'. addr_map s j k' = Some a \<Longrightarrow> (j, k') = (i, k)"
  shows "db_inj s1"
  using assms unfolding db_inj_def by (metis Pair_inject fun_upd_apply option.inject)

lemma db_inj_del:
  assumes "db_inj s" and "addr_map s1 = (addr_map s)(i := (addr_map s i)(k := None))"
  shows "db_inj s1"
  using assms unfolding db_inj_def by (metis fun_upd_apply option.distinct(1))

section \<open>What a command promises\<close>

text \<open>
  The invariant between commands, and the promise of a command run on \<open>(c, s)\<close>: no undefined
  behaviour, the invariant again, the databases \<open>K\<close>, the text \<open>txt\<close> added to what waits for the
  client, and \<open>n\<close> changes counted.
\<close>

definition server_ok :: "CutisClient \<Rightarrow> CutisServer \<Rightarrow> bool" where
  "server_ok c s \<longleftrightarrow> serving {#} c s \<and> db_inj s"

definition does ::
  "CutisClient \<Rightarrow> CutisServer \<Rightarrow> keyspace \<Rightarrow> string \<Rightarrow> int \<Rightarrow> (CutisClient \<times> CutisServer) option \<Rightarrow> bool"
where
  "does c s K txt n r \<longleftrightarrow>
     (\<exists>c' s'. r = Some (c', s') \<and> server_ok c' s' \<and> keyspace s' = K \<and>
        pending c' s' = pending c s @ txt \<and> dirty s' = dirty s + n)"

lemma arg_take [simp]: "arg i (take_arg j c) = (if i = j then None else arg i c)"
  by (auto simp: arg_def take_arg_def nth_list_update)

lemma take_arg_fields [simp]: "c_db (take_arg i c) = c_db c" "reply (take_arg i c) = reply c"
  by (simp_all add: take_arg_def)

lemma does_said:
  assumes "serving {#} c1 s1" and "db_inj s1" and "said (all_refs {#} c1 s1) c1 s1 txt c2 s2"
    and "keyspace s1 = K" and "pending c1 s1 = pending c s" and "dirty s1 = dirty s + n"
  shows "does c s K txt n (Some (c2, s2))"
proof -
  note R = said_serving [OF assms(1,3)]
  then have "db_inj s2" using assms(2) by (simp add: db_inj_def)
  then show ?thesis using R assms(4-6) by (simp add: does_def server_ok_def)
qed

lemma shared_texts:
  assumes "serving X c s"
  shows "obj_value (heap s) (sh_crlf (shared s)) = VString crlf"
    and "obj_value (heap s) (sh_ok (shared s)) = VString (''+OK'' @ crlf)"
    and "obj_value (heap s) (sh_err (shared s)) = VString (''-ERR'' @ crlf)"
    and "obj_value (heap s) (sh_nil (shared s)) = VString (''nil'' @ crlf)"
    and "obj_value (heap s) (sh_zero (shared s)) = VString (''0'' @ crlf)"
    and "obj_value (heap s) (sh_one (shared s)) = VString (''1'' @ crlf)"
    and "obj_value (heap s) (sh_pong (shared s)) = VString (''+PONG'' @ crlf)"
  using servingD(2) [OF assms] unfolding shared_ok_def Let_def by blast+

text \<open>One shared reply, one text, one bulk reply, at the end of a command or on the way.\<close>

lemma does_shared:
  assumes "serving {#} c1 s1" and "db_inj s1" and "obj_value (heap s1) (f (shared s1)) = VString t"
    and "keyspace s1 = K" and "pending c1 s1 = pending c s" and "dirty s1 = dirty s + n"
  shows "does c s K t n (reply_shared f c1 s1)"
proof -
  note hk = servingD(1) [OF assms(1)]
  from reply_shared_said [where f = f, OF said_refl [OF hk, of c1] hk assms(3)] obtain c2 s2 where
    "reply_shared f c1 s1 = Some (c2, s2)" "said (all_refs {#} c1 s1) c1 s1 t c2 s2" by auto
  with does_said [OF assms(1,2) _ assms(4-6)] show ?thesis by simp
qed

lemma does_sds:
  assumes "serving {#} c1 s1" and "db_inj s1"
    and "keyspace s1 = K" and "pending c1 s1 = pending c s" and "dirty s1 = dirty s + n"
  shows "does c s K t n (AddReplySds t c1 s1)"
proof -
  from said_sds [OF said_refl [OF servingD(1) [OF assms(1)], of c1], of t] obtain c2 s2 where
    "AddReplySds t c1 s1 = Some (c2, s2)" "said (all_refs {#} c1 s1) c1 s1 t c2 s2" by auto
  with does_said [OF assms(1,2) _ assms(3-5)] show ?thesis by simp
qed

lemma does_ok_dirty:
  assumes "serving {#} c1 s1" and "db_inj s1"
    and "keyspace s1 = K" and "pending c1 s1 = pending c s" and "dirty s1 + 1 = dirty s + n"
  shows "does c s K (''+OK'' @ crlf) n (reply_ok_dirty c1 s1)"
  unfolding reply_ok_dirty_def
  by (rule does_shared) (use assms shared_texts(2) [OF assms(1)] in simp_all)

text \<open>The length of a value, its text, and the end of the line.\<close>

definition bulk :: "string \<Rightarrow> string" where
  "bulk v = num_line (as_int (int (length v))) @ v @ crlf"

lemma value_string_at: "obj_value h a = VString v \<Longrightarrow> string_at h a = Some v"
  using container_value [of h a v] by (auto simp: string_at_def)

lemma bulk_said:
  assumes "said R c s txt c1 s1" and "heap_ok R (heap s)" and "obj_value (heap s) (sh_crlf (shared s)) = VString crlf"
    and "obj_value (heap s) a = VString v"
  shows "\<exists>c2 s2. reply_bulk a c1 s1 = Some (c2, s2) \<and> said R c s (txt @ bulk v) c2 s2"
proof -
  have str: "string_at (heap s1) a = Some v"
    using said_value [OF assms(1,2), of a] assms(4) by (simp add: value_string_at)
  from said_sds [OF assms(1)] obtain c2 s2 where
    2: "AddReplySds (num_line (as_int (int (length v)))) c1 s1 = Some (c2, s2)"
      "said R c s (txt @ num_line (as_int (int (length v)))) c2 s2" by blast
  from said_reply [OF 2(2) assms(2,4)] obtain c3 s3 where
    3: "AddReply a c2 s2 = Some (c3, s3)"
      "said R c s ((txt @ num_line (as_int (int (length v)))) @ v) c3 s3" by blast
  from reply_shared_said [where f = sh_crlf, OF 3(2) assms(2,3)] obtain c4 s4 where
    4: "reply_shared sh_crlf c3 s3 = Some (c4, s4)"
      "said R c s (((txt @ num_line (as_int (int (length v)))) @ v) @ crlf) c4 s4" by blast
  show ?thesis using str 2(1) 3(1) 4 by (simp add: reply_bulk_def bulk_def)
qed

lemma reply_bulk_said:
  assumes "said (all_refs X c s) c s txt c1 s1" and "serving X c s" and "obj_value (heap s) a = VString v"
  shows "\<exists>c2 s2. reply_bulk a c1 s1 = Some (c2, s2) \<and> said (all_refs X c s) c s (txt @ bulk v) c2 s2"
  by (rule bulk_said [OF assms(1) servingD(1) [OF assms(2)] shared_texts(1) [OF assms(2)] assms(3)])

end
