(* ===== verification/Server_Spec.thy ===== *)
theory Server_Spec
  imports Server Keyspace
begin

text \<open>
  The server as a whole: starting it establishes the invariant that commands keep, the rules for
  saving, idle clients, the configuration.
\<close>

section \<open>Starting\<close>

lemma dict_map_create [simp]: "dict_map f DictCreate = Map.empty"
  by (simp add: DictCreate_def)

lemma InitServer_ok:
  assumes "InitServer s = Returns s'" and "0 < db_num s" and "reply c = []" and "int (c_db c) < db_num s"
  shows "server_ok c s'" and "keyspace s' = (\<lambda>i. Map.empty)" and "pending c s' = []"
    and "dirty s' = 0" and "\<not> bg_saving s'" and "db_num s' = db_num s" and "clients s' = []"
    and "length (dict s') = nat (db_num s)"
proof -
  obtain sh h where sh: "InitSharedObjects empty_heap = (sh, h)" by force
  note S = InitSharedObjects_ok [OF heap_ok_empty sh]
  have f: "heap s' = h" "shared s' = sh" "dict s' = replicate (nat (db_num s)) DictCreate" "clients s' = []"
    "db_num s' = db_num s" "dirty s' = 0" "\<not> bg_saving s'"
    using assms(1) sh by (auto simp: InitServer_def syscall_def Let_def split: prod.splits if_splits)
  have refs: "db_refs s' = {#}" "waiting s' = {#}"
    by (simp_all add: db_refs_def waiting_def f DictCreate_def)
  have am: "addr_map s' = (\<lambda>i. Map.empty)" by (rule ext) (simp add: addr_map_def f)
  have "heap_ok (all_refs {#} c s') (heap s')"
    using S(1) by (simp add: all_refs_def server_refs_def refs f assms(3))
  moreover have "shared_ok s'" using S(2) by (simp add: shared_ok_def Let_def f)
  moreover have "dbs_ok s'" using assms(2) by (simp add: dbs_ok_def refs f DictCreate_def)
  moreover have "c_db c < length (dict s')" using assms(2,4) by (simp add: f)
  ultimately have "serving {#} c s'" by (simp add: serving_def assms(3) refs)
  moreover have "db_inj s'" by (simp add: db_inj_def am)
  ultimately show "server_ok c s'" by (simp add: server_ok_def)
  show "keyspace s' = (\<lambda>i. Map.empty)" by (intro ext) (simp add: keyspace_def am)
  show "pending c s' = []" by (simp add: pending_def assms(3))
  show "dirty s' = 0" "\<not> bg_saving s'" "db_num s' = db_num s" "clients s' = []"
    "length (dict s') = nat (db_num s)" using f by simp_all
qed

text \<open>A server that has just been started, in a world where every system call yields 7.\<close>

definition quiet_world :: world where
  "quiet_world = \<lparr>sys = \<lambda>_. 7, rands = \<lambda>_ _. 0, reads = \<lambda>_. WouldBlock, calls = 0, files = Map.empty,
     wire = \<lambda>_. []\<rparr>"

definition blank_server :: CutisServer where
  "blank_server = \<lparr>heap = empty_heap, shared = \<lparr>sh_crlf = 0, sh_ok = 0, sh_err = 0, sh_zerobulk = 0, sh_nil = 0,
     sh_zero = 0, sh_one = 0, sh_pong = 0\<rparr>, dict = [], dirty = 0, last_save = 0, bg_saving = False,
     save_params = [], cron_loops = 0, clients = [], client_at = Map.empty, el = AeCreateEventLoop, port = 0,
     listen_fd = 0, max_idle_time = 0, db_num = 0, verbosity = 0, log_file = None, world = quiet_world\<rparr>"

definition started :: CutisServer where
  "started = (case InitServer (InitServerConfig blank_server) of Returns s \<Rightarrow> s | Exit \<Rightarrow> blank_server)"

definition caller :: "string list \<Rightarrow> CutisClient" where
  "caller args = \<lparr>c_id = 1, c_fd = 7, query_buf = [], reply = [], sent_len = 0, last_interaction = 0,
     argv = map Some args, bulk_len = -1, c_db = 0\<rparr>"

lemma started_Returns: "InitServer (InitServerConfig blank_server) = Returns started"
proof -
  obtain sh h where "InitSharedObjects empty_heap = (sh, h)" by force
  then show ?thesis
    by (simp add: started_def InitServer_def syscall_def sys_call_def InitServerConfig_def quiet_world_def
        blank_server_def ResetServerSaveParams_def AppendServerSaveParams_def Let_def split: prod.splits)
qed

lemma config_db_num: "db_num (InitServerConfig s) = 16"
  by (simp add: InitServerConfig_def ResetServerSaveParams_def AppendServerSaveParams_def Let_def
      CUTIS_DEFAULT_DBNUM_def)


lemma started_ok [simp]: "server_ok (caller args) started"
  and started_keyspace [simp]: "keyspace started = (\<lambda>i. Map.empty)"
  and started_room [simp]: "i < 16 \<Longrightarrow> room i started"
  and started_pending [simp]: "pending (caller args) started = []"
proof -
  have c: "reply (caller args) = []" "int (c_db (caller args)) < 16" by (simp_all add: caller_def)
  show "server_ok (caller args) started" "keyspace started = (\<lambda>i. Map.empty)" "pending (caller args) started = []"
    using InitServer_ok [OF started_Returns _ c(1)] c(2) by (simp_all add: config_db_num)
  obtain sh h where "InitSharedObjects empty_heap = (sh, h)" by force
  then have "dict started = replicate 16 DictCreate"
    by (simp add: started_def InitServer_def syscall_def sys_call_def InitServerConfig_def quiet_world_def
        blank_server_def ResetServerSaveParams_def AppendServerSaveParams_def Let_def CUTIS_DEFAULT_DBNUM_def
        split: prod.splits)
  then show "i < 16 \<Longrightarrow> room i started" by (simp add: room_def DictCreate_def DictReset_def)
qed

lemma caller_fields [simp]:
  "c_db (caller args) = 0" "reply (caller args) = []"
  "arg i (caller args) = (if i < length args then Some (args ! i) else None)"
  by (simp_all add: caller_def arg_def)

end
