(* ===== verification/String_Commands.thy ===== *)
theory String_Commands
  imports Keyspace
begin

text \<open>
  What the commands on strings do to the databases and what they answer: \<open>GET\<close>, \<open>SET\<close>, \<open>SETNX\<close>,
  \<open>EXISTS\<close>, \<open>DEL\<close>, \<open>INCR\<close>, \<open>DECR\<close>.
\<close>

declare One_nat_def [simp del]

section \<open>Looking a key up\<close>

lemma put_db_fields [simp]:
  "heap (put_db i d s) = heap s" "dirty (put_db i d s) = dirty s" "shared (put_db i d s) = shared s"
  "all_refs X c (put_db i d (s\<lparr>heap := h\<rparr>)) = all_refs X c (put_db i d s)"
  by (simp_all add: put_db_def all_refs_def server_refs_def db_refs_def waiting_def)

lemma find_none:
  assumes "serving X c s" and "arg 1 c = Some k" and "keyspace s (c_db c) k = None"
  shows "find_key c s = Some None" and "addr_map s (c_db c) k = None"
  using find_key_ok [OF assms(1,2)] assms(3) by (auto simp: keyspace_def)

lemma find_some:
  assumes "serving X c s" and "arg 1 c = Some k" and "keyspace s (c_db c) k = Some v"
  shows "\<exists>a o'. find_key c s = Some (Some (k, a)) \<and> addr_map s (c_db c) k = Some a \<and>
    objs (heap s) a = Some o' \<and> ptr_at s a = Some (optr o') \<and> ptr_value (heap s) (optr o') = v \<and>
    obj_value (heap s) a = v \<and> v \<noteq> VNull \<and> a \<in># all_refs X c s"
proof -
  from assms(3) obtain a where a: "addr_map s (c_db c) k = Some a" "obj_value (heap s) a = v"
    by (auto simp: keyspace_def)
  note S = servingD [OF assms(1)]
  have r: "a \<in># all_refs X c s" by (rule addr_map_all_refs [OF S(3) a(1)])
  from live [OF S(1) r] obtain o' where "objs (heap s) a = Some o'" by blast
  moreover have "v \<noteq> VNull" using addr_map_ref [OF S(3) a(1)] S(3) a(2) by (auto simp: dbs_ok_def)
  ultimately show ?thesis using find_key_ok [OF assms(1,2)] a r by (auto simp: obj_value_def ptr_at_def)
qed

lemma ptr_value_cases [simp]:
  "ptr_value h p = VString t \<longleftrightarrow> p = OString (Some t)"
  "ptr_value h p = VList xs \<longleftrightarrow> (\<exists>l. p = OList l \<and> map (obj_str h) l = xs)"
  "ptr_value h p = VSet A \<longleftrightarrow> (\<exists>d. p = OSet d \<and> obj_str h ` fst ` set (entries d) = A)"
  "ptr_value h p = VNull \<longleftrightarrow> p = OString None"
  by (cases "(h, p)" rule: ptr_value.cases; auto)+

lemma server_okD: "server_ok c s \<Longrightarrow> serving {#} c s" "server_ok c s \<Longrightarrow> db_inj s"
  by (simp_all add: server_ok_def)

section \<open>Reading\<close>

lemma does_bulk:
  assumes "serving {#} c1 s1" and "db_inj s1" and "obj_value (heap s1) a = VString v"
    and "keyspace s1 = K" and "pending c1 s1 = pending c s" and "dirty s1 = dirty s + n"
  shows "does c s K (bulk v) n (reply_bulk a c1 s1)"
proof -
  from reply_bulk_said [OF said_refl [OF servingD(1) [OF assms(1)], of c1] assms(1,3)] obtain c2 s2
    where "reply_bulk a c1 s1 = Some (c2, s2)" "said (all_refs {#} c1 s1) c1 s1 (bulk v) c2 s2" by auto
  with does_said [OF assms(1,2) _ assms(4-6)] show ?thesis by simp
qed

definition get_reply :: "cvalue option \<Rightarrow> string" where
  "get_reply r =
     (case r of
        None \<Rightarrow> ''nil'' @ crlf
      | Some (VString v) \<Rightarrow> bulk v
      | Some _ \<Rightarrow> err_bulk ''GET against key not holding a string value'')"

lemma GetCommand_does:
  assumes "server_ok c s" and "arg 1 c = Some k"
  shows "does c s (keyspace s) (get_reply (keyspace s (c_db c) k)) 0 (GetCommand c s)"
proof (cases "keyspace s (c_db c) k")
  case None
  note S = server_okD [OF assms(1)]
  show ?thesis using find_none(1) [OF S(1) assms(2) None] None
      does_shared [where f = sh_nil, OF S shared_texts(4) [OF S(1)]]
    by (simp add: GetCommand_def get_reply_def)
next
  case (Some v)
  note S = server_okD [OF assms(1)]
  from find_some [OF S(1) assms(2) Some] obtain a o' where
    a: "find_key c s = Some (Some (k, a))" "objs (heap s) a = Some o'" "ptr_at s a = Some (optr o')" "ptr_value (heap s) (optr o') = v"
      "obj_value (heap s) a = v" "v \<noteq> VNull" "a \<in># all_refs {#} c s" by blast
  show ?thesis
  proof (cases v)
    case (VString t)
    then show ?thesis using a Some does_bulk [OF S] by (simp add: GetCommand_def get_reply_def)
  qed (use a Some does_sds [OF S] in \<open>auto simp: GetCommand_def get_reply_def\<close>)
qed

lemma ExistsCommand_does:
  assumes "server_ok c s" and "arg 1 c = Some k"
  shows "does c s (keyspace s) ((if keyspace s (c_db c) k = None then ''0'' else ''1'') @ crlf) 0 (ExistsCommand c s)"
proof -
  note S = server_okD [OF assms(1)]
  have e: "find_key c s = Some None \<longleftrightarrow> keyspace s (c_db c) k = None"
    using find_key_ok [OF S(1) assms(2)] by (simp add: keyspace_def)
  show ?thesis
    using e find_key_ok [OF S(1) assms(2)]
      does_shared [where f = sh_zero, OF S shared_texts(5) [OF S(1)]]
      does_shared [where f = sh_one, OF S shared_texts(6) [OF S(1)]]
    by (auto simp: ExistsCommand_def)
qed

section \<open>Writing\<close>

lemma keyspace_same:
  assumes "addr_map s1 = addr_map s"
    and "\<And>j k b. addr_map s j k = Some b \<Longrightarrow> obj_value (heap s1) b = obj_value (heap s) b"
  shows "keyspace s1 = keyspace s"
proof (intro ext)
  fix j k
  show "keyspace s1 j k = keyspace s j k"
    using assms(1) assms(2) [of j k] by (cases "addr_map s j k") (simp_all add: keyspace_def)
qed

text \<open>Putting a key, whatever it held: \<open>DictAdd\<close>, and \<open>DictReplace\<close> if that fails.\<close>

lemma assign_ok:
  assumes "serving (add_mset a X) c s" and "room i s" and "obj_value (heap s) a = v" and "v \<noteq> VNull"
  shows "\<exists>s0 s1. db_add k a i s = Some (if addr_map s i k = None then DICT_OK else DICT_ERR, s0) \<and>
    (if addr_map s i k = None then s1 = s0 else db_replace k a i s0 = Some (DICT_OK, s1)) \<and>
    serving X c s1 \<and> addr_map s1 = (addr_map s)(i := (addr_map s i)(k \<mapsto> a)) \<and>
    keyspace s1 = ks_put i k v (keyspace s) \<and> pending c s1 = pending c s \<and> dirty s1 = dirty s \<and>
    obj_value (heap s1) a = v"
proof -
  have nn: "obj_value (heap s) a \<noteq> VNull" using assms(3,4) by simp
  show ?thesis
  proof (cases "addr_map s i k")
    case None
    from db_add_ok [OF assms(1,2) nn None] obtain d where
      1: "db_add k a i s = Some (DICT_OK, put_db i d s)" "serving X c (put_db i d s)"
        "addr_map (put_db i d s) = (addr_map s)(i := (addr_map s i)(k \<mapsto> a))"
        "pending c (put_db i d s) = pending c s" by blast
    have "keyspace (put_db i d s) = ks_put i k v (keyspace s)"
      by (rule keyspace_put [OF 1(3)]) (simp_all add: assms(3))
    then show ?thesis using 1 None assms(3) by (intro exI [of _ "put_db i d s"]) simp
  next
    case (Some old)
    then have "addr_map s i k \<noteq> None" by simp
    from db_add_refused [OF assms(1,2) this, of a] obtain d where
      1: "db_add k a i s = Some (DICT_ERR, put_db i d s)" "serving (add_mset a X) c (put_db i d s)"
        "addr_map (put_db i d s) = addr_map s" "pending c (put_db i d s) = pending c s" "room i (put_db i d s)" by blast
    let ?s0 = "put_db i d s"
    have nn0: "obj_value (heap ?s0) a \<noteq> VNull" and old: "addr_map ?s0 i k = Some old"
      using nn Some 1(3) by simp_all
    from db_replace_ok [OF 1(2,5) nn0 old] obtain d2 h where
      2: "db_replace k a i ?s0 = Some (DICT_OK, put_db i d2 (?s0\<lparr>heap := h\<rparr>))"
        "serving X c (put_db i d2 (?s0\<lparr>heap := h\<rparr>))"
        "addr_map (put_db i d2 (?s0\<lparr>heap := h\<rparr>)) = (addr_map ?s0)(i := (addr_map ?s0 i)(k \<mapsto> a))"
        "pending c (put_db i d2 (?s0\<lparr>heap := h\<rparr>)) = pending c ?s0"
        "\<forall>b \<in># all_refs X c (put_db i d2 ?s0). obj_value h b = obj_value (heap ?s0) b" by blast
    let ?s1 = "put_db i d2 (?s0\<lparr>heap := h\<rparr>)"
    have val: "obj_value h b = obj_value (heap s) b" if "addr_map ?s1 j k' = Some b" for j k' b
      using 2(5) addr_map_all_refs [OF servingD(3) [OF 2(2)] that, of X c] by simp
    have va: "obj_value h a = v" using val [of i k a] 2(3) assms(3) by simp
    have "keyspace ?s1 = ks_put i k v (keyspace ?s0)"
    proof (rule keyspace_put [OF 2(3)])
      show "obj_value (heap ?s1) a = v" using va by simp
      fix j k' b
      assume "addr_map ?s0 j k' = Some b" "(j, k') \<noteq> (i, k)"
      then have "addr_map ?s1 j k' = Some b" unfolding 2(3) by auto
      from val [OF this] show "obj_value (heap ?s1) b = obj_value (heap ?s0) b" by simp
    qed
    moreover have "keyspace ?s0 = keyspace s" by (rule keyspace_same [OF 1(3)]) simp
    ultimately show ?thesis using 1 2 Some va
      by (intro exI [of _ ?s0] exI [of _ ?s1]) simp
  qed
qed

lemma add_refused:
  assumes "serving X c s" and "room i s" and "addr_map s i k \<noteq> None"
  shows "\<exists>s0. db_add k a i s = Some (DICT_ERR, s0) \<and> serving X c s0 \<and>
    addr_map s0 = addr_map s \<and> keyspace s0 = keyspace s \<and> pending c s0 = pending c s \<and> dirty s0 = dirty s"
proof -
  from db_add_refused [OF assms, of a] obtain d where
    d: "db_add k a i s = Some (DICT_ERR, put_db i d s)" "serving X c (put_db i d s)"
      "addr_map (put_db i d s) = addr_map s" "pending c (put_db i d s) = pending c s" by blast
  moreover have "keyspace (put_db i d s) = keyspace s" by (rule keyspace_same [OF d(3)]) simp
  ultimately show ?thesis by (intro exI [of _ "put_db i d s"]) simp
qed

text \<open>Taking a key out.\<close>

lemma unassign_ok:
  assumes "serving X c s" and "i < length (dict s)" and "addr_map s i k = Some old"
  shows "\<exists>s1. db_delete k i s = Some (DICT_OK, s1) \<and> serving X c s1 \<and>
    addr_map s1 = (addr_map s)(i := (addr_map s i)(k := None)) \<and> keyspace s1 = ks_del i k (keyspace s) \<and>
    pending c s1 = pending c s \<and> dirty s1 = dirty s"
proof -
  from db_delete_ok [OF assms(1,2), of k] assms(3) obtain d h where
    1: "db_delete k i s = Some (DICT_OK, put_db i d (s\<lparr>heap := h\<rparr>))"
      "serving X c (put_db i d (s\<lparr>heap := h\<rparr>))"
      "addr_map (put_db i d (s\<lparr>heap := h\<rparr>)) = (addr_map s)(i := (addr_map s i)(k := None))"
      "pending c (put_db i d (s\<lparr>heap := h\<rparr>)) = pending c s"
      "\<forall>b \<in># all_refs X c (put_db i d s). obj_value h b = obj_value (heap s) b" by auto
  let ?s1 = "put_db i d (s\<lparr>heap := h\<rparr>)"
  have "keyspace ?s1 = ks_del i k (keyspace s)"
  proof (rule keyspace_del [OF 1(3)])
    fix j k' b
    assume "addr_map s j k' = Some b" "(j, k') \<noteq> (i, k)"
    then have "addr_map ?s1 j k' = Some b" unfolding 1(3) by auto
    from addr_map_all_refs [OF servingD(3) [OF 1(2)] this, of X c] 1(5)
    show "obj_value (heap ?s1) b = obj_value (heap s) b" by simp
  qed
  with 1 show ?thesis by (intro exI [of _ ?s1]) simp
qed

text \<open>A new object, its references, and that no key has it yet.\<close>

lemma create_value:
  assumes "serving X c s" and "create p s = (a, s1)" and "refs_of p = {#}" and "wf_ptr (objs (heap s)) p"
  shows "serving (add_mset a X) c s1" and "keyspace s1 = keyspace s" and "addr_map s1 = addr_map s"
    and "pending c s1 = pending c s" and "dirty s1 = dirty s" and "db_inj s \<Longrightarrow> db_inj s1"
    and "obj_value (heap s1) a = ptr_value (heap s) p" and "addr_map s j k \<noteq> Some a"
    and "room i s1 = room i s" and "objs (heap s1) = (objs (heap s))(a \<mapsto> \<lparr>optr = p, refcount = 1\<rparr>)"
    and "shared s1 = shared s" and "dict s1 = dict s" and "a \<notin># all_refs X c s"
    and "b \<in># all_refs X c s \<Longrightarrow> obj_value (heap s1) b = obj_value (heap s) b"
  using create_ok [OF assms] addr_map_all_refs [OF servingD(3) [OF assms(1)], of j k a X c] by auto

lemma assign_inj:
  assumes "db_inj s" and "\<And>j k. addr_map s j k \<noteq> Some a"
    and "addr_map s1 = (addr_map s)(i := (addr_map s i)(k \<mapsto> a))"
  shows "db_inj s1"
  by (rule db_inj_put [OF assms(1,3)]) (use assms(2) in simp)

lemma SetGenericCommand_does:
  assumes "server_ok c s" and "room (c_db c) s" and "arg 1 c = Some k" and "arg 2 c = Some v"
  shows "does c s
    (if nx \<and> keyspace s (c_db c) k \<noteq> None then keyspace s
     else ks_put (c_db c) k (VString v) (keyspace s)) (''+OK'' @ crlf) 1 (SetGenericCommand nx c s)"
proof -
  note S = server_okD [OF assms(1)]
  obtain a s1 where cr: "create (OString (Some v)) s = (a, s1)" by force
  note C = create_value [OF S(1) cr]
  have s1: "serving {#a#} (take_arg 2 c) s1" "room (c_db c) s1" "obj_value (heap s1) a = VString v" "db_inj s1"
    using C assms(2) S(2) by simp_all
  show ?thesis
  proof (cases "nx \<and> keyspace s (c_db c) k \<noteq> None")
    case True
    then have "addr_map s1 (c_db c) k \<noteq> None" using C(3) by (simp add: keyspace_def)
    from add_refused [OF s1(1,2) this, of a] obtain s2 where
      2: "db_add k a (c_db c) s1 = Some (DICT_ERR, s2)" "serving {#a#} (take_arg 2 c) s2"
        "addr_map s2 = addr_map s1" "keyspace s2 = keyspace s1"
        "pending (take_arg 2 c) s2 = pending (take_arg 2 c) s1" "dirty s2 = dirty s1" by auto
    from decr_ok [OF 2(2)] obtain h where
      3: "decr a s2 = Some (s2\<lparr>heap := h\<rparr>)" "serving {#} (take_arg 2 c) (s2\<lparr>heap := h\<rparr>)"
        "keyspace (s2\<lparr>heap := h\<rparr>) = keyspace s2" "pending (take_arg 2 c) (s2\<lparr>heap := h\<rparr>) = pending (take_arg 2 c) s2"
      by blast
    have "db_inj (s2\<lparr>heap := h\<rparr>)" using s1(4) 2(3) by (simp add: db_inj_def)
    from does_ok_dirty [OF 3(2) this] 2 3 C True show ?thesis
      by (simp add: SetGenericCommand_def assms cr)
  next
    case False
    from assign_ok [OF s1(1,2,3), of k] obtain s0 s2 where
      2: "db_add k a (c_db c) s1 = Some (if addr_map s1 (c_db c) k = None then DICT_OK else DICT_ERR, s0)"
        "if addr_map s1 (c_db c) k = None then s2 = s0 else db_replace k a (c_db c) s0 = Some (DICT_OK, s2)"
        "serving {#} (take_arg 2 c) s2" "addr_map s2 = (addr_map s1)(c_db c := (addr_map s1 (c_db c))(k \<mapsto> a))"
        "keyspace s2 = ks_put (c_db c) k (VString v) (keyspace s1)"
        "pending (take_arg 2 c) s2 = pending (take_arg 2 c) s1" "dirty s2 = dirty s1" by auto
    have inj: "db_inj s2" by (rule assign_inj [OF s1(4) _ 2(4)]) (use C in simp)
    show ?thesis
    proof (cases "addr_map s1 (c_db c) k")
      case None
      then show ?thesis
        unfolding if_not_P [OF False] using does_ok_dirty [of "take_arg 1 (take_arg 2 c)" s2] inj 2 C
        by (simp add: SetGenericCommand_def assms cr)
    next
      case (Some old)
      then show ?thesis
        unfolding if_not_P [OF False] using does_ok_dirty [of "take_arg 2 c" s2] inj 2 C False
        by (simp add: SetGenericCommand_def assms cr keyspace_def)
    qed
  qed
qed

lemma DelCommand_does:
  assumes "server_ok c s" and "arg 1 c = Some k"
  shows "does c s (ks_del (c_db c) k (keyspace s)) (''+OK'' @ crlf)
    (if keyspace s (c_db c) k = None then 0 else 1) (DelCommand c s)"
proof -
  note S = server_okD [OF assms(1)]
  show ?thesis
  proof (cases "addr_map s (c_db c) k")
    case None
    then have "ks_del (c_db c) k (keyspace s) = keyspace s" "keyspace s (c_db c) k = None"
      by (auto simp: ks_del_def keyspace_def fun_eq_iff)
    then show ?thesis using db_delete_ok [OF S(1) servingD(4) [OF S(1)], of k] None
        does_shared [where f = sh_ok, OF S shared_texts(2) [OF S(1)]]
      by (simp add: DelCommand_def assms DICT_OK_def DICT_ERR_def)
  next
    case (Some old)
    from unassign_ok [OF S(1) servingD(4) [OF S(1)] Some] obtain s1 where
      1: "db_delete k (c_db c) s = Some (DICT_OK, s1)" "serving {#} c s1"
        "addr_map s1 = (addr_map s)(c_db c := (addr_map s (c_db c))(k := None))"
        "keyspace s1 = ks_del (c_db c) k (keyspace s)" "pending c s1 = pending c s" "dirty s1 = dirty s" by blast
    have "does c s (ks_del (c_db c) k (keyspace s)) (''+OK'' @ crlf) 1
        (reply_shared sh_ok c (s1\<lparr>dirty := dirty s1 + 1\<rparr>))"
      by (intro does_shared) (use 1 db_inj_del [OF S(2) 1(3)] shared_texts(2) [OF 1(2)] in simp_all)
    moreover have "keyspace s (c_db c) k = Some (obj_value (heap s) old)" using Some by (simp add: keyspace_def)
    ultimately show ?thesis using 1(1,6) by (simp add: DelCommand_def assms)
  qed
qed

section \<open>Counting\<close>

text \<open>The number a value stands for: other types count from 0.\<close>

definition num_of :: "cvalue option \<Rightarrow> int" where
  "num_of r = (case r of Some (VString t) \<Rightarrow> strtoll (cstr t) | _ \<Rightarrow> 0)"

lemma IncrDecrCommand_does:
  assumes "server_ok c s" and "room (c_db c) s" and "arg 1 c = Some k"
    and "n = num_of (keyspace s (c_db c) k) + step" and "LLONG_MIN \<le> n" and "n \<le> LLONG_MAX"
  shows "does c s (ks_put (c_db c) k (VString (show_int n)) (keyspace s)) (show_int n @ crlf) 1
    (IncrDecrCommand step c s)"
proof -
  note S = server_okD [OF assms(1)]
  obtain a s1 where cr: "create (OString (Some (show_int n))) s = (a, s1)" by force
  note C = create_value [OF S(1) cr]
  have s1: "serving {#a#} c s1" "room (c_db c) s1" "obj_value (heap s1) a = VString (show_int n)" "db_inj s1"
    using C assms(2) S(2) by simp_all
  from assign_ok [OF s1(1-3), of k] obtain s0 s2 where
    2: "db_add k a (c_db c) s1 = Some (if addr_map s1 (c_db c) k = None then DICT_OK else DICT_ERR, s0)"
      "if addr_map s1 (c_db c) k = None then s2 = s0 else db_replace k a (c_db c) s0 = Some (DICT_OK, s2)"
      "serving {#} c s2" "addr_map s2 = (addr_map s1)(c_db c := (addr_map s1 (c_db c))(k \<mapsto> a))"
      "keyspace s2 = ks_put (c_db c) k (VString (show_int n)) (keyspace s1)"
      "pending c s2 = pending c s1" "dirty s2 = dirty s1" "obj_value (heap s2) a = VString (show_int n)" by auto
  have inj: "db_inj s2" by (rule assign_inj [OF s1(4) _ 2(4)]) (use C in simp)
  define c2 where "c2 = (if addr_map s1 (c_db c) k = None then take_arg 1 c else c)"
  let ?s = "s2\<lparr>dirty := dirty s2 + 1\<rparr>"
  have c2: "serving {#} c2 ?s" "pending c2 ?s = pending c s" using 2(3,6) C(4) by (simp_all add: c2_def)
  note hk = servingD(1) [OF c2(1)]
  from said_reply [OF said_refl [OF hk, of c2] hk, of a "show_int n"] 2(8) obtain c3 s3 where
    3: "AddReply a c2 ?s = Some (c3, s3)" "said (all_refs {#} c2 ?s) c2 ?s (show_int n) c3 s3" by auto
  from reply_shared_said [where f = sh_crlf, OF 3(2) hk shared_texts(1) [OF c2(1)]] obtain c4 s4
    where 4: "reply_shared sh_crlf c3 s3 = Some (c4, s4)"
      "said (all_refs {#} c2 ?s) c2 ?s (show_int n @ crlf) c4 s4" by blast
  have fin: "does c s (ks_put (c_db c) k (VString (show_int n)) (keyspace s)) (show_int n @ crlf) 1 (Some (c4, s4))"
    by (rule does_said [OF c2(1) _ 4(2)]) (use inj 2 C c2(2) in simp_all)
  obtain de where de: "find_key c s = Some de"
    "(case de of None \<Rightarrow> Some 0 | Some (_, o') \<Rightarrow> ptr_at s o' \<bind> (\<lambda>p. case p of
        OString v \<Rightarrow> map_option (\<lambda>t. strtoll (cstr t)) v | _ \<Rightarrow> Some 0)) = Some (num_of (keyspace s (c_db c) k))"
  proof (cases "keyspace s (c_db c) k")
    case None
    then show ?thesis using that [of None] find_none [OF S(1) assms(3) None] by (simp add: num_of_def)
  next
    case (Some v)
    from find_some [OF S(1) assms(3) Some] obtain b o' where
      b: "find_key c s = Some (Some (k, b))" "objs (heap s) b = Some o'" "ptr_at s b = Some (optr o')" "ptr_value (heap s) (optr o') = v"
        "v \<noteq> VNull" by blast
    show ?thesis using that [of "Some (k, b)"] b Some by (cases v) (auto simp: num_of_def)
  qed
  show ?thesis
    using de 2 3 4 fin assms(4-6) cr
    by (cases "addr_map s1 (c_db c) k") (simp_all add: IncrDecrCommand_def assms(3) c2_def)
qed

text \<open>At the end of the range of \<open>long long\<close> the addition overflows.\<close>

lemma IncrDecrCommand_overflow:
  assumes "server_ok c s" and "arg 1 c = Some k" and "n = num_of (keyspace s (c_db c) k) + step"
    and "n < LLONG_MIN \<or> LLONG_MAX < n"
  shows "IncrDecrCommand step c s = None"
proof (cases "keyspace s (c_db c) k")
  case None
  then show ?thesis using find_none [OF server_okD(1) [OF assms(1)] assms(2) None] assms(3,4)
    by (auto simp: IncrDecrCommand_def num_of_def guard_def)
next
  case (Some v)
  from find_some [OF server_okD(1) [OF assms(1)] assms(2) Some] obtain b o' where
    b: "find_key c s = Some (Some (k, b))" "objs (heap s) b = Some o'" "ptr_at s b = Some (optr o')" "ptr_value (heap s) (optr o') = v"
      "v \<noteq> VNull" by blast
  show ?thesis using b Some assms(3,4) by (cases v) (auto simp: IncrDecrCommand_def num_of_def guard_def)
qed

end
