(* ===== verification/List_Commands.thy ===== *)
theory List_Commands
  imports String_Commands
begin

text \<open>
  What the commands on lists do to the databases and what they answer: \<open>RPUSH\<close>, \<open>LPUSH\<close>, \<open>RPOP\<close>,
  \<open>LPOP\<close>, \<open>LLEN\<close>, \<open>LINDEX\<close>, \<open>LRANGE\<close>, \<open>LTRIM\<close>, \<open>LSET\<close>.
\<close>

declare One_nat_def [simp del]

section \<open>The object of a key\<close>

lemma at_key:
  assumes "serving X c s" and "keyspace s i k = Some v"
  shows "\<exists>a o'. addr_map s i k = Some a \<and> objs (heap s) a = Some o' \<and> ptr_at s a = Some (optr o') \<and>
    ptr_value (heap s) (optr o') = v \<and> v \<noteq> VNull \<and> a \<in># all_refs X c s"
proof -
  from assms(2) obtain a where a: "addr_map s i k = Some a" "obj_value (heap s) a = v"
    by (auto simp: keyspace_def)
  note S = servingD [OF assms(1)]
  have r: "a \<in># all_refs X c s" by (rule addr_map_all_refs [OF S(3) a(1)])
  from live [OF S(1) r] obtain o' where "objs (heap s) a = Some o'" by blast
  moreover have "v \<noteq> VNull" using addr_map_ref [OF S(3) a(1)] S(3) a(2) by (auto simp: dbs_ok_def)
  ultimately show ?thesis using a r by (auto simp: obj_value_def ptr_at_def)
qed

text \<open>New contents for the container of a key.\<close>

lemma mutate_ok:
  assumes "serving (Q + X) c s" and "db_inj s" and "addr_map s i k = Some a" and "objs (heap s) a = Some o'"
    and "\<And>v. optr o' \<noteq> OString v" and "wf_ptr (objs (heap s)) p" and "\<And>v. p \<noteq> OString v"
    and "Q + refs_of (optr o') = Q' + refs_of p"
  shows "\<exists>h. store_ptr a p s = Some (s\<lparr>heap := h\<rparr>) \<and> serving (Q' + X) c (s\<lparr>heap := h\<rparr>) \<and>
    keyspace (s\<lparr>heap := h\<rparr>) = ks_put i k (ptr_value (heap s) p) (keyspace s) \<and>
    pending c (s\<lparr>heap := h\<rparr>) = pending c s \<and> objs h = (objs (heap s))(a \<mapsto> o'\<lparr>optr := p\<rparr>)"
proof -
  from store_ptr_ok [OF assms(1,4-8)] obtain h where
    h: "store_ptr a p s = Some (s\<lparr>heap := h\<rparr>)" "serving (Q' + X) c (s\<lparr>heap := h\<rparr>)"
      "obj_value h a = ptr_value (heap s) p" "\<forall>b. b \<noteq> a \<longrightarrow> obj_value h b = obj_value (heap s) b"
      "pending c (s\<lparr>heap := h\<rparr>) = pending c s" "objs h = (objs (heap s))(a \<mapsto> o'\<lparr>optr := p\<rparr>)" by blast
  with keyspace_store [OF assms(2,3) h(3,4)] show ?thesis by blast
qed

lemma list_wf: "heap_ok R h \<Longrightarrow> objs h a = Some o' \<Longrightarrow> optr o' = OList l \<Longrightarrow> \<forall>x \<in> set l. is_string (objs h) x"
  using live_wf [of R h a o'] by simp

lemma string_value: "is_string (objs h) x \<Longrightarrow> obj_value h x = VString (obj_str h x)"
  by (auto simp: is_string_def obj_value_def obj_str_def)

text \<open>The reply first, the counter afterwards.\<close>

lemma does_then_dirty:
  assumes "serving {#} c1 s1" and "db_inj s1" and "keyspace s1 = K" and "pending c1 s1 = pending c s"
    and "dirty s1 = dirty s + n"
  shows "does c s K (''+OK'' @ crlf) (n + 1)
    (do { (c, s) \<leftarrow> reply_shared sh_ok c1 s1; Some (c, s\<lparr>dirty := dirty s + 1\<rparr>) })"
  using does_shared [where f = sh_ok, OF assms(1,2) shared_texts(2) [OF assms(1)] assms(3-5)] by (auto simp: does_def server_ok_def)

section \<open>Pushing\<close>

lemma set_push_list [simp]: "set (push_list side x l) = insert x (set l)"
  by (cases side) auto

lemma mset_push_list [simp]: "mset (push_list side x l) = add_mset x (mset l)"
  by (cases side) auto

lemma map_push_list [simp]: "map f (push_list side x l) = push_list side (f x) (map f l)"
  by (cases side) auto

text \<open>A list with one element is made for a key that has none.\<close>

lemma push_new:
  assumes "serving {#x#} c s" and "db_inj s" and "keyspace s (c_db c) k = None" and "room (c_db c) s"
    and "is_string (objs (heap s)) x" and "obj_str (heap s) x = v" and "create (OList []) s = (a, s2)"
  shows "\<exists>s3 s4. store_ptr a (OList (push_list side x [])) s2 = Some s3 \<and> db_add k a (c_db c) s3 = Some (DICT_OK, s4) \<and>
    serving {#} c s4 \<and> db_inj s4 \<and> keyspace s4 = ks_put (c_db c) k (VList [v]) (keyspace s) \<and>
    pending c s4 = pending c s \<and> dirty s4 = dirty s"
proof -
  note C = create_value [OF assms(1,7)]
  have x2: "is_string (objs (heap s2)) x" "obj_str (heap s2) x = v" "a \<noteq> x"
    using C(7) C(10) assms(5,6) C(13) by (auto simp: is_string_def obj_str_def all_refs_add)
  have s2: "serving ({#x#} + {#a#}) c s2" using C(1) by (simp add: add_mset_commute)
  from store_ptr_ok [of "{#x#}" "{#a#}" c s2 a "\<lparr>optr = OList [], refcount = 1\<rparr>" "OList (push_list side x [])" "{#}"]
  obtain h where
    h: "store_ptr a (OList (push_list side x [])) s2 = Some (s2\<lparr>heap := h\<rparr>)" "serving {#a#} c (s2\<lparr>heap := h\<rparr>)"
      "obj_value h a = VList [v]" "\<forall>b. b \<noteq> a \<longrightarrow> obj_value h b = obj_value (heap s2) b"
      "pending c (s2\<lparr>heap := h\<rparr>) = pending c s2"
    using s2 C(10) x2 by (cases side) auto
  have "keyspace (s2\<lparr>heap := h\<rparr>) = keyspace s2"
  proof (rule keyspace_same)
    fix j k' b
    assume "addr_map s2 j k' = Some b"
    then have "b \<noteq> a" using C(3) C(8) [of j k'] by auto
    then show "obj_value (heap (s2\<lparr>heap := h\<rparr>)) b = obj_value (heap s2) b" using h(4) by simp
  qed simp
  then have ks: "keyspace (s2\<lparr>heap := h\<rparr>) = keyspace s" using C(2) by simp
  have room: "room (c_db c) (s2\<lparr>heap := h\<rparr>)" using assms(4) C(9) by simp
  have "addr_map s (c_db c) k = None"
  proof (rule ccontr)
    assume "addr_map s (c_db c) k \<noteq> None"
    then show False using assms(3) by (auto simp: keyspace_def)
  qed
  with assign_ok [OF h(2) room, of "VList [v]" k] h(3) obtain s4 where
    s4: "db_add k a (c_db c) (s2\<lparr>heap := h\<rparr>) = Some (DICT_OK, s4)" "serving {#} c s4"
      "addr_map s4 = (addr_map s2)(c_db c := (addr_map s2 (c_db c))(k \<mapsto> a))"
      "keyspace s4 = ks_put (c_db c) k (VList [v]) (keyspace s)" "pending c s4 = pending c s2" "dirty s4 = dirty s2"
    using C(3) ks h(5) by (auto split: if_splits)
  have "db_inj s4" by (rule assign_inj [OF _ _ s4(3)]) (use assms(2) C in auto)
  with h(1) s4 C(4,5) show ?thesis by auto
qed

lemma push_old:
  assumes "serving {#x#} c s" and "db_inj s" and "addr_map s (c_db c) k = Some a" and "objs (heap s) a = Some o'"
    and "optr o' = OList l" and "is_string (objs (heap s)) x" and "obj_str (heap s) x = v"
  shows "\<exists>h. store_ptr a (OList (push_list side x l)) s = Some (s\<lparr>heap := h\<rparr>) \<and> serving {#} c (s\<lparr>heap := h\<rparr>) \<and>
    keyspace (s\<lparr>heap := h\<rparr>) = ks_put (c_db c) k (VList (push_list side v (map (obj_str (heap s)) l))) (keyspace s) \<and>
    pending c (s\<lparr>heap := h\<rparr>) = pending c s"
  using mutate_ok [of "{#x#}" "{#}" c s "c_db c" k a o' "OList (push_list side x l)" "{#}"] assms
    list_wf [OF servingD(1) [OF assms(1)] assms(4,5)] by auto

lemma PushGenericCommand_does:
  assumes "server_ok c s" and "keyspace s (c_db c) k = None \<Longrightarrow> room (c_db c) s" and "arg 1 c = Some k" and "arg 2 c = Some v"
  shows "case keyspace s (c_db c) k of
      None \<Rightarrow> does c s (ks_put (c_db c) k (VList [v]) (keyspace s)) (''+OK'' @ crlf) 1 (PushGenericCommand side c s)
    | Some (VList xs) \<Rightarrow> does c s (ks_put (c_db c) k (VList (push_list side v xs)) (keyspace s)) (''+OK'' @ crlf) 1
        (PushGenericCommand side c s)
    | Some _ \<Rightarrow> does c s (keyspace s) (err_line ''push against existing key not holding a list '') 0
        (PushGenericCommand side c s)"
proof -
  note S = server_okD [OF assms(1)]
  let ?c = "take_arg 2 c"
  obtain x s1 where cr: "create (OString (Some v)) s = (x, s1)" by force
  note C = create_value [OF S(1) cr]
  have s1: "serving {#x#} ?c s1" "db_inj s1" "arg 1 ?c = Some k" using C S(2) assms(3) by simp_all
  have xs: "is_string (objs (heap s1)) x" "obj_str (heap s1) x = v"
    using C(10) by (simp_all add: is_string_def obj_str_def)
  show ?thesis
  proof (cases "keyspace s (c_db c) k")
    case None
    then have n1: "keyspace s1 (c_db ?c) k = None" "room (c_db ?c) s1" using C(2,9) assms(2) by simp_all
    obtain a s2 where cr2: "create (OList []) s1 = (a, s2)" by force
    from push_new [OF s1(1,2) n1 xs cr2] obtain s3 s4 where
      s4: "store_ptr a (OList (push_list side x [])) s2 = Some s3" "db_add k a (c_db ?c) s3 = Some (DICT_OK, s4)"
        "serving {#} ?c s4" "db_inj s4" "keyspace s4 = ks_put (c_db ?c) k (VList [v]) (keyspace s1)"
        "pending ?c s4 = pending ?c s1" "dirty s4 = dirty s1" by blast
    with does_ok_dirty [of "take_arg 1 ?c" s4] C have
      "does c s (ks_put (c_db c) k (VList [v]) (keyspace s)) (''+OK'' @ crlf) 1 (reply_ok_dirty (take_arg 1 ?c) s4)"
      by simp
    then show ?thesis using None cr cr2 s4(1,2) find_none(1) [OF s1(1,3) n1(1)] assms(3,4)
      by (simp add: PushGenericCommand_def)
  next
    case (Some w)
    have "keyspace s1 (c_db ?c) k = Some w" using Some C(2) by simp
    from find_some [OF s1(1,3) this] obtain a o' where
      a: "find_key ?c s1 = Some (Some (k, a))" "addr_map s1 (c_db ?c) k = Some a" "objs (heap s1) a = Some o'"
        "ptr_at s1 a = Some (optr o')" "ptr_value (heap s1) (optr o') = w" "w \<noteq> VNull" by auto
    have err: "does c s (keyspace s) (err_line ''push against existing key not holding a list '') 0
      (decr x s1 \<bind> AddReplySds (err_line ''push against existing key not holding a list '') ?c)"
    proof -
      from decr_ok [OF s1(1)] obtain h where "decr x s1 = Some (s1\<lparr>heap := h\<rparr>)"
        "serving {#} ?c (s1\<lparr>heap := h\<rparr>)" "keyspace (s1\<lparr>heap := h\<rparr>) = keyspace s1"
        "pending ?c (s1\<lparr>heap := h\<rparr>) = pending ?c s1" by blast
      then show ?thesis using does_sds [of ?c "s1\<lparr>heap := h\<rparr>"] s1(2) C by simp
    qed
    show ?thesis
    proof (cases w)
      case (VList xs)
      then obtain l where l: "optr o' = OList l" "map (obj_str (heap s1)) l = xs" using a(5) by auto
      from push_old [OF s1(1,2) a(2,3) l(1) \<open>is_string (objs (heap s1)) x\<close> \<open>obj_str (heap s1) x = v\<close>] obtain h where
        h: "store_ptr a (OList (push_list side x l)) s1 = Some (s1\<lparr>heap := h\<rparr>)" "serving {#} ?c (s1\<lparr>heap := h\<rparr>)"
          "keyspace (s1\<lparr>heap := h\<rparr>) = ks_put (c_db c) k (VList (push_list side v xs)) (keyspace s1)"
          "pending ?c (s1\<lparr>heap := h\<rparr>) = pending ?c s1" unfolding l(2) by auto
      from does_ok_dirty [OF h(2)] s1(2) h(3,4) C have
        "does c s (ks_put (c_db c) k (VList (push_list side v xs)) (keyspace s)) (''+OK'' @ crlf) 1
          (reply_ok_dirty ?c (s1\<lparr>heap := h\<rparr>))" by simp
      then show ?thesis using Some VList l(1) a cr h(1) assms(4) by (simp add: PushGenericCommand_def)
    qed (use Some a cr err assms(4) in \<open>auto simp: PushGenericCommand_def\<close>)
  qed
qed

section \<open>Taking an end off\<close>

lemma end_elem_map: "l \<noteq> [] \<Longrightarrow> end_elem side (map f l) = (f (fst (end_elem side l)), map f (snd (end_elem side l)))"
  by (cases side) (simp_all add: hd_map map_tl last_map map_butlast)

lemma end_elem_mset: "l \<noteq> [] \<Longrightarrow> mset l = add_mset (fst (end_elem side l)) (mset (snd (end_elem side l)))"
proof (cases side)
  case CUTIS_TAIL
  assume "l \<noteq> []"
  then have "mset l = mset (butlast l @ [last l])" by simp
  then show ?thesis using CUTIS_TAIL by simp
qed (cases l; simp)

lemma end_elem_set: "l \<noteq> [] \<Longrightarrow> set (snd (end_elem side l)) \<subseteq> set l"
  using end_elem_mset [of l side] by (metis set_mset_add_mset_insert set_mset_mset subset_insertI)

lemma del_end_ok:
  assumes "serving X c s" and "db_inj s" and "keyspace s i k = Some (VList xs)" and "xs \<noteq> []"
    and "addr_map s i k = Some a"
  shows "\<exists>h. del_end side a s = Some (s\<lparr>heap := h\<rparr>) \<and> serving X c (s\<lparr>heap := h\<rparr>) \<and>
    keyspace (s\<lparr>heap := h\<rparr>) = ks_put i k (VList (snd (end_elem side xs))) (keyspace s) \<and>
    pending c (s\<lparr>heap := h\<rparr>) = pending c s"
proof -
  from at_key [OF assms(1,3)] assms(5) obtain o' where
    o': "objs (heap s) a = Some o'" "ptr_at s a = Some (optr o')" "ptr_value (heap s) (optr o') = VList xs" by auto
  then obtain l where l: "optr o' = OList l" "map (obj_str (heap s)) l = xs" by auto
  then have ne: "l \<noteq> []" using assms(4) by auto
  let ?x = "fst (end_elem side l)"
  let ?r = "snd (end_elem side l)"
  have wf: "\<forall>x \<in> set ?r. is_string (objs (heap s)) x"
    using list_wf [OF servingD(1) [OF assms(1)] o'(1) l(1)] end_elem_set [OF ne] by blast
  have val: "ptr_value (heap s) (OList ?r) = VList (snd (end_elem side xs))"
    using end_elem_map [OF ne, of side "obj_str (heap s)"] l(2) by simp
  have "{#} + refs_of (optr o') = {#?x#} + refs_of (OList ?r)"
    using end_elem_mset [OF ne, of side] l(1) by simp
  from mutate_ok [OF _ assms(2,5) o'(1) _ _ _ this, of X c] obtain h where
    h: "store_ptr a (OList ?r) s = Some (s\<lparr>heap := h\<rparr>)" "serving (add_mset ?x X) c (s\<lparr>heap := h\<rparr>)"
      "keyspace (s\<lparr>heap := h\<rparr>) = ks_put i k (VList (snd (end_elem side xs))) (keyspace s)"
      "pending c (s\<lparr>heap := h\<rparr>) = pending c s"
    using assms(1) l(1) wf val by auto
  from decr_ok [OF h(2)] obtain h2 where
    "decr ?x (s\<lparr>heap := h\<rparr>) = Some (s\<lparr>heap := h2\<rparr>)" "serving X c (s\<lparr>heap := h2\<rparr>)"
    "keyspace (s\<lparr>heap := h2\<rparr>) = keyspace (s\<lparr>heap := h\<rparr>)" "pending c (s\<lparr>heap := h2\<rparr>) = pending c (s\<lparr>heap := h\<rparr>)" by auto
  then show ?thesis using h o'(2) l(1) ne by (intro exI [of _ h2]) (simp add: del_end_def)
qed

text \<open>A run of replies keeps the objects where they are.\<close>

lemma said_ptr_at:
  assumes "said R c s txt c1 s1" and "objs (heap s) a = Some o'"
  shows "ptr_at s1 a = Some (optr o')"
  using said_keeps [OF assms(1)] assms(2) by (auto simp: keeps_def ptr_at_def)

lemma PopGenericCommand_does:
  assumes "server_ok c s" and "arg 1 c = Some k"
  shows "case keyspace s (c_db c) k of
      None \<Rightarrow> does c s (keyspace s) (''nil'' @ crlf) 0 (PopGenericCommand side c s)
    | Some (VList xs) \<Rightarrow>
        if xs = [] then does c s (keyspace s) (''nil'' @ crlf) 0 (PopGenericCommand side c s)
        else does c s (ks_put (c_db c) k (VList (snd (end_elem side xs))) (keyspace s))
               (bulk (fst (end_elem side xs))) 1 (PopGenericCommand side c s)
    | Some _ \<Rightarrow> does c s (keyspace s) (err_bulk ''POP against key not holding a list value'') 0
        (PopGenericCommand side c s)"
proof -
  note S = server_okD [OF assms(1)]
  note nil = does_shared [where f = sh_nil, OF S shared_texts(4) [OF S(1)]]
  show ?thesis
  proof (cases "keyspace s (c_db c) k")
    case None
    then show ?thesis using find_none(1) [OF S(1) assms(2) None] nil by (simp add: PopGenericCommand_def)
  next
    case (Some w)
    from find_some [OF S(1) assms(2) Some] obtain a o' where
      a: "find_key c s = Some (Some (k, a))" "addr_map s (c_db c) k = Some a" "objs (heap s) a = Some o'"
        "ptr_at s a = Some (optr o')" "ptr_value (heap s) (optr o') = w" "w \<noteq> VNull" by auto
    show ?thesis
    proof (cases w)
      case (VList xs)
      then obtain l where l: "optr o' = OList l" "map (obj_str (heap s)) l = xs" using a(5) by auto
      show ?thesis
      proof (cases "l = []")
        case True
        then show ?thesis using Some VList l a nil by (simp add: PopGenericCommand_def)
      next
        case False
        let ?x = "fst (end_elem side l)"
        have "?x \<in> set l" using end_elem_mset [OF False, of side]
          by (metis insertI1 set_mset_add_mset_insert set_mset_mset)
        then have "is_string (objs (heap s)) ?x"
          using list_wf [OF servingD(1) [OF S(1)] a(3) l(1)] by blast
        from string_value [OF this] have v: "obj_value (heap s) ?x = VString (fst (end_elem side xs))"
          using end_elem_map [OF False, of side "obj_str (heap s)"] l(2) by simp
        note hk = servingD(1) [OF S(1)]
        from reply_bulk_said [OF said_refl [OF hk, of c] S(1) v] obtain c1 s1 where
          1: "reply_bulk ?x c s = Some (c1, s1)" "said (all_refs {#} c s) c s (bulk (fst (end_elem side xs))) c1 s1"
          by auto
        note R = said_serving [OF S(1) 1(2)]
        from del_end_ok [of "{#}" c1 s1 "c_db c" k xs a side] obtain h where
          h: "del_end side a s1 = Some (s1\<lparr>heap := h\<rparr>)" "serving {#} c1 (s1\<lparr>heap := h\<rparr>)"
            "keyspace (s1\<lparr>heap := h\<rparr>) = ks_put (c_db c) k (VList (snd (end_elem side xs))) (keyspace s)"
            "pending c1 (s1\<lparr>heap := h\<rparr>) = pending c s @ bulk (fst (end_elem side xs))"
          using R S(2) Some VList False l(2) a(2) by (auto simp: db_inj_def)
        have "db_inj s1" using R S(2) by (simp add: db_inj_def)
        then have "does c s (ks_put (c_db c) k (VList (snd (end_elem side xs))) (keyspace s))
            (bulk (fst (end_elem side xs))) 1 (Some (c1, s1\<lparr>heap := h, dirty := dirty s1 + 1\<rparr>))"
          using h R by (simp add: does_def server_ok_def)
        then show ?thesis using Some VList l a False 1(1) h(1) by (auto simp: PopGenericCommand_def)
      qed
    qed (use Some a does_sds [OF S] in \<open>auto simp: PopGenericCommand_def\<close>)
  qed
qed

section \<open>Reading lists\<close>

definition llen_reply :: "cvalue option \<Rightarrow> string" where
  "llen_reply r =
     (case r of
        None \<Rightarrow> ''0'' @ crlf
      | Some (VList xs) \<Rightarrow> num_line (as_int (int (length xs)))
      | Some _ \<Rightarrow> ''-1'' @ crlf)"

lemma LLenCommand_does:
  assumes "server_ok c s" and "arg 1 c = Some k"
  shows "does c s (keyspace s) (llen_reply (keyspace s (c_db c) k)) 0 (LLenCommand c s)"
proof (cases "keyspace s (c_db c) k")
  case None
  note S = server_okD [OF assms(1)]
  show ?thesis using find_none(1) [OF S(1) assms(2) None] None
      does_shared [where f = sh_zero, OF S shared_texts(5) [OF S(1)]]
    by (simp add: LLenCommand_def llen_reply_def)
next
  case (Some v)
  note S = server_okD [OF assms(1)]
  from find_some [OF S(1) assms(2) Some] obtain a o' where
    a: "find_key c s = Some (Some (k, a))" "objs (heap s) a = Some o'" "ptr_at s a = Some (optr o')"
      "ptr_value (heap s) (optr o') = v" "v \<noteq> VNull" by auto
  then show ?thesis using Some does_sds [OF S] by (cases v) (auto simp: LLenCommand_def llen_reply_def)
qed

definition lindex_reply :: "int \<Rightarrow> cvalue option \<Rightarrow> string" where
  "lindex_reply i r =
     (case r of
        None \<Rightarrow> ''nil'' @ crlf
      | Some (VList xs) \<Rightarrow> (case index_spec xs i of None \<Rightarrow> ''nil'' @ crlf | Some x \<Rightarrow> bulk x)
      | Some _ \<Rightarrow> err_bulk ''LINDEX against key not holding a list value'')"

lemma index_spec_map: "index_spec (map f l) i = map_option f (index_spec l i)"
  by (simp add: index_spec_def Let_def)

lemma index_spec_set: "index_spec l i = Some x \<Longrightarrow> x \<in> set l"
  by (auto simp: index_spec_def Let_def split: if_splits)

lemma LIndexCommand_does:
  assumes "server_ok c s" and "arg 1 c = Some k" and "arg 2 c = Some t" and "atoi (cstr t) \<noteq> INT_MIN"
  shows "does c s (keyspace s) (lindex_reply (atoi (cstr t)) (keyspace s (c_db c) k)) 0 (LIndexCommand c s)"
proof -
  note S = server_okD [OF assms(1)]
  note nil = does_shared [where f = sh_nil, OF S shared_texts(4) [OF S(1)]]
  show ?thesis
  proof (cases "keyspace s (c_db c) k")
    case None
    then show ?thesis using find_none(1) [OF S(1) assms(2) None] nil assms(3)
      by (simp add: LIndexCommand_def lindex_reply_def)
  next
    case (Some w)
    from find_some [OF S(1) assms(2) Some] obtain a o' where
      a: "find_key c s = Some (Some (k, a))" "objs (heap s) a = Some o'"
        "ptr_at s a = Some (optr o')" "ptr_value (heap s) (optr o') = w" "w \<noteq> VNull" by auto
    show ?thesis
    proof (cases w)
      case (VList xs)
      then obtain l where l: "optr o' = OList l" "xs = map (obj_str (heap s)) l" using a(4) by auto
      let ?i = "atoi (cstr t)"
      show ?thesis
      proof (cases "index_spec l ?i")
        case None
        then show ?thesis using Some VList l a nil assms(3,4)
          by (simp add: LIndexCommand_def lindex_reply_def list_index_def index_spec_map)
      next
        case (Some x)
        have "is_string (objs (heap s)) x"
          using list_wf [OF servingD(1) [OF S(1)] a(2) l(1)] index_spec_set [OF Some] by blast
        from does_bulk [OF S string_value [OF this]]
        have "does c s (keyspace s) (bulk (obj_str (heap s) x)) 0 (reply_bulk x c s)" by simp
        then show ?thesis using \<open>keyspace s (c_db c) k = Some w\<close> Some VList l a assms(3,4)
          by (simp add: LIndexCommand_def lindex_reply_def list_index_def index_spec_map)
      qed
    qed (use Some a does_sds [OF S] assms(3) in \<open>auto simp: LIndexCommand_def lindex_reply_def\<close>)
  qed
qed

section \<open>Ranges\<close>

text \<open>The elements from one index to another, each counted from the end when it is negative.\<close>

definition lrange :: "'a list \<Rightarrow> int \<Rightarrow> int \<Rightarrow> 'a list" where
  "lrange xs a b =
     (let n = int (length xs); at = (\<lambda>i. max 0 (if i < 0 then n + i else i))
      in map (\<lambda>m. xs ! nat m) [at a..min (n - 1) (at b)])"

lemma lrange_map: "lrange (map f l) a b = map f (lrange l a b)"
  by (auto simp: lrange_def Let_def)

lemma nth_range:
  assumes "0 \<le> i" and "i \<le> j" and "j < int (length xs)"
  shows "map (\<lambda>m. xs ! nat m) [i..j] = take (nat (j - i + 1)) (drop (nat i) xs)"
proof (rule nth_equalityI)
  show "length (map (\<lambda>m. xs ! nat m) [i..j]) = length (take (nat (j - i + 1)) (drop (nat i) xs))"
    using assms by simp
  fix p
  assume "p < length (map (\<lambda>m. xs ! nat m) [i..j])"
  then have "i + int p \<le> j" "p < nat (j - i + 1)" using assms by auto
  then show "map (\<lambda>m. xs ! nat m) [i..j] ! p = take (nat (j - i + 1)) (drop (nat i) xs) ! p"
    using assms by (simp add: nat_add_distrib)
qed

lemma lrange_clip:
  assumes "n = int (length xs)"
  shows "lrange xs a b =
    (if clip n a > clip n b \<or> clip n a \<ge> n then []
     else take (nat ((if clip n b \<ge> n then n - 1 else clip n b) - clip n a + 1)) (drop (nat (clip n a)) xs))"
proof -
  have c: "clip n i = max 0 (if i < 0 then n + i else i)" for i by (simp add: clip_def Let_def)
  have r: "lrange xs a b = map (\<lambda>m. xs ! nat m) [clip n a..min (n - 1) (clip n b)]"
    unfolding lrange_def Let_def c by (simp add: assms)
  show ?thesis
  proof (cases "clip n a > clip n b \<or> clip n a \<ge> n")
    case True
    then show ?thesis unfolding r by auto
  next
    case False
    have m: "min (n - 1) (clip n b) = (if clip n b \<ge> n then n - 1 else clip n b)" by auto
    show ?thesis unfolding r if_not_P [OF False] m
      by (rule nth_range) (use False c assms in auto)
  qed
qed

lemma bulks_said:
  assumes "said (all_refs X c s) c s t c1 s1" and "serving X c s" and "\<forall>x \<in> set ys. is_string (objs (heap s)) x"
  shows "\<exists>c2 s2. foldM (\<lambda>x (c, s). reply_bulk x c s) ys (c1, s1) = Some (c2, s2) \<and>
    said (all_refs X c s) c s (t @ concat (map (bulk \<circ> obj_str (heap s)) ys)) c2 s2"
  using assms(1,3)
proof (induction ys arbitrary: t c1 s1)
  case Nil
  then show ?case by simp
next
  case (Cons y ys)
  then have "obj_value (heap s) y = VString (obj_str (heap s) y)" by (simp add: string_value)
  from reply_bulk_said [OF Cons.prems(1) assms(2) this] obtain c2 s2 where
    2: "reply_bulk y c1 s1 = Some (c2, s2)"
      "said (all_refs X c s) c s (t @ bulk (obj_str (heap s) y)) c2 s2" by blast
  from Cons.IH [OF 2(2)] Cons.prems(2) 2(1) show ?case by simp
qed

lemma num_line_0: "num_line 0 = ''0'' @ crlf"
  by code_simp

definition lrange_reply :: "int \<Rightarrow> int \<Rightarrow> cvalue option \<Rightarrow> string" where
  "lrange_reply i j r =
     (case r of
        None \<Rightarrow> ''nil'' @ crlf
      | Some (VList xs) \<Rightarrow> num_line (int (length (lrange xs i j))) @ concat (map bulk (lrange xs i j))
      | Some _ \<Rightarrow> err_bulk ''LRANGE against key not holding a list value'')"

text \<open>The length of a list fits into an \<open>int\<close>.\<close>

definition fits :: "cvalue option \<Rightarrow> bool" where
  "fits r \<longleftrightarrow> (case r of Some (VList xs) \<Rightarrow> int (length xs) \<le> INT_MAX | _ \<Rightarrow> True)"

lemma fits_as_int: "fits (Some (VList xs)) \<Longrightarrow> as_int (int (length xs)) = int (length xs)"
  by (simp add: fits_def c_limits)

lemma LRangeCommand_does:
  assumes "server_ok c s" and "arg 1 c = Some k" and "arg 2 c = Some t" and "arg 3 c = Some u"
    and "fits (keyspace s (c_db c) k)"
  shows "does c s (keyspace s)
    (lrange_reply (atoi (cstr t)) (atoi (cstr u)) (keyspace s (c_db c) k)) 0 (LRangeCommand c s)"
proof -
  note S = server_okD [OF assms(1)]
  show ?thesis
  proof (cases "keyspace s (c_db c) k")
    case None
    then show ?thesis using find_none(1) [OF S(1) assms(2) None] assms(3,4)
        does_shared [where f = sh_nil, OF S shared_texts(4) [OF S(1)]]
      by (simp add: LRangeCommand_def lrange_reply_def)
  next
    case (Some w)
    from find_some [OF S(1) assms(2) Some] obtain a o' where
      a: "find_key c s = Some (Some (k, a))" "objs (heap s) a = Some o'"
        "ptr_at s a = Some (optr o')" "ptr_value (heap s) (optr o') = w" "w \<noteq> VNull" by auto
    show ?thesis
    proof (cases w)
      case (VList xs)
      then obtain l where l: "optr o' = OList l" "xs = map (obj_str (heap s)) l" using a(4) by auto
      define n where "n = int (length l)"
      define i where "i = clip n (atoi (cstr t))"
      define j where "j = clip n (atoi (cstr u))"
      have n: "as_int n = n" using fits_as_int [of xs] assms(5) Some VList l(2) by (simp add: n_def)
      have i0: "0 \<le> i" "0 \<le> j" by (simp_all add: i_def j_def clip_def Let_def)
      note R = lrange_clip [OF n_def, of "atoi (cstr t)" "atoi (cstr u)", folded i_def j_def]
      have rep: "lrange_reply (atoi (cstr t)) (atoi (cstr u)) (keyspace s (c_db c) k) =
        num_line (int (length (lrange l (atoi (cstr t)) (atoi (cstr u))))) @
        concat (map (bulk \<circ> obj_str (heap s)) (lrange l (atoi (cstr t)) (atoi (cstr u))))"
        using Some VList l(2) by (simp add: lrange_reply_def lrange_map)
      show ?thesis
      proof (cases "i > j \<or> i \<ge> n")
        case True
        then show ?thesis using a l(1) assms(3,4) R n num_line_0
            does_shared [where f = sh_zero, OF S shared_texts(5) [OF S(1)]]
          by (simp add: rep LRangeCommand_def n_def [symmetric] i_def [symmetric] j_def [symmetric])
      next
        case False
        define e where "e = (if j \<ge> n then n - 1 else j)"
        let ?ys = "take (nat (e - i + 1)) (drop (nat i) l)"
        have ys: "lrange l (atoi (cstr t)) (atoi (cstr u)) = ?ys" unfolding R e_def if_not_P [OF False] ..
        have len: "nat i + nat (e - i + 1) \<le> length l" "int (length ?ys) = e - i + 1"
          using False i0 by (auto simp: e_def n_def)
        have "set ?ys \<subseteq> set l" by (meson order_trans set_drop_subset set_take_subset)
        then have str: "\<forall>x \<in> set ?ys. is_string (objs (heap s)) x"
          using list_wf [OF servingD(1) [OF S(1)] a(2) l(1)] by blast
        note hk = servingD(1) [OF S(1)]
        from said_sds [OF said_refl [OF hk, of c], of "num_line (e - i + 1)"] obtain c1 s1 where
          1: "AddReplySds (num_line (e - i + 1)) c s = Some (c1, s1)"
            "said (all_refs {#} c s) c s (num_line (e - i + 1)) c1 s1" by auto
        from bulks_said [OF 1(2) S(1) str] obtain c2 s2 where
          2: "foldM (\<lambda>x (c, s). reply_bulk x c s) ?ys (c1, s1) = Some (c2, s2)"
            "said (all_refs {#} c s) c s (num_line (e - i + 1) @ concat (map (bulk \<circ> obj_str (heap s)) ?ys)) c2 s2"
          by blast
        have run: "LRangeCommand c s = Some (c2, s2)"
          using a l(1) assms(3,4) n 1(1) 2(1) len(1) False
          by (cases "n \<le> j")
            (simp_all add: LRangeCommand_def Let_def n_def [symmetric] i_def [symmetric] j_def [symmetric] e_def)
        show ?thesis unfolding run rep ys len(2)
          by (rule does_said [OF S 2(2)]) simp_all
      qed
    qed (use Some a does_sds [OF S] assms(3,4) in \<open>auto simp: LRangeCommand_def lrange_reply_def\<close>)
  qed
qed

section \<open>Trimming\<close>

lemma butlast_pow: "(butlast ^^ n) xs = take (length xs - n) xs"
  by (induction n) (auto simp: butlast_take One_nat_def)

lemma tl_pow: "(tl ^^ n) xs = drop n xs"
  by (induction n) (auto simp: drop_Suc tl_drop)

fun cut :: "side \<Rightarrow> nat \<Rightarrow> 'a list \<Rightarrow> 'a list" where
  "cut CUTIS_HEAD n xs = drop n xs"
| "cut CUTIS_TAIL n xs = take (length xs - n) xs"

lemma cut_Suc: "cut side (Suc n) xs = cut side n (snd (end_elem side xs))"
  by (cases side) (simp_all add: drop_Suc butlast_conv_take min_def diff_Suc_eq_diff_pred)

lemma ks_put_put: "ks_put i k v (ks_put i k w K) = ks_put i k v K"
  by (simp add: ks_put_def)

lemma ks_put_same: "K i k = Some v \<Longrightarrow> ks_put i k v K = K"
  by (simp add: ks_put_def fun_upd_idem)

lemma del_ends_ok:
  assumes "serving X c s" and "db_inj s" and "keyspace s i k = Some (VList xs)" and "n \<le> length xs"
    and "addr_map s i k = Some a"
  shows "\<exists>h. timesM n (del_end side a) s = Some (s\<lparr>heap := h\<rparr>) \<and> serving X c (s\<lparr>heap := h\<rparr>) \<and>
    keyspace (s\<lparr>heap := h\<rparr>) = ks_put i k (VList (cut side n xs)) (keyspace s) \<and>
    pending c (s\<lparr>heap := h\<rparr>) = pending c s"
  using assms
proof (induction n arbitrary: s xs)
  case 0
  have "cut side 0 xs = xs" by (cases side) simp_all
  then show ?case using 0 by (intro exI [of _ "heap s"]) (simp add: ks_put_same)
next
  case (Suc n)
  from del_end_ok [OF Suc.prems(1-3) _ Suc.prems(5), of side] Suc.prems(4) obtain h where
    h: "del_end side a s = Some (s\<lparr>heap := h\<rparr>)" "serving X c (s\<lparr>heap := h\<rparr>)"
      "keyspace (s\<lparr>heap := h\<rparr>) = ks_put i k (VList (snd (end_elem side xs))) (keyspace s)"
      "pending c (s\<lparr>heap := h\<rparr>) = pending c s" by force
  have k: "keyspace (s\<lparr>heap := h\<rparr>) i k = Some (VList (snd (end_elem side xs)))"
    unfolding h(3) by (simp add: ks_put_def)
  have len: "n \<le> length (snd (end_elem side xs))" using Suc.prems(4) by (cases side) auto
  from Suc.IH [OF h(2) _ k len] Suc.prems(2,5) obtain h2 where
    "timesM n (del_end side a) (s\<lparr>heap := h\<rparr>) = Some (s\<lparr>heap := h2\<rparr>)" "serving X c (s\<lparr>heap := h2\<rparr>)"
    "keyspace (s\<lparr>heap := h2\<rparr>) = ks_put i k (VList (cut side (Suc n) xs)) (keyspace s)"
    "pending c (s\<lparr>heap := h2\<rparr>) = pending c s"
    using h(3,4) by (auto simp: cut_Suc ks_put_put)
  then show ?case using h(1) by auto
qed

text \<open>What the two loops leave of the list.\<close>

definition trim_of :: "int \<Rightarrow> int \<Rightarrow> int \<Rightarrow> nat \<times> nat" where
  "trim_of n i j =
     (if i > j \<or> i \<ge> n then (nat n, 0) else (nat i, nat (n - (if j \<ge> n then n - 1 else j) - 1)))"

lemma trim_range:
  assumes "n = int (length xs)" and "trim_of n (clip n a) (clip n b) = (p, q)"
  shows "p \<le> length xs" and "q \<le> length (cut CUTIS_HEAD p xs)"
    and "cut CUTIS_TAIL q (cut CUTIS_HEAD p xs) = lrange xs a b"
proof -
  let ?i = "clip n a" and ?j = "clip n b"
  have i0: "0 \<le> ?i" "0 \<le> ?j" by (simp_all add: clip_def Let_def)
  show "p \<le> length xs" "q \<le> length (cut CUTIS_HEAD p xs)"
    using i0 assms by (auto simp: trim_of_def split: if_splits)
  show "cut CUTIS_TAIL q (cut CUTIS_HEAD p xs) = lrange xs a b"
  proof (cases "?i > ?j \<or> ?i \<ge> n")
    case True
    then show ?thesis using lrange_clip [OF assms(1), of a b] assms by (auto simp: trim_of_def)
  next
    case False
    define e where "e = (if ?j \<ge> n then n - 1 else ?j)"
    have pq: "p = nat ?i" "q = nat (n - e - 1)" using assms(2) False by (simp_all add: trim_of_def e_def)
    have "length xs - nat ?i - nat (n - e - 1) = nat (e - ?i + 1)" using False i0 assms(1) by (auto simp: e_def)
    then show ?thesis using False lrange_clip [OF assms(1), of a b] by (simp add: pq e_def)
  qed
qed

lemma trim_list_ok:
  assumes "serving {#} c s" and "db_inj s" and "keyspace s (c_db c) k = Some (VList xs)"
    and "addr_map s (c_db c) k = Some a" and "p \<le> length xs" and "q \<le> length (cut CUTIS_HEAD p xs)"
  shows "\<exists>h1 h2. timesM p (del_end CUTIS_HEAD a) s = Some (s\<lparr>heap := h1\<rparr>) \<and>
    timesM q (del_end CUTIS_TAIL a) (s\<lparr>heap := h1\<rparr>) = Some (s\<lparr>heap := h2\<rparr>) \<and> serving {#} c (s\<lparr>heap := h2\<rparr>) \<and>
    keyspace (s\<lparr>heap := h2\<rparr>) = ks_put (c_db c) k (VList (cut CUTIS_TAIL q (cut CUTIS_HEAD p xs))) (keyspace s) \<and>
    pending c (s\<lparr>heap := h2\<rparr>) = pending c s"
proof -
  from del_ends_ok [OF assms(1-3,5,4), of CUTIS_HEAD] obtain h1 where
    1: "timesM p (del_end CUTIS_HEAD a) s = Some (s\<lparr>heap := h1\<rparr>)" "serving {#} c (s\<lparr>heap := h1\<rparr>)"
      "keyspace (s\<lparr>heap := h1\<rparr>) = ks_put (c_db c) k (VList (cut CUTIS_HEAD p xs)) (keyspace s)"
      "pending c (s\<lparr>heap := h1\<rparr>) = pending c s" by blast
  have k1: "keyspace (s\<lparr>heap := h1\<rparr>) (c_db c) k = Some (VList (cut CUTIS_HEAD p xs))"
    unfolding 1(3) by (simp add: ks_put_def)
  from del_ends_ok [OF 1(2) _ k1 assms(6), of a CUTIS_TAIL] assms(2,4) 1 show ?thesis by (auto simp: ks_put_put)
qed

lemma LTrimCommand_does:
  assumes "server_ok c s" and "arg 1 c = Some k" and "arg 2 c = Some t" and "arg 3 c = Some u"
    and "fits (keyspace s (c_db c) k)"
  shows "case keyspace s (c_db c) k of
      None \<Rightarrow> does c s (keyspace s) (err_line ''no such key'') 0 (LTrimCommand c s)
    | Some (VList xs) \<Rightarrow>
        does c s (ks_put (c_db c) k (VList (lrange xs (atoi (cstr t)) (atoi (cstr u)))) (keyspace s))
          (''+OK'' @ crlf) 1 (LTrimCommand c s)
    | Some _ \<Rightarrow> does c s (keyspace s) (err_line ''LTRIM against key not holding a list value'') 0
        (LTrimCommand c s)"
proof -
  note S = server_okD [OF assms(1)]
  show ?thesis
  proof (cases "keyspace s (c_db c) k")
    case None
    then show ?thesis using find_none(1) [OF S(1) assms(2) None] assms(3,4) does_sds [OF S]
      by (simp add: LTrimCommand_def)
  next
    case (Some w)
    from find_some [OF S(1) assms(2) Some] obtain a o' where
      a: "find_key c s = Some (Some (k, a))" "addr_map s (c_db c) k = Some a" "objs (heap s) a = Some o'"
        "ptr_at s a = Some (optr o')" "ptr_value (heap s) (optr o') = w" "w \<noteq> VNull" by auto
    show ?thesis
    proof (cases w)
      case (VList xs)
      then obtain l where l: "optr o' = OList l" "xs = map (obj_str (heap s)) l" using a(5) by auto
      define n where "n = int (length xs)"
      have nl: "int (length l) = n" "as_int n = n" using l(2) fits_as_int [of xs] assms(5) Some VList by (simp_all add: n_def)
      obtain p q where pq: "trim_of n (clip n (atoi (cstr t))) (clip n (atoi (cstr u))) = (p, q)" by force
      note T = trim_range [OF n_def pq]
      from trim_list_ok [OF S Some [unfolded VList] a(2) T(1,2)] obtain h1 h2 where
        2: "timesM p (del_end CUTIS_HEAD a) s = Some (s\<lparr>heap := h1\<rparr>)"
          "timesM q (del_end CUTIS_TAIL a) (s\<lparr>heap := h1\<rparr>) = Some (s\<lparr>heap := h2\<rparr>)" "serving {#} c (s\<lparr>heap := h2\<rparr>)"
          "keyspace (s\<lparr>heap := h2\<rparr>) =
            ks_put (c_db c) k (VList (lrange xs (atoi (cstr t)) (atoi (cstr u)))) (keyspace s)"
          "pending c (s\<lparr>heap := h2\<rparr>) = pending c s" unfolding T(3) by blast
      have "LTrimCommand c s = do { (c, s) \<leftarrow> reply_shared sh_ok c (s\<lparr>heap := h2\<rparr>); Some (c, s\<lparr>dirty := dirty s + 1\<rparr>) }"
        using a l(1) assms(3,4) nl 2(1,2) pq
        by (cases "clip n (atoi (cstr t)) > clip n (atoi (cstr u)) \<or> n \<le> clip n (atoi (cstr t))";
            cases "n \<le> clip n (atoi (cstr u))") (simp_all add: LTrimCommand_def Let_def trim_of_def)
      moreover have "db_inj (s\<lparr>heap := h2\<rparr>)" using S(2) by simp
      ultimately show ?thesis using Some VList does_then_dirty [OF 2(3) _ 2(4,5), of 0] by simp
    qed (use Some a does_sds [OF S] assms(3,4) in \<open>auto simp: LTrimCommand_def\<close>)
  qed
qed

section \<open>Replacing an element\<close>

text \<open>
  \<open>LSET\<close> releases the old element while it is still in the list. Releasing a string does not look at
  the list, so the outcome is that of taking it out first.
\<close>

lemma decr_string_eq:
  assumes "objs h x = Some o'" and "optr o' = OString v"
  shows "DecrRefCount x h = Some
    (if refcount o' = 1 then h\<lparr>objs := (objs h)(x := None), free_objs := x # free_objs h\<rparr>
     else h\<lparr>objs := (objs h)(x \<mapsto> o'\<lparr>refcount := refcount o' - 1\<rparr>)\<rparr>)"
  using assms by (simp add: DecrRefCount_def numeral_2_eq_2 Let_def)

lemma decr_commute:
  assumes "objs h x = Some o'" and "optr o' = OString v" and "x \<noteq> a" and "DecrRefCount x h = Some h'"
  shows "DecrRefCount x (h\<lparr>objs := (objs h)(a \<mapsto> y)\<rparr>) = Some (h'\<lparr>objs := (objs h')(a \<mapsto> y)\<rparr>) \<and> objs h' a = objs h a"
proof -
  have y: "objs (h\<lparr>objs := (objs h)(a \<mapsto> y)\<rparr>) x = Some o'" using assms(1,3) by simp
  show ?thesis
    using assms(3,4) unfolding decr_string_eq [OF assms(1,2)] decr_string_eq [OF y assms(2)]
    by (auto simp: fun_upd_twist [OF assms(3)] split: if_splits)
qed

text \<open>A member is released, then the container that held it gets its new contents.\<close>

lemma decr_store_ok:
  assumes "serving X c s" and "db_inj s" and "addr_map s i k = Some a" and "objs (heap s) a = Some o'"
    and "\<And>v. optr o' \<noteq> OString v" and "wf_ptr (objs (heap s)) p" and "\<And>v. p \<noteq> OString v"
    and "refs_of (optr o') = add_mset x (refs_of p)"
  shows "\<exists>h1 h. DecrRefCount x (heap s) = Some h1 \<and> h = h1\<lparr>objs := (objs h1)(a \<mapsto> o'\<lparr>optr := p\<rparr>)\<rparr> \<and>
    objs h1 a = Some o' \<and> serving X c (s\<lparr>heap := h\<rparr>) \<and>
    keyspace (s\<lparr>heap := h\<rparr>) = ks_put i k (ptr_value (heap s) p) (keyspace s) \<and>
    pending c (s\<lparr>heap := h\<rparr>) = pending c s"
proof -
  note hk = servingD(1) [OF assms(1)]
  have str: "is_string (objs (heap s)) x"
  proof -
    have "x \<in># refs_of (optr o')" using assms(8) by simp
    then show ?thesis using live_wf [OF hk assms(4)] by (cases "optr o'") auto
  qed
  then obtain ox v where ox: "objs (heap s) x = Some ox" "optr ox = OString (Some v)" by (auto simp: is_string_def)
  then have ne: "x \<noteq> a" using assms(4) assms(5) [of "Some v"] by auto
  obtain h1 where h1: "DecrRefCount x (heap s) = Some h1" using decr_string_eq [OF ox] by blast
  note D = decr_commute [OF ox ne h1, of "o'\<lparr>optr := p\<rparr>"]
  let ?s = "s\<lparr>heap := (heap s)\<lparr>objs := (objs (heap s))(a \<mapsto> o'\<lparr>optr := p\<rparr>)\<rparr>\<rparr>"
  have r: "{#} + refs_of (optr o') = {#x#} + refs_of p" using assms(8) by simp
  have "serving ({#} + X) c s" using assms(1) by simp
  from mutate_ok [OF this assms(2,3,4,5,6,7) r] assms(4) have
    m: "serving (add_mset x X) c ?s" "keyspace ?s = ks_put i k (ptr_value (heap s) p) (keyspace s)"
      "pending c ?s = pending c s"
    by (auto simp: store_ptr_def set_ptr_def)
  let ?h = "h1\<lparr>objs := (objs h1)(a \<mapsto> o'\<lparr>optr := p\<rparr>)\<rparr>"
  from decr_ok [OF m(1)] D have
    "serving X c (?s\<lparr>heap := ?h\<rparr>)" "keyspace (?s\<lparr>heap := ?h\<rparr>) = keyspace ?s" "pending c (?s\<lparr>heap := ?h\<rparr>) = pending c ?s"
    by (auto simp: decr_def)
  then show ?thesis using m(2,3) h1 D assms(4) by (intro exI [of _ h1] exI [of _ ?h]) simp
qed

text \<open>Creating an object does not look at the others.\<close>

lemma create_commute:
  assumes "CreateCutisObject p h = (b, h')"
  shows "CreateCutisObject p (h\<lparr>objs := M\<rparr>) = (b, h'\<lparr>objs := M(b \<mapsto> \<lparr>optr = p, refcount = 1\<rparr>)\<rparr>) \<and>
    objs h' = (objs h)(b \<mapsto> \<lparr>optr = p, refcount = 1\<rparr>)"
  using assms by (auto simp: CreateCutisObject_def Let_def split: list.splits)

lemma index_pos_spec:
  assumes "index_spec l i = Some x"
  shows "index_pos l i < length l" and "l ! index_pos l i = x"
  using assms by (auto simp: index_spec_def index_pos_def Let_def split: if_splits)

text \<open>A new string goes into a list.\<close>

lemma insert_element:
  assumes "serving {#} c s" and "db_inj s" and "addr_map s i k = Some a" and "objs (heap s) a = Some o'"
    and "optr o' = OList (us @ ws)" and "create (OString (Some v)) s = (y, s2)"
  shows "y \<noteq> a \<and> (\<exists>h. store_ptr a (OList (us @ y # ws)) s2 = Some (s2\<lparr>heap := h\<rparr>) \<and> serving {#} c (s2\<lparr>heap := h\<rparr>) \<and>
    keyspace (s2\<lparr>heap := h\<rparr>) =
      ks_put i k (VList (map (obj_str (heap s)) us @ v # map (obj_str (heap s)) ws)) (keyspace s) \<and>
    pending c (s2\<lparr>heap := h\<rparr>) = pending c s)"
proof -
  note C = create_value [OF assms(1,6)]
  have ya: "y \<noteq> a" using C(8) [of i k] assms(3) by auto
  have wf: "\<forall>b \<in> set (us @ ws). is_string (objs (heap s)) b"
    by (rule list_wf [OF servingD(1) [OF assms(1)] assms(4,5)])
  have "y \<notin> set (us @ ws)"
  proof
    assume "y \<in> set (us @ ws)"
    then have "objs (heap s) y \<noteq> None" using wf by (auto simp: is_string_def)
    moreover have "free_ok (heap s)" using servingD(1) [OF assms(1)] by (simp add: heap_ok_def)
    then have "objs (heap s) y = None" using Create_fresh assms(6) by (auto simp: create_def split: prod.splits)
    ultimately show False by simp
  qed
  then have str: "is_string (objs (heap s2)) b" "obj_str (heap s2) b = obj_str (heap s) b" if "b \<in> set (us @ ws)" for b
    using that wf C(10) by (auto simp: is_string_def obj_str_def)
  have y: "is_string (objs (heap s2)) y" "obj_str (heap s2) y = v" using C(10) by (simp_all add: is_string_def obj_str_def)
  have r: "{#y#} + refs_of (optr o') = {#} + refs_of (OList (us @ y # ws))" using assms(5) by simp
  have wfn: "wf_ptr (objs (heap s2)) (OList (us @ y # ws))" using str(1) y(1) by auto
  have val: "ptr_value (heap s2) (OList (us @ y # ws)) = VList (map (obj_str (heap s)) us @ v # map (obj_str (heap s)) ws)"
    using str(2) y(2) by simp
  have "serving ({#y#} + {#}) c s2" "db_inj s2" "addr_map s2 i k = Some a" "objs (heap s2) a = Some o'"
    "\<And>u. optr o' \<noteq> OString u" using C assms(2-5) ya by simp_all
  from mutate_ok [OF this wfn _ r] C(2,4) ya show ?thesis unfolding val by auto
qed

text \<open>One element in place of another.\<close>

lemma replace_element:
  assumes "serving {#} c s" and "db_inj s" and "addr_map s i k = Some a" and "objs (heap s) a = Some o'"
    and "optr o' = OList l" and "n < length l"
  shows "\<exists>h1 y h2 h4. DecrRefCount (l ! n) (heap s) = Some h1 \<and> CreateCutisObject (OString (Some v)) h1 = (y, h2) \<and>
    store_ptr a (OList (l[n := y])) (s\<lparr>heap := h2\<rparr>) = Some (s\<lparr>heap := h4\<rparr>) \<and> serving {#} c (s\<lparr>heap := h4\<rparr>) \<and>
    keyspace (s\<lparr>heap := h4\<rparr>) = ks_put i k (VList ((map (obj_str (heap s)) l)[n := v])) (keyspace s) \<and>
    pending c (s\<lparr>heap := h4\<rparr>) = pending c s"
proof -
  let ?us = "take n l" and ?ws = "drop (Suc n) l"
  have split: "l = ?us @ l ! n # ?ws" by (rule id_take_nth_drop [OF assms(6)])
  have ms: "mset l = add_mset (l ! n) (mset (?us @ ?ws))" by (subst split) simp
  then have sub: "set (?us @ ?ws) \<subseteq> set l" by (metis set_mset_add_mset_insert set_mset_mset subset_insertI)
  note wf = list_wf [OF servingD(1) [OF assms(1)] assms(4,5)]
  have "refs_of (optr o') = add_mset (l ! n) (refs_of (OList (?us @ ?ws)))" using ms assms(5) by simp
  from decr_store_ok [OF assms(1-4) _ _ _ this] assms(5) wf sub obtain h1 h where
    1: "DecrRefCount (l ! n) (heap s) = Some h1" "h = h1\<lparr>objs := (objs h1)(a \<mapsto> o'\<lparr>optr := OList (?us @ ?ws)\<rparr>)\<rparr>"
      "objs h1 a = Some o'" "serving {#} c (s\<lparr>heap := h\<rparr>)"
      "keyspace (s\<lparr>heap := h\<rparr>) = ks_put i k (VList (map (obj_str (heap s)) (?us @ ?ws))) (keyspace s)"
      "pending c (s\<lparr>heap := h\<rparr>) = pending c s" by force
  let ?s1 = "s\<lparr>heap := h\<rparr>"
  have s1: "db_inj ?s1" "addr_map ?s1 i k = Some a" "objs (heap ?s1) a = Some (o'\<lparr>optr := OList (?us @ ?ws)\<rparr>)"
    using assms(2,3) 1(2) by simp_all
  have same: "map (obj_str h) (?us @ ?ws) = map (obj_str (heap s)) (?us @ ?ws)"
  proof -
    have "keyspace ?s1 i k = Some (VList (map (obj_str h) (?us @ ?ws)))"
      using s1(2,3) by (simp add: keyspace_def obj_value_def)
    then show ?thesis unfolding 1(5) by (simp add: ks_put_def)
  qed
  then have us: "map (obj_str h) ?us = map (obj_str (heap s)) ?us" "map (obj_str h) ?ws = map (obj_str (heap s)) ?ws" by simp_all
  obtain y h2 where cr: "CreateCutisObject (OString (Some v)) h1 = (y, h2)" by force
  note CC = create_commute [OF cr, of "objs h"]
  let ?h3 = "h2\<lparr>objs := (objs h)(y \<mapsto> \<lparr>optr = OString (Some v), refcount = 1\<rparr>)\<rparr>"
  have "h1\<lparr>objs := objs h\<rparr> = h" using 1(2) by simp
  then have cr2: "create (OString (Some v)) ?s1 = (y, s\<lparr>heap := ?h3\<rparr>)" using CC by (simp add: create_def)
  have upd: "l[n := y] = ?us @ y # ?ws" using assms(6) by (simp add: upd_conv_take_nth_drop)
  from insert_element [OF 1(4) s1 _ cr2, of ?us ?ws] obtain h4 where
    4: "y \<noteq> a" "store_ptr a (OList (l[n := y])) (s\<lparr>heap := ?h3\<rparr>) = Some (s\<lparr>heap := h4\<rparr>)" "serving {#} c (s\<lparr>heap := h4\<rparr>)"
      "keyspace (s\<lparr>heap := h4\<rparr>) = ks_put i k (VList (map (obj_str h) ?us @ v # map (obj_str h) ?ws)) (keyspace ?s1)"
      "pending c (s\<lparr>heap := h4\<rparr>) = pending c ?s1"
    unfolding upd by auto
  have "map (obj_str h) ?us @ v # map (obj_str h) ?ws = (map (obj_str (heap s)) l)[n := v]"
    unfolding us using assms(6) by (simp add: upd_conv_take_nth_drop take_map drop_map)
  then have ks: "keyspace (s\<lparr>heap := h4\<rparr>) = ks_put i k (VList ((map (obj_str (heap s)) l)[n := v])) (keyspace s)"
    using 4(4) unfolding 1(5) by (simp add: ks_put_put)
  have "set_ptr a (OList (l[n := y])) h2 = set_ptr a (OList (l[n := y])) ?h3"
    using CC 1(2,3) 4(1) by (simp add: set_ptr_def fun_upd_twist [of a y])
  then have "store_ptr a (OList (l[n := y])) (s\<lparr>heap := h2\<rparr>) = Some (s\<lparr>heap := h4\<rparr>)" using 4(2) by (simp add: store_ptr_def)
  then show ?thesis using 1(1) cr 4(3,5) 1(6) ks by auto
qed

lemma LSetCommand_does:
  assumes "server_ok c s" and "arg 1 c = Some k" and "arg 2 c = Some t" and "arg 3 c = Some v"
    and "atoi (cstr t) \<noteq> INT_MIN"
  shows "case keyspace s (c_db c) k of
      None \<Rightarrow> does c s (keyspace s) (err_line ''no such key'') 0 (LSetCommand c s)
    | Some (VList xs) \<Rightarrow>
        if index_spec xs (atoi (cstr t)) = None
        then does c s (keyspace s) (err_line ''index out of range'') 0 (LSetCommand c s)
        else does c s (ks_put (c_db c) k (VList (xs[index_pos xs (atoi (cstr t)) := v])) (keyspace s))
               (''+OK'' @ crlf) 1 (LSetCommand c s)
    | Some _ \<Rightarrow> does c s (keyspace s) (err_line ''LSET against key not holding a list value'') 0
        (LSetCommand c s)"
proof -
  note S = server_okD [OF assms(1)]
  let ?t = "atoi (cstr t)"
  show ?thesis
  proof (cases "keyspace s (c_db c) k")
    case None
    then show ?thesis using find_none(1) [OF S(1) assms(2) None] assms(3,4) does_sds [OF S]
      by (simp add: LSetCommand_def)
  next
    case (Some w)
    note key = Some
    from find_some [OF S(1) assms(2) Some] obtain a o' where
      a: "find_key c s = Some (Some (k, a))" "addr_map s (c_db c) k = Some a" "objs (heap s) a = Some o'"
        "ptr_at s a = Some (optr o')" "ptr_value (heap s) (optr o') = w" "w \<noteq> VNull" by auto
    show ?thesis
    proof (cases w)
      case (VList xs)
      then obtain l where l: "optr o' = OList l" "xs = map (obj_str (heap s)) l" using a(5) by auto
      show ?thesis
      proof (cases "index_spec l ?t")
        case None
        then show ?thesis using Some VList l a does_sds [OF S] assms(3-5)
          by (simp add: LSetCommand_def list_index_def index_spec_map)
      next
        case (Some x)
        define n where "n = index_pos l ?t"
        have n: "n < length l" "l ! n = x" using index_pos_spec [OF Some] by (simp_all add: n_def)
        from replace_element [OF S a(2,3) l(1) n(1), of v] obtain h1 y h2 h4 where
          4: "DecrRefCount x (heap s) = Some h1" "CreateCutisObject (OString (Some v)) h1 = (y, h2)"
            "store_ptr a (OList (l[n := y])) (s\<lparr>heap := h2\<rparr>) = Some (s\<lparr>heap := h4\<rparr>)" "serving {#} c (s\<lparr>heap := h4\<rparr>)"
            "keyspace (s\<lparr>heap := h4\<rparr>) = ks_put (c_db c) k (VList (xs[n := v])) (keyspace s)"
            "pending c (s\<lparr>heap := h4\<rparr>) = pending c s" unfolding n(2) l(2) by blast
        have "LSetCommand c s =
            do { (c, s) \<leftarrow> reply_shared sh_ok (take_arg 3 c) (s\<lparr>heap := h4\<rparr>); Some (c, s\<lparr>dirty := dirty s + 1\<rparr>) }"
          using a l(1) assms(3-5) Some 4(1-3)
          by (simp add: LSetCommand_def list_index_def decr_def create_def n_def)
        moreover have "does c s (ks_put (c_db c) k (VList (xs[n := v])) (keyspace s)) (''+OK'' @ crlf) 1 \<dots>"
          using does_then_dirty [of "take_arg 3 c" "s\<lparr>heap := h4\<rparr>" _ c s 0] 4(4-6) S(2) by simp
        moreover have "index_pos xs ?t = n" "index_spec xs ?t = Some (obj_str (heap s) x)"
          using Some l(2) by (simp_all add: index_pos_def n_def index_spec_map)
        ultimately show ?thesis using key VList by simp
      qed
    qed (use Some a does_sds [OF S] assms(3-5) in \<open>auto simp: LSetCommand_def\<close>)
  qed
qed

end
