(* ===== verification/Set_Commands.thy ===== *)
theory Set_Commands
  imports List_Commands
begin

text \<open>
  What the commands on sets do to the databases and what they answer: \<open>SADD\<close>, \<open>SREM\<close>, \<open>SISMEMBER\<close>,
  \<open>SCARD\<close>, \<open>SINTER\<close> (and \<open>SMEMBERS\<close>, which is \<open>SINTER\<close> of one set).
\<close>

declare One_nat_def [simp del]

section \<open>The table of a set\<close>

definition members_of :: "heap \<Rightarrow> (addr, unit) Dict \<Rightarrow> string set" where
  "members_of h d = obj_str h ` fst ` set (entries d)"

abbreviation table_ok :: "heap \<Rightarrow> (addr, unit) Dict \<Rightarrow> bool" where
  "table_ok h d \<equiv> dict_ok (set_type h) (obj_str h) d"

lemma set_ok_iff: "set_ok (objs h) d \<longleftrightarrow> table_ok h d"
  unfolding set_ok_def by (rule dict_ok_cong) simp

lemma members_of_map: "dom (dict_map (obj_str h) d) = members_of h d"
  by (auto simp: dict_map_def members_of_def dom_map_of_conv_image_fst image_image split_def)

lemma members_card:
  assumes "table_ok h d"
  shows "unat (d_used d) = card (members_of h d)" and "uint (d_used d) = int (card (members_of h d))"
proof -
  have e: "members_of h d = set (map (obj_str h \<circ> fst) (entries d))" by (auto simp: members_of_def)
  have "unat (d_used d) = length (map (obj_str h \<circ> fst) (entries d))" using dict_ok_tableD(2) [OF assms] by simp
  also have "\<dots> = card (members_of h d)" unfolding e using distinct_card [OF dict_ok_tableD(3) [OF assms]] by simp
  finally show u: "unat (d_used d) = card (members_of h d)" .
  have "uint (d_used d) = int (unat (d_used d))" by simp
  then show "uint (d_used d) = int (card (members_of h d))" unfolding u .
qed

lemma members_find:
  assumes "table_ok h d"
  shows "\<exists>r. DictFind (set_type h) x d = Some r \<and> (r = None \<longleftrightarrow> obj_str h x \<notin> members_of h d)"
proof -
  from members.DictFind_ok [OF assms, of x] obtain r where
    r: "DictFind (set_type h) x d = Some r" "map_option snd r = dict_map (obj_str h) d (obj_str h x)" by blast
  then have "r = None \<longleftrightarrow> obj_str h x \<notin> dom (dict_map (obj_str h) d)" by (cases r) (auto simp: dom_def)
  then show ?thesis using r(1) by (simp add: members_of_map)
qed

lemma set_value: "ptr_value h (OSet d) = VSet (members_of h d)"
  by (simp add: members_of_def)

text \<open>The set of a key.\<close>

lemma set_at_key:
  assumes "serving X c s" and "keyspace s i k = Some (VSet A)"
  shows "\<exists>a o' d. addr_map s i k = Some a \<and> objs (heap s) a = Some o' \<and> optr o' = OSet d \<and>
    ptr_at s a = Some (OSet d) \<and> table_ok (heap s) d \<and> members_of (heap s) d = A \<and>
    (\<forall>x \<in> fst ` set (entries d). is_string (objs (heap s)) x)"
proof -
  from at_key [OF assms] obtain a o' where a: "addr_map s i k = Some a" "objs (heap s) a = Some o'"
    "ptr_at s a = Some (optr o')" "ptr_value (heap s) (optr o') = VSet A" by blast
  then obtain d where d: "optr o' = OSet d" "members_of (heap s) d = A" by (auto simp: members_of_def)
  have "wf_ptr (objs (heap s)) (OSet d)" using live_wf [OF servingD(1) [OF assms(1)] a(2)] d(1) by simp
  then show ?thesis using a d by (auto simp: set_ok_iff)
qed

section \<open>The borrowed argument\<close>

lemma drop_borrowed_ok:
  assumes "serving (add_mset x X) c s" and "objs (heap s) x = Some \<lparr>optr = OString v, refcount = 1\<rparr>"
  shows "\<exists>h. drop_borrowed x s = Some (s\<lparr>heap := h\<rparr>) \<and> serving X c (s\<lparr>heap := h\<rparr>) \<and>
    keyspace (s\<lparr>heap := h\<rparr>) = keyspace s \<and> pending c (s\<lparr>heap := h\<rparr>) = pending c s"
proof -
  have "drop_borrowed x s = decr x s"
    using assms(2)
    by (simp add: drop_borrowed_def store_ptr_def set_ptr_def decr_def DecrRefCount_def numeral_2_eq_2 Let_def)
  with decr_ok [OF assms(1)] show ?thesis by metis
qed

lemma shared_not_new:
  assumes "a \<notin># all_refs X c s" and "b \<in> set (shared_refs (shared s))"
  shows "b \<noteq> a"
  using assms shared_in [OF assms(2)] by metis

lemma reply_shared_objs:
  assumes "reply_shared f c s = Some (c', s')" and "f (shared s) \<noteq> x"
  shows "objs (heap s') x = objs (heap s) x"
  using assms by (auto simp: reply_shared_def AddReply_def IncrRefCount_def Let_def bind_eq_Some_conv)

section \<open>Membership and cardinality\<close>

definition sismember_reply :: "string \<Rightarrow> cvalue option \<Rightarrow> string" where
  "sismember_reply v r =
     (case r of Some (VSet A) \<Rightarrow> (if v \<in> A then ''1'' else ''0'') @ crlf | _ \<Rightarrow> ''-1'' @ crlf)"

lemma SIsMemberCommand_does:
  assumes "server_ok c s" and "arg 1 c = Some k" and "arg 2 c = Some v"
  shows "does c s (keyspace s) (sismember_reply v (keyspace s (c_db c) k)) 0 (SIsMemberCommand c s)"
proof -
  note S = server_okD [OF assms(1)]
  show ?thesis
  proof (cases "keyspace s (c_db c) k")
    case None
    then show ?thesis using find_none(1) [OF S(1) assms(2) None] assms(3) does_sds [OF S]
      by (simp add: SIsMemberCommand_def sismember_reply_def)
  next
    case (Some w)
    from find_some [OF S(1) assms(2) Some] obtain a o' where
      a: "find_key c s = Some (Some (k, a))" "addr_map s (c_db c) k = Some a" "objs (heap s) a = Some o'"
        "ptr_at s a = Some (optr o')" "ptr_value (heap s) (optr o') = w" "w \<noteq> VNull" by auto
    show ?thesis
    proof (cases w)
      case (VSet A)
      obtain x s1 where cr: "create (OString (Some v)) s = (x, s1)" by force
      note C = create_value [OF S(1) cr, simplified]
      have "keyspace s1 (c_db c) k = Some (VSet A)" using C(2) Some VSet by simp
      from set_at_key [OF C(1) this] obtain o1 d where
        d: "objs (heap s1) a = Some o1" "optr o1 = OSet d" "table_ok (heap s1) d" "members_of (heap s1) d = A"
        using C(3) a(2) by auto
      have xa: "x \<noteq> a" using C(8) [of "c_db c" k] a(2) by auto
      then have p: "optr o' = OSet d" using d(1,2) C(10) a(3) by simp
      have xv: "obj_str (heap s1) x = v" using C(10) by (simp add: obj_str_def)
      from members_find [OF d(3), of x] obtain r where
        r: "DictFind (set_type (heap s1)) x d = Some r" "r = None \<longleftrightarrow> v \<notin> A" using xv d(4) by auto
      define f :: "SharedObject \<Rightarrow> addr" where "f = (if r = None then sh_zero else sh_one)"
      define t where "t = (if r = None then ''0'' else ''1'') @ crlf"
      have ft: "obj_value (heap s1) (f (shared s1)) = VString t" "f (shared s1) \<in> set (shared_refs (shared s1))"
        using shared_texts(5,6) [OF C(1)] by (simp_all add: f_def t_def shared_refs_def)
      note hk = servingD(1) [OF C(1)]
      from reply_shared_said [where f = f, OF said_refl [OF hk, of c] hk ft(1)] obtain c2 s2 where
        2: "reply_shared f c s1 = Some (c2, s2)" "said (all_refs {#x#} c s1) c s1 t c2 s2" by auto
      note R = said_serving [OF C(1) 2(2)]
      have "f (shared s1) \<noteq> x" using shared_not_new [OF C(13)] ft(2) C(11) by auto
      then have x2: "objs (heap s2) x = Some \<lparr>optr = OString (Some v), refcount = 1\<rparr>"
        using reply_shared_objs [OF 2(1)] C(10) by simp
      from drop_borrowed_ok [of x "{#}" c2 s2] R x2 obtain h where
        h: "drop_borrowed x s2 = Some (s2\<lparr>heap := h\<rparr>)" "serving {#} c2 (s2\<lparr>heap := h\<rparr>)"
          "keyspace (s2\<lparr>heap := h\<rparr>) = keyspace s2" "pending c2 (s2\<lparr>heap := h\<rparr>) = pending c2 s2" by blast
      have "db_inj s2" using R S(2) C(3) by (simp add: db_inj_def)
      then have "does c s (keyspace s) t 0 (Some (c2, s2\<lparr>heap := h\<rparr>))"
        using h R C by (simp add: does_def server_ok_def)
      moreover have "SIsMemberCommand c s = Some (c2, s2\<lparr>heap := h\<rparr>)"
        using a p cr r(1) 2(1) h(1) assms(3) by (simp add: SIsMemberCommand_def f_def)
      moreover have "sismember_reply v (keyspace s (c_db c) k) = t"
        using Some VSet r(2) by (simp add: sismember_reply_def t_def)
      ultimately show ?thesis by simp
    qed (use Some a assms(3) does_sds [OF S] in \<open>auto simp: SIsMemberCommand_def sismember_reply_def\<close>)
  qed
qed

definition scard_reply :: "cvalue option \<Rightarrow> string" where
  "scard_reply r =
     (case r of
        None \<Rightarrow> ''0'' @ crlf
      | Some (VSet A) \<Rightarrow> num_line (as_int (int (card A)))
      | Some _ \<Rightarrow> ''-1'' @ crlf)"

lemma SCardCommand_does:
  assumes "server_ok c s" and "arg 1 c = Some k"
  shows "does c s (keyspace s) (scard_reply (keyspace s (c_db c) k)) 0 (SCardCommand c s)"
proof -
  note S = server_okD [OF assms(1)]
  show ?thesis
  proof (cases "keyspace s (c_db c) k")
    case None
    then show ?thesis using find_none(1) [OF S(1) assms(2) None]
        does_shared [where f = sh_zero, OF S shared_texts(5) [OF S(1)]]
      by (simp add: SCardCommand_def scard_reply_def)
  next
    case (Some w)
    from find_some [OF S(1) assms(2) Some] obtain a o' where
      a: "find_key c s = Some (Some (k, a))" "addr_map s (c_db c) k = Some a" "objs (heap s) a = Some o'"
        "ptr_at s a = Some (optr o')" "ptr_value (heap s) (optr o') = w" "w \<noteq> VNull" by auto
    show ?thesis
    proof (cases w)
      case (VSet A)
      from set_at_key [OF S(1), of "c_db c" k A] Some VSet a(2,3) obtain d where
        d: "optr o' = OSet d" "table_ok (heap s) d" "members_of (heap s) d = A" by auto
      then show ?thesis using Some VSet a members_card(2) [OF d(2)] does_sds [OF S]
        by (simp add: SCardCommand_def scard_reply_def)
    qed (use Some a does_sds [OF S] in \<open>auto simp: SCardCommand_def scard_reply_def\<close>)
  qed
qed

section \<open>Adding\<close>

lemma set_add_ok:
  assumes "serving {#x#} c s" and "db_inj s" and "keyspace s i k = Some (VSet A)" and "addr_map s i k = Some a"
    and "card A < 2 ^ 27" and "objs (heap s) x = Some \<lparr>optr = OString (Some v), refcount = 1\<rparr>"
  shows "\<exists>h. set_add a x s = Some (if v \<in> A then DICT_ERR else DICT_OK, s\<lparr>heap := h\<rparr>) \<and>
    serving (if v \<in> A then {#x#} else {#}) c (s\<lparr>heap := h\<rparr>) \<and>
    keyspace (s\<lparr>heap := h\<rparr>) = ks_put i k (VSet (insert v A)) (keyspace s) \<and>
    pending c (s\<lparr>heap := h\<rparr>) = pending c s"
proof -
  from set_at_key [OF assms(1,3)] assms(4) obtain o' d where
    d: "objs (heap s) a = Some o'" "optr o' = OSet d" "ptr_at s a = Some (OSet d)" "table_ok (heap s) d"
      "members_of (heap s) d = A" "\<forall>x \<in> fst ` set (entries d). is_string (objs (heap s)) x" by auto
  have xv: "obj_str (heap s) x = v" "is_string (objs (heap s)) x"
    using assms(6) by (simp_all add: obj_str_def is_string_def)
  have room: "unat (d_used d) < 2 ^ 27" using members_card(1) [OF d(4)] d(5) assms(5) by simp
  from members.DictAdd_ok [OF d(4) room, of x "()"] obtain d' r where
    d': "DictAdd (set_type (heap s)) x () d = Some (r, d')" "table_ok (heap s) d'"
      "if v \<in> A then r = DICT_ERR \<and> mset (entries d') = mset (entries d)
       else r = DICT_OK \<and> mset (entries d') = add_mset (x, ()) (mset (entries d))"
    using xv(1) d(5) by (auto simp: members_of_map DictSetHashKey_def DictSetHashVal_def SetDictType_def)
  have keys: "mset (map fst (entries d')) =
    (if v \<in> A then mset (map fst (entries d)) else add_mset x (mset (map fst (entries d))))"
    using arg_cong [of "mset (entries d')" _ "image_mset fst"] d'(3) by (auto split: if_splits)
  then have kset: "fst ` set (entries d') = (if v \<in> A then fst ` set (entries d) else insert x (fst ` set (entries d)))"
    by (metis list.set_map set_mset_add_mset_insert set_mset_mset)
  have mem: "members_of (heap s) d' = insert v A"
    using kset d(5) xv(1) by (auto simp: members_of_def split: if_splits)
  have wf: "wf_ptr (objs (heap s)) (OSet d')"
    using d'(2) kset d(6) xv(2) by (auto simp: set_ok_iff split: if_splits)
  define Q where "Q = (if v \<in> A then {#x#} else {#})"
  have r: "{#x#} + refs_of (optr o') = Q + refs_of (OSet d')"
    using keys d(2) by (simp add: Q_def)
  have sv: "serving ({#x#} + {#}) c s" using assms(1) by simp
  from mutate_ok [OF sv assms(2,4) d(1) _ wf _ r] d(2) obtain h where
    "store_ptr a (OSet d') s = Some (s\<lparr>heap := h\<rparr>)" "serving Q c (s\<lparr>heap := h\<rparr>)"
    "keyspace (s\<lparr>heap := h\<rparr>) = ks_put i k (VSet (insert v A)) (keyspace s)"
    "pending c (s\<lparr>heap := h\<rparr>) = pending c s"
    using mem by (auto simp: set_value simp del: ptr_value.simps)
  then show ?thesis using d'(1,3) d(3) by (auto simp: set_add_def Q_def)
qed

lemma does_trans:
  assumes "does c1 s1 K txt n r" and "pending c1 s1 = pending c s" and "dirty s1 = dirty s"
  shows "does c s K txt n r"
  using assms by (simp add: does_def)

text \<open>The part of \<open>SADD\<close> after the set is at hand.\<close>

definition add_member :: "addr \<Rightarrow> cmd" where
  "add_member a c s =
     do { v \<leftarrow> arg 2 c;
          let (x, s) = create (OString (Some v)) s;
          (ret, s) \<leftarrow> set_add a x s;
          s \<leftarrow> (if ret = DICT_OK then Some (s\<lparr>dirty := dirty s + 1\<rparr>) else decr x s);
          reply_shared sh_ok (take_arg 2 c) s }"

lemma add_member_does:
  assumes "serving {#} c s" and "db_inj s" and "keyspace s i k = Some (VSet A)" and "addr_map s i k = Some a"
    and "card A < 2 ^ 27" and "arg 2 c = Some v"
  shows "does c s (ks_put i k (VSet (insert v A)) (keyspace s)) (''+OK'' @ crlf) (if v \<in> A then 0 else 1)
    (add_member a c s)"
proof -
  obtain x s1 where cr: "create (OString (Some v)) s = (x, s1)" by force
  note C = create_value [OF assms(1) cr, simplified]
  have k1: "keyspace s1 i k = Some (VSet A)" and a1: "addr_map s1 i k = Some a" using C(2,3) assms(3,4) by simp_all
  from set_add_ok [OF C(1) C(6) [OF assms(2)] k1 a1 assms(5) C(10) [THEN arg_cong [where f = "\<lambda>M. M x"], simplified]]
  obtain h where
    h: "set_add a x s1 = Some (if v \<in> A then DICT_ERR else DICT_OK, s1\<lparr>heap := h\<rparr>)"
      "serving (if v \<in> A then {#x#} else {#}) c (s1\<lparr>heap := h\<rparr>)"
      "keyspace (s1\<lparr>heap := h\<rparr>) = ks_put i k (VSet (insert v A)) (keyspace s1)"
      "pending c (s1\<lparr>heap := h\<rparr>) = pending c s1" by blast
  show ?thesis
  proof (cases "v \<in> A")
    case True
    then have "serving {#x#} c (s1\<lparr>heap := h\<rparr>)" using h(2) by simp
    from decr_ok [OF this] obtain h2 where
      2: "decr x (s1\<lparr>heap := h\<rparr>) = Some (s1\<lparr>heap := h2\<rparr>)" "serving {#} c (s1\<lparr>heap := h2\<rparr>)"
        "keyspace (s1\<lparr>heap := h2\<rparr>) = keyspace (s1\<lparr>heap := h\<rparr>)"
        "pending c (s1\<lparr>heap := h2\<rparr>) = pending c (s1\<lparr>heap := h\<rparr>)" by auto
    have "does c s (ks_put i k (VSet (insert v A)) (keyspace s)) (''+OK'' @ crlf) 0
        (reply_shared sh_ok (take_arg 2 c) (s1\<lparr>heap := h2\<rparr>))"
      by (rule does_shared) (use 2 h C assms(2) shared_texts(2) [OF 2(2)] in simp_all)
    then show ?thesis using True h(1) 2(1) cr assms(6) by (simp add: add_member_def DICT_OK_def DICT_ERR_def)
  next
    case False
    then have sv: "serving {#} c (s1\<lparr>heap := h\<rparr>)" using h(2) by simp
    have "does c s (ks_put i k (VSet (insert v A)) (keyspace s)) (''+OK'' @ crlf) 1
        (reply_shared sh_ok (take_arg 2 c) (s1\<lparr>heap := h, dirty := dirty s1 + 1\<rparr>))"
      by (rule does_shared) (use sv h C assms(2) shared_texts(2) [OF sv] in simp_all)
    then show ?thesis using False h(1) cr assms(6) by (simp add: add_member_def)
  qed
qed

lemma SAddCommand_split:
  "SAddCommand c s =
     do { de \<leftarrow> find_key c s;
          case de of
            None \<Rightarrow>
              do { let (o', s) = create (OSet DictCreate) s;
                   k \<leftarrow> arg 1 c;
                   (_, s) \<leftarrow> db_add k o' (c_db c) s;
                   add_member o' (take_arg 1 c) s }
          | Some (_, o') \<Rightarrow>
              do { p \<leftarrow> ptr_at s o';
                   case p of
                     OSet d \<Rightarrow> add_member o' c s
                   | _ \<Rightarrow> AddReplySds (err_line ''SADD against key not holding a set value'') c s } }"
  by (cases "find_key c s")
    (auto simp: SAddCommand_def add_member_def Let_def bind_eq_None_conv split: option.splits optr.splits prod.splits
      bind_splits)

lemma SAddCommand_does:
  assumes "server_ok c s" and "keyspace s (c_db c) k = None \<Longrightarrow> room (c_db c) s" and "arg 1 c = Some k" and "arg 2 c = Some v"
    and "\<And>A. keyspace s (c_db c) k = Some (VSet A) \<Longrightarrow> card A < 2 ^ 27"
  shows "case keyspace s (c_db c) k of
      None \<Rightarrow> does c s (ks_put (c_db c) k (VSet {v}) (keyspace s)) (''+OK'' @ crlf) 1 (SAddCommand c s)
    | Some (VSet A) \<Rightarrow> does c s (ks_put (c_db c) k (VSet (insert v A)) (keyspace s)) (''+OK'' @ crlf)
        (if v \<in> A then 0 else 1) (SAddCommand c s)
    | Some _ \<Rightarrow> does c s (keyspace s) (err_line ''SADD against key not holding a set value'') 0 (SAddCommand c s)"
proof -
  note S = server_okD [OF assms(1)]
  show ?thesis
  proof (cases "keyspace s (c_db c) k")
    case None
    obtain a s1 where cr: "create (OSet DictCreate) s = (a, s1)" by force
    have wf: "wf_ptr (objs (heap s)) (OSet DictCreate)" by (simp add: set_ok_iff DictCreate_def)
    note C = create_value [OF S(1) cr _ wf, simplified DictCreate_def refs_of.simps entries_reset]
    have val: "obj_value (heap s1) a = VSet {}" using C(7) by (simp add: DictCreate_def)
    have sv: "serving {#a#} c s1" "room (c_db c) s1" using C(1,9) assms(2) [OF None] by (simp_all add: DictCreate_def)
    from assign_ok [OF sv val, of k] obtain s2 where
      2: "db_add k a (c_db c) s1 = Some (DICT_OK, s2)" "serving {#} c s2"
        "addr_map s2 = (addr_map s1)(c_db c := (addr_map s1 (c_db c))(k \<mapsto> a))"
        "keyspace s2 = ks_put (c_db c) k (VSet {}) (keyspace s1)" "pending c s2 = pending c s1" "dirty s2 = dirty s1"
      using find_none(2) [OF S(1) assms(3) None] C(3) by (auto simp: DictCreate_def split: if_splits)
    have inj: "db_inj s2" by (rule assign_inj [OF _ _ 2(3)]) (use C S(2) in \<open>simp_all add: DictCreate_def\<close>)
    have k2: "keyspace s2 (c_db c) k = Some (VSet {})" unfolding 2(4) by (simp add: ks_put_def)
    have "does (take_arg 1 c) s2 (ks_put (c_db c) k (VSet (insert v {})) (keyspace s2)) (''+OK'' @ crlf) 1
      (add_member a (take_arg 1 c) s2)"
      using add_member_does [of "take_arg 1 c" s2 "c_db c" k "{}" a v] 2(2,3) inj k2 assms(4) by simp
    then have "does c s (ks_put (c_db c) k (VSet {v}) (keyspace s)) (''+OK'' @ crlf) 1
      (add_member a (take_arg 1 c) s2)"
      using 2(4-6) C by (auto simp: ks_put_put DictCreate_def intro: does_trans)
    moreover have "find_key c s = Some None" by (rule find_none [OF S(1) assms(3) None])
    ultimately show ?thesis using None cr 2(1) assms(3) by (simp add: SAddCommand_split)
  next
    case (Some w)
    from find_some [OF S(1) assms(3) Some] obtain a o' where
      a: "find_key c s = Some (Some (k, a))" "addr_map s (c_db c) k = Some a" "objs (heap s) a = Some o'"
        "ptr_at s a = Some (optr o')" "ptr_value (heap s) (optr o') = w" "w \<noteq> VNull" by auto
    show ?thesis
    proof (cases w)
      case (VSet A)
      have "keyspace s (c_db c) k = Some (VSet A)" using Some VSet by simp
      note add = add_member_does [OF S this a(2) assms(5) [OF this] assms(4)]
      obtain d where "optr o' = OSet d" using a(5) VSet by auto
      then show ?thesis using add a(1,4) Some VSet by (simp add: SAddCommand_split)
    qed (use Some a does_sds [OF S] in \<open>auto simp: SAddCommand_split\<close>)
  qed
qed

section \<open>Removing\<close>

text \<open>
  The member goes out of the table and is released while the set still points to the old table;
  only then is the table stored back.
\<close>

lemma set_type_frees [simp]: "DictFreeEntryKey (set_type h) y = DecrRefCount y" "DictFreeEntryVal (set_type h) u = Some"
  by (simp_all add: fun_eq_iff DictFreeEntryKey_def DictFreeEntryVal_def SetDictType_def)

text \<open>The entry with the member is found; what is left is a set without it.\<close>

lemma set_entry_gone:
  assumes "table_ok h d" and "members_of h d = A" and "v \<in> A" and "obj_str h x = v"
    and "\<forall>x \<in> fst ` set (entries d). is_string (objs h) x"
  shows "\<exists>d' y. DictDelete (set_type h) x d h = map_option (\<lambda>h. (DICT_OK, d', h)) (DecrRefCount y h) \<and>
    wf_ptr (objs h) (OSet d') \<and> members_of h d' = A - {v} \<and> is_string (objs h) y \<and>
    refs_of (OSet d) = add_mset y (refs_of (OSet d'))"
proof -
  note D = members.DictGenericDelete_ok [OF assms(1), of x False h, unfolded assms(4)]
  obtain u where "dict_map (obj_str h) d v = Some u" using assms(2,3) members_of_map by blast
  with D obtain d' y where
    y: "DictGenericDelete (set_type h) x False d h = map_option (\<lambda>h. (DICT_OK, d', h)) (DecrRefCount y h)"
      "table_ok h d'" "obj_str h y = v" "mset (entries d) = add_mset (y, ()) (mset (entries d'))"
    by auto
  have keys: "mset (map fst (entries d)) = add_mset y (mset (map fst (entries d')))"
    using arg_cong [OF y(4), of "image_mset fst"] by simp
  have kset: "fst ` set (entries d) = insert y (fst ` set (entries d'))"
    using arg_cong [OF keys, of set_mset] by simp
  have "dict_map (obj_str h) d' = (dict_map (obj_str h) d)(obj_str h y := None)"
    by (rule dict_map_uncons [OF y(4) dict_ok_tableD(3) [OF assms(1)]])
  then have "members_of h d' = A - {v}" using assms(2) y(3) by (auto simp: members_of_map [symmetric])
  moreover have "wf_ptr (objs h) (OSet d')" using y(2) kset assms(5) by (simp add: set_ok_iff)
  moreover have "is_string (objs h) y" using kset assms(5) by simp
  ultimately show ?thesis using y(1) keys by (intro exI [of _ d'] exI [of _ y]) (simp add: DictDelete_def)
qed

lemma set_delete_ok:
  assumes "serving X c s" and "db_inj s" and "keyspace s i k = Some (VSet A)" and "addr_map s i k = Some a"
    and "ptr_at s a = Some (OSet d)" and "obj_str (heap s) x = v"
  shows "\<exists>d' h1 h. DictDelete (set_type (heap s)) x d (heap s) = Some (if v \<in> A then DICT_OK else DICT_ERR, d', h1) \<and>
    store_ptr a (OSet d') (s\<lparr>heap := h1\<rparr>) = Some (s\<lparr>heap := h\<rparr>) \<and> serving X c (s\<lparr>heap := h\<rparr>) \<and>
    keyspace (s\<lparr>heap := h\<rparr>) = ks_put i k (VSet (A - {v})) (keyspace s) \<and>
    pending c (s\<lparr>heap := h\<rparr>) = pending c s \<and>
    (\<forall>y. (\<exists>b o'. objs (heap s) b = Some o' \<and> y \<in># refs_of (optr o')) \<or> y = a \<or> objs h y = objs (heap s) y)"
proof -
  from set_at_key [OF assms(1,3)] assms(4,5) obtain o' where
    d: "objs (heap s) a = Some o'" "optr o' = OSet d" "table_ok (heap s) d"
      "members_of (heap s) d = A" "\<forall>x \<in> fst ` set (entries d). is_string (objs (heap s)) x" by auto
  show ?thesis
  proof (cases "v \<in> A")
    case False
    then have "v \<notin> dom (dict_map (obj_str (heap s)) d)" using d(4) by (simp add: members_of_map)
    then have "dict_map (obj_str (heap s)) d v = None" by blast
    then have "DictDelete (set_type (heap s)) x d (heap s) = Some (DICT_ERR, d, heap s)"
      using members.DictGenericDelete_ok [OF d(3), of x False "heap s", unfolded assms(6)] by (simp add: DictDelete_def)
    moreover have "o'\<lparr>optr := OSet d\<rparr> = o'" using d(2) by simp
    then have "store_ptr a (OSet d) s = Some s" using d(1) by (simp add: store_ptr_def set_ptr_def fun_upd_idem)
    moreover have "ks_put i k (VSet (A - {v})) (keyspace s) = keyspace s"
      using False assms(3) by (simp add: ks_put_same)
    ultimately show ?thesis using False assms(1) by (intro exI [of _ d] exI [of _ "heap s"]) simp
  next
    case True
    from set_entry_gone [OF d(3,4) True assms(6) d(5)] obtain d' y where
      y: "DictDelete (set_type (heap s)) x d (heap s) = map_option (\<lambda>h. (DICT_OK, d', h)) (DecrRefCount y (heap s))"
        "wf_ptr (objs (heap s)) (OSet d')" "members_of (heap s) d' = A - {v}" "is_string (objs (heap s)) y"
        "refs_of (OSet d) = add_mset y (refs_of (OSet d'))" by blast
    note r = y(5) [folded d(2)]
    from decr_store_ok [OF assms(1,2,4) d(1) _ y(2) _ r] d(2) y(3) obtain h1 h where
      h: "DecrRefCount y (heap s) = Some h1" "h = h1\<lparr>objs := (objs h1)(a \<mapsto> o'\<lparr>optr := OSet d'\<rparr>)\<rparr>"
        "objs h1 a = Some o'" "serving X c (s\<lparr>heap := h\<rparr>)"
        "keyspace (s\<lparr>heap := h\<rparr>) = ks_put i k (VSet (A - {v})) (keyspace s)" "pending c (s\<lparr>heap := h\<rparr>) = pending c s"
      by (auto simp: set_value simp del: ptr_value.simps)
    from y(4) obtain oy w where oy: "objs (heap s) y = Some oy" "optr oy = OString w" by (auto simp: is_string_def)
    have "y \<in># refs_of (optr o')" using r by simp
    then have "(\<exists>b o'. objs (heap s) b = Some o' \<and> z \<in># refs_of (optr o')) \<or> z = a \<or> objs h z = objs (heap s) z" for z
      using h(1,2) decr_string_eq [OF oy] d(1) by (cases "z = y") (auto split: if_splits)
    moreover have "store_ptr a (OSet d') (s\<lparr>heap := h1\<rparr>) = Some (s\<lparr>heap := h\<rparr>)"
      using h(2,3) by (simp add: store_ptr_def set_ptr_def)
    ultimately show ?thesis using True h y(1) by (intro exI [of _ d'] exI [of _ h1] exI [of _ h]) simp
  qed
qed

text \<open>No container holds an object that was just created.\<close>

lemma created_loose:
  assumes "serving X c s" and "create p s = (x, s1)" and "refs_of p = {#}"
  shows "\<not> (\<exists>b o'. objs (heap s1) b = Some o' \<and> x \<in># refs_of (optr o'))"
proof
  obtain h where h: "CreateCutisObject p (heap s) = (x, h)" "s1 = s\<lparr>heap := h\<rparr>"
    using assms(2) by (auto simp: create_def split: prod.splits)
  have "free_ok (heap s)" using servingD(1) [OF assms(1)] by (simp add: heap_ok_def)
  note F = Create_fresh [OF this h(1)]
  assume "\<exists>b o'. objs (heap s1) b = Some o' \<and> x \<in># refs_of (optr o')"
  then obtain b ob where b: "objs (heap s1) b = Some ob" "x \<in># refs_of (optr ob)" by blast
  then have "b \<noteq> x" using F h(2) assms(3) by auto
  then have "objs (heap s) b = Some ob" using b(1) F h(2) by simp
  from live_inner [OF servingD(1) [OF assms(1)] this b(2)] F show False by auto
qed

text \<open>The member is looked up by an object made for that, which goes away again.\<close>

lemma remove_member:
  assumes "serving {#} c s" and "db_inj s" and "keyspace s i k = Some (VSet A)" and "addr_map s i k = Some a"
    and "ptr_at s a = Some (OSet d)" and "create (OString (Some v)) s = (x, s1)"
    and "m = (if v \<in> A then dirty s1 + 1 else dirty s1)"
  shows "\<exists>d' h1 h h2. DictDelete (set_type (heap s1)) x d (heap s1) = Some (if v \<in> A then DICT_OK else DICT_ERR, d', h1) \<and>
    store_ptr a (OSet d') (s1\<lparr>heap := h1\<rparr>) = Some (s1\<lparr>heap := h\<rparr>) \<and>
    drop_borrowed x (s1\<lparr>heap := h, dirty := m\<rparr>) = Some (s1\<lparr>dirty := m, heap := h2\<rparr>) \<and>
    serving {#} c (s1\<lparr>dirty := m, heap := h2\<rparr>) \<and>
    keyspace (s1\<lparr>dirty := m, heap := h2\<rparr>) = ks_put i k (VSet (A - {v})) (keyspace s) \<and>
    pending c (s1\<lparr>dirty := m, heap := h2\<rparr>) = pending c s"
proof -
  note C = create_value [OF assms(1,6), simplified]
  have x1: "objs (heap s1) x = Some \<lparr>optr = OString (Some v), refcount = 1\<rparr>" using C(10) by simp
  have xa: "x \<noteq> a" using C(8) [of i k] assms(4) by auto
  have s1: "keyspace s1 i k = Some (VSet A)" "addr_map s1 i k = Some a" "ptr_at s1 a = Some (OSet d)" "obj_str (heap s1) x = v"
    using C(2,3,10) assms(3-5) xa by (simp_all add: ptr_at_def obj_str_def)
  from set_delete_ok [OF C(1) C(6) [OF assms(2)] s1] created_loose [OF assms(1,6)] xa obtain d' h1 h where
    h: "DictDelete (set_type (heap s1)) x d (heap s1) = Some (if v \<in> A then DICT_OK else DICT_ERR, d', h1)"
      "store_ptr a (OSet d') (s1\<lparr>heap := h1\<rparr>) = Some (s1\<lparr>heap := h\<rparr>)" "serving {#x#} c (s1\<lparr>heap := h\<rparr>)"
      "keyspace (s1\<lparr>heap := h\<rparr>) = ks_put i k (VSet (A - {v})) (keyspace s1)"
      "pending c (s1\<lparr>heap := h\<rparr>) = pending c s1" "objs h x = objs (heap s1) x" by (metis refs_of.simps(1))
  let ?s2 = "s1\<lparr>heap := h, dirty := m\<rparr>"
  have "serving {#x#} c ?s2" "objs (heap ?s2) x = Some \<lparr>optr = OString (Some v), refcount = 1\<rparr>" using h(3,6) x1 by simp_all
  from drop_borrowed_ok [OF this] obtain h2 where
    "drop_borrowed x ?s2 = Some (s1\<lparr>dirty := m, heap := h2\<rparr>)" "serving {#} c (s1\<lparr>dirty := m, heap := h2\<rparr>)"
    "keyspace (s1\<lparr>dirty := m, heap := h2\<rparr>) = ks_put i k (VSet (A - {v})) (keyspace s1)"
    "pending c (s1\<lparr>dirty := m, heap := h2\<rparr>) = pending c s1"
    using h(4,5) by auto
  then show ?thesis using h(1,2) C(2,4) by auto
qed

lemma SRemCommand_does:
  assumes "server_ok c s" and "arg 1 c = Some k" and "arg 2 c = Some v"
  shows "case keyspace s (c_db c) k of
      None \<Rightarrow> does c s (keyspace s) (err_line ''no such key'') 0 (SRemCommand c s)
    | Some (VSet A) \<Rightarrow> does c s (ks_put (c_db c) k (VSet (A - {v})) (keyspace s)) (''+OK'' @ crlf)
        (if v \<in> A then 1 else 0) (SRemCommand c s)
    | Some _ \<Rightarrow> does c s (keyspace s) (err_line ''SREM against key not holding a set value'') 0 (SRemCommand c s)"
proof -
  note S = server_okD [OF assms(1)]
  show ?thesis
  proof (cases "keyspace s (c_db c) k")
    case None
    then show ?thesis using find_none(1) [OF S(1) assms(2) None] does_sds [OF S] by (simp add: SRemCommand_def)
  next
    case (Some w)
    from find_some [OF S(1) assms(2) Some] obtain a o' where
      a: "find_key c s = Some (Some (k, a))" "addr_map s (c_db c) k = Some a" "objs (heap s) a = Some o'"
        "ptr_at s a = Some (optr o')" "ptr_value (heap s) (optr o') = w" "w \<noteq> VNull" by auto
    show ?thesis
    proof (cases w)
      case (VSet A)
      then obtain d where p: "optr o' = OSet d" using a(5) by auto
      obtain x s1 where cr: "create (OString (Some v)) s = (x, s1)" by force
      note C = create_value [OF S(1) cr, simplified]
      define m where "m = (if v \<in> A then dirty s1 + 1 else dirty s1)"
      from remove_member [OF S Some [unfolded VSet] a(2) a(4) [unfolded p] cr m_def] obtain d' h1 h h2 where
        h: "DictDelete (set_type (heap s1)) x d (heap s1) = Some (if v \<in> A then DICT_OK else DICT_ERR, d', h1)"
          "store_ptr a (OSet d') (s1\<lparr>heap := h1\<rparr>) = Some (s1\<lparr>heap := h\<rparr>)"
          "drop_borrowed x (s1\<lparr>heap := h, dirty := m\<rparr>) = Some (s1\<lparr>dirty := m, heap := h2\<rparr>)"
          "serving {#} c (s1\<lparr>dirty := m, heap := h2\<rparr>)"
          "keyspace (s1\<lparr>dirty := m, heap := h2\<rparr>) = ks_put (c_db c) k (VSet (A - {v})) (keyspace s)"
          "pending c (s1\<lparr>dirty := m, heap := h2\<rparr>) = pending c s" by blast
      have "does c s (ks_put (c_db c) k (VSet (A - {v})) (keyspace s)) (''+OK'' @ crlf)
          (if v \<in> A then 1 else 0) (reply_shared sh_ok c (s1\<lparr>dirty := m, heap := h2\<rparr>))"
        by (rule does_shared) (use h(4-6) C S(2) shared_texts(2) [OF h(4)] in \<open>simp_all add: m_def\<close>)
      moreover have "SRemCommand c s = reply_shared sh_ok c (s1\<lparr>dirty := m, heap := h2\<rparr>)"
        using a(1,4) p cr h(1-3) assms(3)
        by (cases "v \<in> A") (simp_all add: SRemCommand_def m_def DICT_OK_def DICT_ERR_def)
      ultimately show ?thesis using Some VSet by simp
    qed (use Some a does_sds [OF S] in \<open>auto simp: SRemCommand_def\<close>)
  qed
qed

section \<open>Intersection\<close>

lemma db_find_ok:
  assumes "serving X c s"
  shows "DictFind sdsDictType k (dict s ! c_db c) = Some (map_option (Pair k) (addr_map s (c_db c) k))"
    and "db_of c s = Some (dict s ! c_db c)"
proof -
  let ?c = "c\<lparr>argv := [None, Some k]\<rparr>"
  have "serving X ?c s" "arg 1 ?c = Some k" using assms by (simp_all add: arg_def One_nat_def)
  from find_key_ok [OF this] servingD(4) [OF assms]
  show "DictFind sdsDictType k (dict s ! c_db c) = Some (map_option (Pair k) (addr_map s (c_db c) k))"
    by (simp add: find_key_def db_of_def arg_def One_nat_def)
  show "db_of c s = Some (dict s ! c_db c)" using servingD(4) [OF assms] by (simp add: db_of_def)
qed

fun set_of :: "cvalue option \<Rightarrow> string set" where
  "set_of (Some (VSet A)) = A"
| "set_of _ = {}"

definition good_table :: "heap \<Rightarrow> (addr, unit) Dict \<Rightarrow> bool" where
  "good_table h d \<longleftrightarrow> table_ok h d \<and> (\<forall>x \<in> fst ` set (entries d). is_string (objs h) x)"

text \<open>
  What the array of \<open>SINTER\<close> ends up with: the tables of the named sets, or that one name is missing.
  A name of something else makes the code go on with the array it has freed.
\<close>

fun named_sets ::
  "CutisServer \<Rightarrow> (string, addr) Dict \<Rightarrow> string option list \<Rightarrow> (addr, unit) Dict list option option"
where
  "named_sets s d [] = Some (Some [])"
| "named_sets s d (k # ks) =
     do { k \<leftarrow> k;
          de \<leftarrow> DictFind sdsDictType k d;
          case de of
            None \<Rightarrow> Some None
          | Some (_, o') \<Rightarrow>
              do { p \<leftarrow> ptr_at s o';
                   case p of
                     OSet st \<Rightarrow> do { r \<leftarrow> named_sets s d ks; Some (map_option ((#) st) r) }
                   | _ \<Rightarrow> None } }"

abbreviation slots :: "(addr, unit) Dict list \<Rightarrow> optr option list" where
  "slots ds \<equiv> map (\<lambda>d. Some (OSet d)) ds"

lemma put_slot_freed: "not_a_set dv c s \<bind> (\<lambda>(dv, c, s). ptr_at s a \<bind> (\<lambda>p. put_slot j p dv \<bind> f c s)) = None"
  by (auto simp: not_a_set_def free_table_def put_slot_def split: prod.splits bind_splits)

lemma sinter_sets_named:
  assumes "j + length ks \<le> length xs"
  shows "sinter_sets d ks j (Some xs) c s =
    (case named_sets s d ks of
       None \<Rightarrow> None
     | Some None \<Rightarrow> AddReplySds (err_bulk ''No such key'') c s \<bind> (\<lambda>cs. Some (Inl cs))
     | Some (Some ds) \<Rightarrow> Some (Inr (Some (take j xs @ slots ds @ drop (j + length ks) xs), c, s)))"
  using assms
proof (induction ks arbitrary: j xs)
  case (Cons k ks)
  have put: "put_slot j (OSet st) (Some xs) = Some (Some (xs[j := Some (OSet st)]))" for st
    using Cons.prems by (simp add: put_slot_def)
  have upd: "take (Suc j) (xs[j := x]) = take j xs @ [x]" "drop (Suc (j + length ks)) (xs[j := x]) = drop (Suc (j + length ks)) xs" for x
    using Cons.prems by (simp_all add: take_Suc_conv_app_nth)
  have IH: "sinter_sets d ks (Suc j) (Some (xs[j := x])) c s =
    (case named_sets s d ks of
       None \<Rightarrow> None
     | Some None \<Rightarrow> AddReplySds (err_bulk ''No such key'') c s \<bind> (\<lambda>cs. Some (Inl cs))
     | Some (Some ds) \<Rightarrow> Some (Inr (Some (take j xs @ x # slots ds @ drop (Suc (j + length ks)) xs), c, s)))" for x
    using Cons.IH [of "Suc j" "xs[j := x]"] Cons.prems by (simp add: upd cong: option.case_cong)
  show ?case
  proof (cases "k \<bind> (\<lambda>k. DictFind sdsDictType k d)")
    case None
    then show ?thesis by (cases k) simp_all
  next
    case (Some de)
    then obtain k' where k: "k = Some k'" "DictFind sdsDictType k' d = Some de" by (cases k) auto
    show ?thesis
    proof (cases de)
      case None
      then show ?thesis using k by (simp add: free_table_def)
    next
      case (Some e)
      then obtain k2 a where e: "de = Some (k2, a)" by (cases e) auto
      show ?thesis
      proof (cases "ptr_at s a")
        case None
        then show ?thesis using k e by simp
      next
        case (Some p)
        then show ?thesis using k e put IH put_slot_freed [where a = a and j = j and dv = "Some xs" and c = c and s = s]
          by (cases p) (auto split: option.splits)
      qed
    qed
  qed
qed simp

lemma sets_in_slots: "sets_in (Some (slots ds)) = Some ds"
proof -
  have "mapM (\<lambda>x. case x of Some (OSet d) \<Rightarrow> Some d | _ \<Rightarrow> None) (slots ds) = Some ds" by (induction ds) simp_all
  then show ?thesis by (simp add: sets_in_def)
qed

lemma SInterCommand_eq:
  "SInterCommand c s =
     do { d \<leftarrow> db_of c s;
          r \<leftarrow> named_sets s d (drop 1 (argv c));
          case r of
            None \<Rightarrow> AddReplySds (err_bulk ''No such key'') c s
          | Some dv \<Rightarrow>
              (case sort_key cardinality dv of
                 [] \<Rightarrow> None
               | smallest # others \<Rightarrow>
                   do { let (lenobj, s) = create (OString None) s;
                        (c, s) \<leftarrow> AddReply lenobj c s;
                        s \<leftarrow> decr lenobj s;
                        es \<leftarrow> dict_iterate smallest;
                        ((c, s), n) \<leftarrow> foldM (sinter_step others) es ((c, s), 0);
                        s \<leftarrow> store_ptr lenobj (OString (Some (num_line n))) s;
                        Some (c, s) }) }"
proof (cases "db_of c s")
  case (Some d)
  have named: "sinter_sets d (drop 1 (argv c)) 0 (Some (replicate (argc c - 1) None)) c s =
    (case named_sets s d (drop 1 (argv c)) of
       None \<Rightarrow> None
     | Some None \<Rightarrow> AddReplySds (err_bulk ''No such key'') c s \<bind> (\<lambda>cs. Some (Inl cs))
     | Some (Some ds) \<Rightarrow> Some (Inr (Some (slots ds), c, s)))"
    by (subst sinter_sets_named) (auto split: option.splits)
  show ?thesis unfolding SInterCommand_def Some bind.bind_lunit named
    by (auto simp: sets_in_slots free_table_def Let_def split: option.splits list.splits prod.splits)
qed (simp add: SInterCommand_def)

lemma sinter_sets_ok:
  assumes "serving X c s" and "\<forall>k \<in> set ks. \<exists>A. keyspace s (c_db c) k = Some (VSet A)"
  shows "\<exists>ds. named_sets s (dict s ! c_db c) (map Some ks) = Some (Some ds) \<and>
    map (members_of (heap s)) ds = map (\<lambda>k. set_of (keyspace s (c_db c) k)) ks \<and>
    (\<forall>d \<in> set ds. good_table (heap s) d)"
  using assms(2)
proof (induction ks)
  case Nil
  then show ?case by simp
next
  case (Cons k ks)
  then obtain A where A: "keyspace s (c_db c) k = Some (VSet A)" by auto
  from set_at_key [OF assms(1) A] obtain a o' d where
    d: "addr_map s (c_db c) k = Some a" "ptr_at s a = Some (OSet d)" "good_table (heap s) d"
      "members_of (heap s) d = A" by (auto simp: good_table_def)
  from Cons obtain ds where "named_sets s (dict s ! c_db c) (map Some ks) = Some (Some ds)"
    "map (members_of (heap s)) ds = map (\<lambda>k. set_of (keyspace s (c_db c) k)) ks"
    "\<forall>d \<in> set ds. good_table (heap s) d" by auto
  then show ?case using d A db_find_ok(1) [OF assms(1), of k] by (intro exI [of _ "d # ds"]) simp
qed

lemma sinter_sets_missing:
  assumes "serving X c s" and "\<forall>k \<in> set ks. \<exists>A. keyspace s (c_db c) k = Some (VSet A)"
    and "keyspace s (c_db c) m = None"
  shows "named_sets s (dict s ! c_db c) (map Some (ks @ m # ms)) = Some None"
  using assms(2)
proof (induction ks)
  case Nil
  have "addr_map s (c_db c) m = None" using assms(3) by (simp add: keyspace_def)
  then show ?case using db_find_ok(1) [OF assms(1), of m] by simp
next
  case (Cons k ks)
  then obtain A where A: "keyspace s (c_db c) k = Some (VSet A)" by auto
  from set_at_key [OF assms(1) A] obtain a o' d where "addr_map s (c_db c) k = Some a" "ptr_at s a = Some (OSet d)" by auto
  then show ?case using Cons db_find_ok(1) [OF assms(1), of k] by simp
qed

text \<open>A key that holds no set: the code goes on with memory it has freed.\<close>

lemma sinter_sets_wrong:
  assumes "serving X c s" and "\<forall>k \<in> set ks. \<exists>A. keyspace s (c_db c) k = Some (VSet A)"
    and "keyspace s (c_db c) m = Some v" and "\<And>A. v \<noteq> VSet A"
  shows "named_sets s (dict s ! c_db c) (map Some (ks @ m # ms)) = None"
  using assms(2)
proof (induction ks)
  case Nil
  from at_key [OF assms(1,3)] obtain a o' where
    "addr_map s (c_db c) m = Some a" "objs (heap s) a = Some o'" "ptr_at s a = Some (optr o')"
    "ptr_value (heap s) (optr o') = v" by blast
  then show ?case using db_find_ok(1) [OF assms(1), of m] assms(4) by (cases "optr o'") (auto simp: members_of_def)
next
  case (Cons k ks)
  then obtain A where A: "keyspace s (c_db c) k = Some (VSet A)" by auto
  from set_at_key [OF assms(1) A] obtain a o' d where "addr_map s (c_db c) k = Some a" "ptr_at s a = Some (OSet d)" by auto
  then show ?case using Cons db_find_ok(1) [OF assms(1), of k] by simp
qed

lemma keeps_table:
  assumes "keeps h' h" and "good_table h d"
  shows "table_ok h' d" and "members_of h' d = members_of h d"
proof -
  have s: "obj_str h' x = obj_str h x" if "x \<in> fst ` set (entries d)" for x
  proof -
    from assms(2) that obtain o' where "objs h x = Some o'" by (auto simp: good_table_def is_string_def)
    from keeps_str [OF assms(1) this] show ?thesis by simp
  qed
  have "table_ok h' d = table_ok h d" by (rule dict_ok_cong) (use s in simp)
  then show "table_ok h' d" using assms(2) by (simp add: good_table_def)
  show "members_of h' d = members_of h d" unfolding members_of_def by (rule image_cong) (use s in simp_all)
qed

lemma in_all_ok:
  assumes "\<forall>d \<in> set ds. table_ok (heap s) d"
  shows "in_all s x ds = Some (\<forall>d \<in> set ds. obj_str (heap s) x \<in> members_of (heap s) d)"
  using assms
proof (induction ds)
  case Nil
  then show ?case by simp
next
  case (Cons d ds)
  from members_find [of "heap s" d x] Cons.prems obtain r where
    "DictFind (set_type (heap s)) x d = Some r" "r = None \<longleftrightarrow> obj_str (heap s) x \<notin> members_of (heap s) d" by auto
  then show ?case using Cons by (cases r) auto
qed

lemma sinter_loop:
  assumes "said R c0 s0 t c1 s1" and "heap_ok R (heap s0)"
    and "obj_value (heap s0) (sh_crlf (shared s0)) = VString crlf" and "\<forall>d \<in> set others. good_table (heap s0) d"
    and "\<forall>e \<in> set es. is_string (objs (heap s0)) (fst e)"
    and "ms = filter (\<lambda>m. \<forall>d \<in> set others. m \<in> members_of (heap s0) d) (map (obj_str (heap s0) \<circ> fst) es)"
  shows "\<exists>c2 s2. foldM (sinter_step others) es ((c1, s1), n) = Some ((c2, s2), n + int (length ms)) \<and>
    said R c0 s0 (t @ concat (map bulk ms)) c2 s2"
  using assms(1,5,6)
proof (induction es arbitrary: t c1 s1 n ms)
  case Nil
  then show ?case by simp
next
  case (Cons e es)
  let ?m = "obj_str (heap s0) (fst e)"
  let ?hit = "\<forall>d \<in> set others. ?m \<in> members_of (heap s0) d"
  have k: "keeps (heap s1) (heap s0)" by (rule said_keeps [OF Cons.prems(1)])
  have str: "is_string (objs (heap s0)) (fst e)" using Cons.prems(2) by simp
  have "obj_str (heap s1) (fst e) = ?m"
    using str keeps_str [OF k] by (auto simp: is_string_def)
  then have hit: "in_all s1 (fst e) others = Some ?hit"
    using in_all_ok [of others s1 "fst e"] keeps_table [OF k] assms(4) by simp
  show ?case
  proof (cases ?hit)
    case False
    then have "sinter_step others e ((c1, s1), n) = Some ((c1, s1), n)" using hit by (auto simp: sinter_step_def)
    moreover have ms: "ms = filter (\<lambda>m. \<forall>d \<in> set others. m \<in> members_of (heap s0) d) (map (obj_str (heap s0) \<circ> fst) es)"
      using Cons.prems(3) False by (auto simp: comp_def)
    ultimately show ?thesis using Cons.IH [OF Cons.prems(1) _ ms, of n] Cons.prems(2) by simp
  next
    case True
    from bulk_said [OF Cons.prems(1) assms(2,3) string_value [OF str]] obtain c2 s2 where
      2: "reply_bulk (fst e) c1 s1 = Some (c2, s2)" "said R c0 s0 (t @ bulk ?m) c2 s2" by blast
    define ms' where "ms' = filter (\<lambda>m. \<forall>d \<in> set others. m \<in> members_of (heap s0) d) (map (obj_str (heap s0) \<circ> fst) es)"
    have ms: "ms = ?m # ms'" using Cons.prems(3) True by (simp add: ms'_def comp_def)
    have "sinter_step others e ((c1, s1), n) = Some ((c2, s2), n + 1)" using hit True 2(1) by (simp add: sinter_step_def)
    moreover from Cons.IH [OF 2(2) _ ms'_def, of "n + 1"] Cons.prems(2) obtain c3 s3 where
      "foldM (sinter_step others) es ((c2, s2), n + 1) = Some ((c3, s3), n + 1 + int (length ms'))"
      "said R c0 s0 ((t @ bulk ?m) @ concat (map bulk ms')) c3 s3" by auto
    ultimately show ?thesis using ms by (simp add: ac_simps)
  qed
qed

text \<open>The placeholder for the number of replies: created without a string, sent, filled in at the end.\<close>

lemma placeholder_ok:
  assumes "serving {#} c s"
  shows "\<exists>a c1 s1 s2 s3. create (OString None) s = (a, s1) \<and> AddReply a c s1 = Some (c1, s2) \<and>
    decr a s2 = Some s3 \<and> c1 = c\<lparr>reply := reply c @ [a]\<rparr> \<and> (\<exists>h e. s3 = s\<lparr>heap := h, el := e\<rparr>) \<and>
    heap_ok (add_mset a (all_refs {#} c s)) (heap s3) \<and> keeps (heap s3) (heap s) \<and> a \<notin># all_refs {#} c s \<and>
    (\<exists>o'. objs (heap s3) a = Some o' \<and> optr o' = OString None)"
proof -
  obtain a h1 where cr: "CreateCutisObject (OString None) (heap s) = (a, h1)" by force
  let ?R = "all_refs {#} c s"
  note hk = servingD(1) [OF assms]
  from Create_value [OF hk cr] CreateCutisObject_ok [of "OString None" ?R "heap s" a h1] hk cr have
    1: "heap_ok (add_mset a ?R) h1" "a \<notin># ?R" "objs h1 = (objs (heap s))(a \<mapsto> \<lparr>optr = OString None, refcount = 1\<rparr>)"
      "objs (heap s) a = None" by simp_all
  let ?s1 = "s\<lparr>heap := h1\<rparr>"
  have a1: "objs (heap ?s1) a = Some \<lparr>optr = OString None, refcount = 1\<rparr>" using 1(3) by simp
  from AddReply_ok [OF _ a1, of "add_mset a ?R" c] 1(1) obtain h2 e where
    2: "AddReply a c ?s1 = Some (c\<lparr>reply := reply c @ [a]\<rparr>, ?s1\<lparr>heap := h2, el := e\<rparr>)"
      "heap_ok (add_mset a (add_mset a ?R)) h2" "keeps h2 h1" by auto
  from store.decr_law [OF 2(2)] obtain h3 where
    3: "DecrRefCount a h2 = Some h3" "heap_ok (add_mset a ?R) h3" by blast
  have k: "keeps h3 h1" using decr_kept [OF 2(2) _ 3(1)] 2(3) by (auto intro: keeps_trans)
  have "keeps h1 (heap s)" using 1(3,4) by (auto simp: keeps_def)
  with k have "keeps h3 (heap s)" by (rule keeps_trans)
  moreover from k a1 obtain o' where "objs h3 a = Some o'" "optr o' = OString None"
    unfolding keeps_def by fastforce
  ultimately show ?thesis using cr 1(2) 2(1) 3
    by (intro exI [of _ a] exI [of _ "c\<lparr>reply := reply c @ [a]\<rparr>"] exI [of _ ?s1] exI [of _ "?s1\<lparr>heap := h2, el := e\<rparr>"]
        exI [of _ "s\<lparr>heap := h3, el := e\<rparr>"]) (auto simp: create_def decr_def)
qed

lemma fill_ok:
  assumes "server_ok c s" and "c1 = c\<lparr>reply := reply c @ [a]\<rparr>" and "s3 = s\<lparr>heap := h3, el := e3\<rparr>"
    and "keeps h3 (heap s)" and "a \<notin># all_refs {#} c s" and "objs h3 a = Some o'" and "optr o' = OString None"
    and "said (add_mset a (all_refs {#} c s)) c1 s3 t c4 s4" and "heap_ok (add_mset a (all_refs {#} c s)) h3"
  shows "\<exists>s5. store_ptr a (OString (Some v)) s4 = Some s5 \<and> does c s (keyspace s) (v @ t) 0 (Some (c4, s5))"
proof -
  note S = server_okD [OF assms(1)]
  note hk = servingD(1) [OF S(1)]
  from assms(8) obtain as h4 e4 where
    4: "c4 = c1\<lparr>reply := reply c1 @ as\<rparr>" "s4 = s3\<lparr>heap := h4, el := e4\<rparr>"
      "heap_ok (mset as + add_mset a (all_refs {#} c s)) h4" "keeps h4 h3"
      "\<forall>b \<in> set as. \<exists>t. obj_value h4 b = VString t" "concat (map (text_of \<circ> obj_value h4) as) = t"
    unfolding said_def assms(3) by auto
  from 4(4) assms(6,7) obtain o4 where o4: "objs h4 a = Some o4" "optr o4 = OString None"
    unfolding keeps_def by metis
  have na: "a \<notin># inner (objs h4)" by (rule container_not_inner [OF 4(3) o4(1)]) (simp add: o4(2))
  let ?h = "h4\<lparr>objs := (objs h4)(a \<mapsto> o4\<lparr>optr := OString (Some v)\<rparr>)\<rparr>"
  let ?R = "mset as + add_mset a (all_refs {#} c s)"
  have "heap_ok ({#} + ?R) ?h"
    by (rule heap_ok_mutate [of "{#}"]) (use 4(3) o4 na in simp_all)
  then have hk5: "heap_ok (all_refs (mset (a # as)) c s) ?h" by (simp add: all_refs_def ac_simps)
  note V = mutate_value [OF 4(3) o4(1) na _ refl, of "OString (Some v)", simplified]
  have val: "obj_value ?h b = obj_value (heap s) b" if "b \<in># all_refs {#} c s" for b
  proof -
    from live [OF hk that] obtain ob where ob: "objs (heap s) b = Some ob" ..
    then obtain ob3 where "objs h3 b = Some ob3" using assms(4) by (auto simp: keeps_def)
    moreover have "b \<noteq> a" using that assms(5) by blast
    ultimately show ?thesis
      using V(2) kept_value [OF assms(4) hk ob] kept_value [OF 4(4) assms(9)] by simp
  qed
  note W = serving_values [OF S(1) hk5, OF ballI [OF val]]
  have str: "\<exists>t. obj_value ?h b = VString t \<and> text_of (obj_value ?h b) = text_of (obj_value h4 b)" if "b \<in> set as" for b
  proof -
    from 4(5) that obtain tb where tb: "obj_value h4 b = VString tb" by blast
    then have "b \<noteq> a" using o4 by (auto simp: obj_value_def)
    then show ?thesis using tb V(2) by simp
  qed
  have tt: "concat (map (text_of \<circ> obj_value ?h) as) = t"
  proof -
    have "map (text_of \<circ> obj_value ?h) as = map (text_of \<circ> obj_value h4) as" using str by auto
    then show ?thesis using 4(6) by metis
  qed
  let ?s5 = "s\<lparr>heap := ?h, el := e4\<rparr>"
  have c4: "c4 = c\<lparr>reply := reply c @ a # as\<rparr>" using 4(1) assms(2) by simp
  have "all_refs {#} c4 ?s5 = all_refs (mset (a # as)) c (s\<lparr>heap := ?h\<rparr>)"
    by (simp add: c4 all_refs_def ac_simps)
  moreover have "\<exists>t. obj_value ?h b = VString t" if "b \<in># mset (reply c4) + waiting s" for b
  proof -
    have "b \<in># mset (reply c) + waiting s \<or> b = a \<or> b \<in> set as" using that c4 by auto
    then show ?thesis using W(1) str V(1) by (auto simp: serving_def)
  qed
  ultimately have "serving {#} c4 ?s5" using W(1) unfolding serving_def by (simp add: c4)
  moreover have "pending c4 ?s5 = pending c s @ v @ t" using W(3) V(1) tt by (simp add: pending_def c4)
  ultimately have "does c s (keyspace s) (v @ t) 0 (Some (c4, ?s5))"
    using W(2) S(2) by (simp add: does_def server_ok_def)
  moreover have "store_ptr a (OString (Some v)) s4 = Some ?s5"
    using 4(2) o4(1) assms(3) by (simp add: store_ptr_def set_ptr_def)
  ultimately show ?thesis by blast
qed

lemma SInterCommand_does:
  assumes "server_ok c s" and "drop 1 (argv c) = map Some ks" and "ks \<noteq> []"
    and "\<forall>k \<in> set ks. \<exists>A. keyspace s (c_db c) k = Some (VSet A)"
  shows "\<exists>ms. distinct ms \<and> set ms = (\<Inter>k \<in> set ks. set_of (keyspace s (c_db c) k)) \<and>
    does c s (keyspace s) (num_line (int (length ms)) @ concat (map bulk ms)) 0 (SInterCommand c s)"
proof -
  note S = server_okD [OF assms(1)]
  note hk = servingD(1) [OF S(1)]
  from sinter_sets_ok [OF S(1) assms(4)] obtain ds where
    ds: "named_sets s (dict s ! c_db c) (map Some ks) = Some (Some ds)"
      "map (members_of (heap s)) ds = map (\<lambda>k. set_of (keyspace s (c_db c) k)) ks"
      "\<forall>d \<in> set ds. good_table (heap s) d" by blast
  have "ds \<noteq> []" using arg_cong [OF ds(2), of length] assms(3) by auto
  then obtain d0 others where so: "sort_key cardinality ds = d0 # others"
    by (metis length_0_conv length_sort neq_Nil_conv)
  then have sd: "set ds = insert d0 (set others)" by (metis list.set(2) set_sort)
  from placeholder_ok [OF S(1)] obtain a c1 s1 s2 s3 h3 e3 o' where
    p: "create (OString None) s = (a, s1)" "AddReply a c s1 = Some (c1, s2)" "decr a s2 = Some s3"
      "c1 = c\<lparr>reply := reply c @ [a]\<rparr>" "s3 = s\<lparr>heap := h3, el := e3\<rparr>"
      "heap_ok (add_mset a (all_refs {#} c s)) h3" "keeps h3 (heap s)" "a \<notin># all_refs {#} c s"
      "objs h3 a = Some o'" "optr o' = OString None" by force
  have gt: "good_table (heap s3) d \<and> members_of (heap s3) d = members_of (heap s) d" if "d \<in> set ds" for d
  proof -
    have g: "good_table (heap s) d" using ds(3) that by blast
    moreover have "\<forall>x \<in> fst ` set (entries d). is_string (objs h3) x"
      using g p(7) by (fastforce simp: good_table_def is_string_def keeps_def)
    ultimately show ?thesis using keeps_table [OF p(7) g] by (simp add: good_table_def p(5))
  qed
  have it: "dict_iterate d0 = Some (entries d0)"
    using gt [of d0] sd by (auto simp: good_table_def intro: dict_iterate_ok)
  have crl: "obj_value (heap s3) (sh_crlf (shared s3)) = VString crlf"
  proof -
    have v: "obj_value (heap s) (sh_crlf (shared s)) = VString crlf" by (rule shared_texts(1) [OF S(1)])
    then obtain oc where "objs (heap s) (sh_crlf (shared s)) = Some oc" using value_live by fastforce
    from kept_value [OF p(7) hk this] v p(5) show ?thesis by simp
  qed
  define ms where "ms = filter (\<lambda>m. \<forall>d \<in> set others. m \<in> members_of (heap s3) d) (map (obj_str (heap s3) \<circ> fst) (entries d0))"
  have R3: "heap_ok (add_mset a (all_refs {#} c s)) (heap s3)" using p(5,6) by simp
  from sinter_loop [OF said_refl [OF R3, of c1] R3 crl _ _ ms_def, of 0] gt sd obtain c4 s4 where
    4: "foldM (sinter_step others) (entries d0) ((c1, s3), 0) = Some ((c4, s4), int (length ms))"
      "said (add_mset a (all_refs {#} c s)) c1 s3 (concat (map bulk ms)) c4 s4"
    by (auto simp: good_table_def)
  from fill_ok [OF assms(1) p(4,5,7-10) 4(2) p(6), of "num_line (int (length ms))"] obtain s5 where
    5: "store_ptr a (OString (Some (num_line (int (length ms))))) s4 = Some s5"
      "does c s (keyspace s) (num_line (int (length ms)) @ concat (map bulk ms)) 0 (Some (c4, s5))" by blast
  have "SInterCommand c s = Some (c4, s5)"
    using db_find_ok(2) [OF S(1)] assms(2) ds(1) so p(1-3) it 4(1) 5(1) by (simp add: SInterCommand_eq)
  moreover have "distinct ms"
    using gt [of d0] sd dict_ok_tableD(3) [of "set_type (heap s3)" "obj_str (heap s3)" d0]
    by (simp add: ms_def good_table_def distinct_filter)
  moreover have "set ms = (\<Inter>k \<in> set ks. set_of (keyspace s (c_db c) k))"
  proof -
    have "set ms = {m \<in> members_of (heap s3) d0. \<forall>d \<in> set others. m \<in> members_of (heap s3) d}"
      by (auto simp: ms_def members_of_def)
    also have "\<dots> = (\<Inter>d \<in> set ds. members_of (heap s) d)" using gt sd by auto
    also have "\<dots> = \<Inter> (set (map (members_of (heap s)) ds))" by simp
    finally show ?thesis unfolding ds(2) by simp
  qed
  ultimately show ?thesis using 5(2) by metis
qed

lemma SInterCommand_missing:
  assumes "server_ok c s" and "drop 1 (argv c) = map Some (ks @ m # ms)" and "keyspace s (c_db c) m = None"
    and "\<forall>k \<in> set ks. \<exists>A. keyspace s (c_db c) k = Some (VSet A)"
  shows "does c s (keyspace s) (err_bulk ''No such key'') 0 (SInterCommand c s)"
  using sinter_sets_missing [OF server_okD(1) [OF assms(1)] assms(4,3), of ms] assms(2)
    db_find_ok(2) [OF server_okD(1) [OF assms(1)]] does_sds [OF server_okD [OF assms(1)]]
  by (simp add: SInterCommand_eq)

text \<open>
  The loop comes to a key that is no set with its array as allocated; the error goes out, the array is
  freed, and the next thing the code does is to write to it.
\<close>

lemma not_a_set_ok:
  assumes "server_ok c s"
  shows "\<exists>n c1 s1. not_a_set (Some dv) c s = Some (None, c1, s1) \<and>
    does c s (keyspace s) (num_line (-42) @ num_line n) 0 (Some (c1, s1))"
proof -
  note S = server_okD [OF assms]
  obtain n w where s0: "syscall s = (n, s\<lparr>world := w\<rparr>)" by (cases "sys_call (world s)") (simp add: syscall_def)
  let ?t = "num_line (-42) @ num_line (as_int n)"
  have r: "does c s (keyspace s) ?t 0 (AddReplySds ?t c (s\<lparr>world := w\<rparr>))"
    by (rule does_sds) (use S in simp_all)
  then obtain c1 s1 where cs: "AddReplySds ?t c (s\<lparr>world := w\<rparr>) = Some (c1, s1)" by (auto simp: does_def)
  have "not_a_set (Some dv) c s = Some (None, c1, s1)"
    using cs s0 by (simp add: not_a_set_def not_a_set_err_def free_table_def)
  with r cs show ?thesis by auto
qed

lemma SInterCommand_wrong:
  assumes "server_ok c s" and "drop 1 (argv c) = map Some (ks @ m # ms)" and "keyspace s (c_db c) m = Some v"
    and "\<And>A. v \<noteq> VSet A" and "\<forall>k \<in> set ks. \<exists>A. keyspace s (c_db c) k = Some (VSet A)"
  shows "SInterCommand c s = None \<and> (\<exists>dv n c1 s1.
    sinter_sets (dict s ! c_db c) (map Some ks) 0 (Some (replicate (argc c - 1) None)) c s = Some (Inr (Some dv, c, s)) \<and>
    not_a_set (Some dv) c s = Some (None, c1, s1) \<and>
    does c s (keyspace s) (num_line (-42) @ num_line n) 0 (Some (c1, s1)))"
proof -
  note S = server_okD(1) [OF assms(1)]
  from sinter_sets_ok [OF S assms(5)] obtain ds where
    ds: "named_sets s (dict s ! c_db c) (map Some ks) = Some (Some ds)" by blast
  have "argc c - 1 = length (ks @ m # ms)"
    using arg_cong [OF assms(2), of length] by simp
  then have "sinter_sets (dict s ! c_db c) (map Some ks) 0 (Some (replicate (argc c - 1) None)) c s =
      Some (Inr (Some (slots ds @ drop (length ks) (replicate (argc c - 1) None)), c, s))"
    by (subst sinter_sets_named) (simp_all add: ds)
  moreover have "SInterCommand c s = None"
    using sinter_sets_wrong [OF S assms(5,3,4), of ms] assms(2) db_find_ok(2) [OF S]
    by (simp add: SInterCommand_eq)
  ultimately show ?thesis using not_a_set_ok [OF assms(1)] by blast
qed

end
