(* ===== verification/Key_Commands.thy ===== *)
theory Key_Commands
  imports Set_Commands
begin

text \<open>
  What the commands on keys and databases do and answer: \<open>TYPE\<close>, \<open>SELECT\<close>, \<open>MOVE\<close>, \<open>RENAME\<close>,
  \<open>RENAMENX\<close>, \<open>KEYS\<close>, \<open>DBSIZE\<close>, \<open>RANDOMKEY\<close>, \<open>PING\<close>, \<open>ECHO\<close>, \<open>LASTSAVE\<close>.
\<close>

declare One_nat_def [simp del]

section \<open>Types and plain answers\<close>

fun type_name :: "cvalue option \<Rightarrow> string" where
  "type_name None = ''none''"
| "type_name (Some (VList _)) = ''list''"
| "type_name (Some (VSet _)) = ''set''"
| "type_name (Some _) = ''string''"

text \<open>A text, and the end of the line.\<close>

lemma does_line:
  assumes "serving {#} c1 s1" and "db_inj s1"
    and "keyspace s1 = K" and "pending c1 s1 = pending c s" and "dirty s1 = dirty s + n"
  shows "does c s K (t @ crlf) n (AddReplySds t c1 s1 \<bind> (\<lambda>(c, s). reply_shared sh_crlf c s))"
proof -
  note hk = servingD(1) [OF assms(1)]
  from said_sds [OF said_refl [OF hk, of c1], of t] obtain c2 s2 where
    2: "AddReplySds t c1 s1 = Some (c2, s2)" "said (all_refs {#} c1 s1) c1 s1 t c2 s2" by auto
  from reply_shared_said [where f = sh_crlf, OF 2(2) hk shared_texts(1) [OF assms(1)]] obtain c3 s3 where
    3: "reply_shared sh_crlf c2 s2 = Some (c3, s3)" "said (all_refs {#} c1 s1) c1 s1 (t @ crlf) c3 s3" by blast
  from does_said [OF assms(1,2) 3(2) assms(3-5)] 2(1) 3(1) show ?thesis by simp
qed

lemma TypeCommand_does:
  assumes "server_ok c s" and "arg 1 c = Some k"
  shows "does c s (keyspace s) (type_name (keyspace s (c_db c) k) @ crlf) 0 (TypeCommand c s)"
proof -
  note S = server_okD [OF assms(1)]
  show ?thesis
  proof (cases "keyspace s (c_db c) k")
    case None
    then show ?thesis using find_none(1) [OF S(1) assms(2) None] does_line [OF S, of "keyspace s" c s 0 "''none''"]
      by (simp add: TypeCommand_def)
  next
    case (Some w)
    from find_some [OF S(1) assms(2) Some] obtain a o' where
      a: "find_key c s = Some (Some (k, a))" "objs (heap s) a = Some o'"
        "ptr_at s a = Some (optr o')" "ptr_value (heap s) (optr o') = w" "w \<noteq> VNull" by auto
    then have "TypeCommand c s = AddReplySds (type_name (Some w)) c s \<bind> (\<lambda>(c, s). reply_shared sh_crlf c s)"
      by (cases w) (auto simp: TypeCommand_def)
    then show ?thesis using Some does_line [OF S, of "keyspace s" c s 0 "type_name (Some w)"] by simp
  qed
qed

lemma PingCommand_does: "server_ok c s \<Longrightarrow> does c s (keyspace s) (''+PONG'' @ crlf) 0 (PingCommand c s)"
  unfolding PingCommand_def
  by (rule does_shared) (simp_all add: server_okD shared_texts(7) [OF server_okD(1)])

lemma LastSaveCommand_does:
  "server_ok c s \<Longrightarrow> does c s (keyspace s) (num_line (last_save s)) 0 (LastSaveCommand c s)"
  unfolding LastSaveCommand_def by (rule does_sds) (simp_all add: server_ok_def)

lemma EchoCommand_does:
  assumes "server_ok c s" and "arg 1 c = Some v"
  shows "does c s (keyspace s) (bulk v) 0 (EchoCommand c s)"
proof -
  note S = server_okD [OF assms(1)]
  note hk = servingD(1) [OF S(1)]
  from said_sds [OF said_refl [OF hk, of c], of "num_line (as_int (int (length v)))"] obtain c1 s1 where
    1: "AddReplySds (num_line (as_int (int (length v)))) c s = Some (c1, s1)"
      "said (all_refs {#} c s) c s (num_line (as_int (int (length v)))) c1 s1" by auto
  from said_sds [OF 1(2), of v] obtain c2 s2 where
    2: "AddReplySds v c1 s1 = Some (c2, s2)"
      "said (all_refs {#} c s) c s (num_line (as_int (int (length v))) @ v) c2 s2" by auto
  from reply_shared_said [where f = sh_crlf, OF 2(2) hk shared_texts(1) [OF S(1)]] obtain c3 s3 where
    3: "reply_shared sh_crlf c2 s2 = Some (c3, s3)" "said (all_refs {#} c s) c s (bulk v) c3 s3"
    by (auto simp: bulk_def)
  from does_said [OF S 3(2) refl refl, of 0] have
    "does c s (keyspace s) (bulk v) 0 (Some (c3, s3))" by simp
  then have "does c s (keyspace s) (bulk v) 0 (Some (take_arg 1 c3, s3))"
    by (simp add: does_def server_ok_def)
  then show ?thesis using 1(1) 2(1) 3(1) assms(2) by (simp add: EchoCommand_def)
qed

lemma dbsize_card:
  assumes "serving X c s"
  shows "uint (d_used (dict s ! c_db c)) = int (card (dom (keyspace s (c_db c))))"
proof -
  let ?d = "dict s ! c_db c"
  note ok = dbs_okD [OF servingD(3,4) [OF assms]]
  have dom: "dom (keyspace s (c_db c)) = fst ` set (entries ?d)"
  proof -
    have "dom (keyspace s (c_db c)) = dom (addr_map s (c_db c))" by (auto simp: keyspace_def)
    then show ?thesis using servingD(4) [OF assms]
      by (simp add: addr_map_def dict_map_def dom_map_of_conv_image_fst image_image split_def)
  qed
  have "distinct (map fst (entries ?d))" using dict_ok_tableD(3) [OF ok] by (simp add: comp_def)
  from distinct_card [OF this] have "card (dom (keyspace s (c_db c))) = length (entries ?d)" by (simp add: dom)
  also have "\<dots> = unat (d_used ?d)" using dict_ok_tableD(2) [OF ok] by simp
  finally show ?thesis by simp
qed

lemma DbsizeCommand_does:
  assumes "server_ok c s"
  shows "does c s (keyspace s) (num_line (int (card (dom (keyspace s (c_db c)))))) 0 (DbsizeCommand c s)"
  using does_sds [OF server_okD [OF assms]] dbsize_card [OF server_okD(1) [OF assms]]
    db_find_ok(2) [OF server_okD(1) [OF assms]]
  by (simp add: DbsizeCommand_def)

lemma SelectCommand_does:
  assumes "server_ok c s" and "arg 1 c = Some t" and "i = atoi (cstr t)"
  shows "\<exists>c' s'. SelectCommand c s = Some (c', s') \<and>
    (if 0 \<le> i \<and> i < db_num s
     then does c s (keyspace s) (''+OK'' @ crlf) 0 (Some (c', s')) \<and> c_db c' = nat i
     else does c s (keyspace s) (err_line ''invalid DB index'') 0 (Some (c', s')) \<and> c_db c' = c_db c)"
proof (cases "0 \<le> i \<and> i < db_num s")
  case True
  note S = server_okD [OF assms(1)]
  let ?c = "c\<lparr>c_db := nat i\<rparr>"
  have sv: "serving {#} ?c s"
    using S(1) True servingD(3) [OF S(1)] by (simp add: serving_def all_refs_def dbs_ok_def nat_less_iff)
  note hk = servingD(1) [OF sv]
  from reply_shared_said [where f = sh_ok, OF said_refl [OF hk, of ?c] hk shared_texts(2) [OF sv]] obtain c2 s2 where
    2: "reply_shared sh_ok ?c s = Some (c2, s2)" "said (all_refs {#} ?c s) ?c s (''+OK'' @ crlf) c2 s2" by auto
  have "pending ?c s = pending c s" by (simp add: pending_def)
  from does_said [OF sv S(2) 2(2) refl this, of 0] said_serving [OF sv 2(2)] 2(1) True show ?thesis
    by (simp add: SelectCommand_def SelectDB_def assms(2) assms(3) [symmetric] CUTIS_OK_def CUTIS_ERR_def)
next
  case False
  note S = server_okD [OF assms(1)]
  from said_sds [OF said_refl [OF servingD(1) [OF S(1)], of c], of "err_line ''invalid DB index''"] obtain c2 s2 where
    2: "AddReplySds (err_line ''invalid DB index'') c s = Some (c2, s2)"
      "said (all_refs {#} c s) c s (err_line ''invalid DB index'') c2 s2" by auto
  from does_said [OF S 2(2) refl refl, of 0] said_serving [OF S(1) 2(2)] 2(1) False show ?thesis
    by (auto simp: SelectCommand_def SelectDB_def assms(2) assms(3) [symmetric] CUTIS_OK_def CUTIS_ERR_def)
qed

section \<open>Renaming\<close>

lemma incr_ok:
  assumes "serving X c s" and "a \<in># all_refs X c s"
  shows "\<exists>h. incr a s = Some (s\<lparr>heap := h\<rparr>) \<and> serving (add_mset a X) c (s\<lparr>heap := h\<rparr>) \<and>
    keyspace (s\<lparr>heap := h\<rparr>) = keyspace s \<and> pending c (s\<lparr>heap := h\<rparr>) = pending c s \<and>
    (\<forall>b \<in># all_refs X c s. obj_value h b = obj_value (heap s) b)"
proof -
  from store.incr_law [OF servingD(1) [OF assms(1)] assms(2)] obtain h where h: "IncrRefCount a (heap s) = Some h"
    "heap_ok (all_refs (add_mset a X) c s) h" "\<forall>b \<in># all_refs X c s. obj_value h b = obj_value (heap s) b"
    by (auto simp: all_refs_add)
  have "\<forall>b \<in># all_refs {#} c s. obj_value h b = obj_value (heap s) b" using h(3) by (simp add: all_refs_def)
  from serving_values [OF assms(1) h(2) this] h show ?thesis
    by (intro exI [of _ h]) (simp add: incr_def)
qed

text \<open>An object that leaves one key for another still has one key.\<close>

lemma db_inj_move:
  assumes "db_inj s" and "addr_map s i1 k1 = Some a"
    and "\<And>i k. addr_map s' i k =
      (if i = i1 \<and> k = k1 then None else if i = i2 \<and> k = k2 then Some a else addr_map s i k)"
  shows "db_inj s'"
proof -
  have old: "i = i1 \<and> k = k1" if "addr_map s i k = Some a" for i k
    using assms(1,2) that unfolding db_inj_def by blast
  have new: "i = i2 \<and> k = k2 \<longleftrightarrow> b = a" if "addr_map s' i k = Some b" for i k b
    using that old [of i k] unfolding assms(3) by (metis option.distinct(1) option.inject)
  have rest: "addr_map s i k = Some b" if "addr_map s' i k = Some b" "b \<noteq> a" for i k b
    using that unfolding assms(3) by (metis option.distinct(1) option.inject)
  show ?thesis unfolding db_inj_def
  proof (intro allI impI)
    fix i j k k' b
    assume b: "addr_map s' i k = Some b" "addr_map s' j k' = Some b"
    show "i = j \<and> k = k'"
    proof (cases "b = a")
      case True
      then show ?thesis using new [OF b(1)] new [OF b(2)] by simp
    next
      case False
      then show ?thesis using rest [OF b(1)] rest [OF b(2)] assms(1) unfolding db_inj_def by blast
    qed
  qed
qed

text \<open>The value gets a second reference, is bound to the new key, then the old key goes.\<close>

lemma rename_refused:
  assumes "serving {#a#} c s" and "db_inj s" and "room (c_db c) s" and "keyspace s (c_db c) k2 \<noteq> None"
  shows "\<exists>s2 h. db_add k2 a (c_db c) s = Some (DICT_ERR, s2) \<and> decr a s2 = Some (s2\<lparr>heap := h\<rparr>) \<and>
    serving {#} c (s2\<lparr>heap := h\<rparr>) \<and> db_inj (s2\<lparr>heap := h\<rparr>) \<and> keyspace (s2\<lparr>heap := h\<rparr>) = keyspace s \<and>
    pending c (s2\<lparr>heap := h\<rparr>) = pending c s \<and> dirty s2 = dirty s"
proof -
  have "addr_map s (c_db c) k2 \<noteq> None" using assms(4) by (auto simp: keyspace_def)
  from add_refused [OF assms(1,3) this, of a] obtain s2 where
    2: "db_add k2 a (c_db c) s = Some (DICT_ERR, s2)" "serving {#a#} c s2" "addr_map s2 = addr_map s"
      "keyspace s2 = keyspace s" "pending c s2 = pending c s" "dirty s2 = dirty s" by auto
  from decr_ok [OF 2(2)] obtain h where
    3: "decr a s2 = Some (s2\<lparr>heap := h\<rparr>)" "serving {#} c (s2\<lparr>heap := h\<rparr>)"
      "keyspace (s2\<lparr>heap := h\<rparr>) = keyspace s2" "pending c (s2\<lparr>heap := h\<rparr>) = pending c s2" by blast
  have "db_inj (s2\<lparr>heap := h\<rparr>)" using assms(2) 2(3) by (simp add: db_inj_def)
  with 2 3 show ?thesis by auto
qed

lemma rename_value:
  assumes "serving {#a#} c s" and "db_inj s" and "room (c_db c) s" and "k1 \<noteq> k2"
    and "addr_map s (c_db c) k1 = Some a" and "obj_value (heap s) a = v" and "v \<noteq> VNull"
  shows "\<exists>s0 s2 s3. db_add k2 a (c_db c) s = Some (if addr_map s (c_db c) k2 = None then DICT_OK else DICT_ERR, s0) \<and>
    (if addr_map s (c_db c) k2 = None then s2 = s0 else db_replace k2 a (c_db c) s0 = Some (DICT_OK, s2)) \<and>
    db_delete k1 (c_db c) s2 = Some (DICT_OK, s3) \<and> serving {#} c s3 \<and> db_inj s3 \<and>
    keyspace s3 = ks_del (c_db c) k1 (ks_put (c_db c) k2 v (keyspace s)) \<and>
    pending c s3 = pending c s \<and> dirty s3 = dirty s"
proof -
  let ?i = "c_db c"
  from assign_ok [OF assms(1,3) _ assms(7), of k2] assms(6) obtain s0 s2 where
    2: "db_add k2 a ?i s = Some (if addr_map s ?i k2 = None then DICT_OK else DICT_ERR, s0)"
      "if addr_map s ?i k2 = None then s2 = s0 else db_replace k2 a ?i s0 = Some (DICT_OK, s2)"
      "serving {#} c s2" "addr_map s2 = (addr_map s)(?i := (addr_map s ?i)(k2 \<mapsto> a))"
      "keyspace s2 = ks_put ?i k2 v (keyspace s)" "pending c s2 = pending c s" "dirty s2 = dirty s" by auto
  have i2: "?i < length (dict s2)" and k1: "addr_map s2 ?i k1 = Some a"
    using servingD(4) [OF 2(3)] 2(4) assms(4,5) by simp_all
  from unassign_ok [OF 2(3) i2 k1] obtain s3 where
    3: "db_delete k1 ?i s2 = Some (DICT_OK, s3)" "serving {#} c s3"
      "addr_map s3 = (addr_map s2)(?i := (addr_map s2 ?i)(k1 := None))"
      "keyspace s3 = ks_del ?i k1 (keyspace s2)" "pending c s3 = pending c s2" "dirty s3 = dirty s2" by blast
  have "db_inj s3" by (rule db_inj_move [OF assms(2,5), of s3 ?i k2]) (simp add: 3(3) 2(4) fun_upd_apply)
  with 2 3 show ?thesis by (intro exI [of _ s0] exI [of _ s2] exI [of _ s3]) simp
qed

lemma RenameGenericCommand_does:
  assumes "server_ok c s" and "room (c_db c) s" and "arg 1 c = Some k1" and "arg 2 c = Some k2"
  shows "if k1 = k2 then does c s (keyspace s) (err_line ''src and dest key are the same'') 0 (RenameGenericCommand nx c s)
    else case keyspace s (c_db c) k1 of
      None \<Rightarrow> does c s (keyspace s) (err_line ''no such key'') 0 (RenameGenericCommand nx c s)
    | Some v \<Rightarrow>
        if nx \<and> keyspace s (c_db c) k2 \<noteq> None
        then does c s (keyspace s) (err_line ''destination key exists'') 0 (RenameGenericCommand nx c s)
        else does c s (ks_del (c_db c) k1 (ks_put (c_db c) k2 v (keyspace s))) (''+OK'' @ crlf) 1
          (RenameGenericCommand nx c s)"
proof (cases "k1 = k2")
  case True
  then show ?thesis using does_sds [OF server_okD [OF assms(1)]] assms(3,4) by (simp add: RenameGenericCommand_def)
next
  case ne: False
  note S = server_okD [OF assms(1)]
  let ?i = "c_db c"
  show ?thesis
  proof (cases "keyspace s ?i k1")
    case None
    then show ?thesis using find_none(1) [OF S(1) assms(3) None] does_sds [OF S] ne assms(3,4)
      by (simp add: RenameGenericCommand_def)
  next
    case (Some v)
    from find_some [OF S(1) assms(3) Some] obtain a where
      a: "find_key c s = Some (Some (k1, a))" "addr_map s ?i k1 = Some a"
        "obj_value (heap s) a = v" "v \<noteq> VNull" "a \<in># all_refs {#} c s" by auto
    from incr_ok [OF S(1) a(5)] obtain h where
      h: "incr a s = Some (s\<lparr>heap := h\<rparr>)" "serving {#a#} c (s\<lparr>heap := h\<rparr>)" "keyspace (s\<lparr>heap := h\<rparr>) = keyspace s"
        "pending c (s\<lparr>heap := h\<rparr>) = pending c s" "obj_value h a = v" using a(3,5) by auto
    let ?s1 = "s\<lparr>heap := h\<rparr>"
    have s1: "db_inj ?s1" "room ?i ?s1" "addr_map ?s1 ?i k1 = Some a" "obj_value (heap ?s1) a = v"
      using S(2) assms(2) a(2) h(5) by simp_all
    show ?thesis
    proof (cases "nx \<and> keyspace s ?i k2 \<noteq> None")
      case True
      from rename_refused [OF h(2) s1(1,2), of k2] True h(3,4) obtain s2 h3 where
        2: "db_add k2 a ?i ?s1 = Some (DICT_ERR, s2)" "decr a s2 = Some (s2\<lparr>heap := h3\<rparr>)"
          "serving {#} c (s2\<lparr>heap := h3\<rparr>)" "db_inj (s2\<lparr>heap := h3\<rparr>)" "keyspace (s2\<lparr>heap := h3\<rparr>) = keyspace s"
          "pending c (s2\<lparr>heap := h3\<rparr>) = pending c s" "dirty s2 = dirty s" by auto
      have "RenameGenericCommand nx c s = AddReplySds (err_line ''destination key exists'') c (s2\<lparr>heap := h3\<rparr>)"
        using ne a(1) h(1) 2(1,2) True assms(3,4) by (simp add: RenameGenericCommand_def)
      moreover have "does c s (keyspace s) (err_line ''destination key exists'') 0 \<dots>"
        by (rule does_sds) (use 2 in simp_all)
      ultimately show ?thesis unfolding if_not_P [OF ne] Some option.case if_P [OF True] by simp
    next
      case False
      from rename_value [OF h(2) s1(1,2) ne s1(3,4) a(4)] h(3,4) obtain s0 s2 s3 where
        2: "db_add k2 a ?i ?s1 = Some (if addr_map ?s1 ?i k2 = None then DICT_OK else DICT_ERR, s0)"
          "if addr_map ?s1 ?i k2 = None then s2 = s0 else db_replace k2 a ?i s0 = Some (DICT_OK, s2)"
          "db_delete k1 ?i s2 = Some (DICT_OK, s3)" "serving {#} c s3" "db_inj s3"
          "keyspace s3 = ks_del ?i k1 (ks_put ?i k2 v (keyspace s))" "pending c s3 = pending c s" "dirty s3 = dirty s"
        by auto
      define c2 where "c2 = (if addr_map ?s1 ?i k2 = None then take_arg 2 c else c)"
      have "serving {#} c2 s3" "pending c2 s3 = pending c s" using 2(4,7) by (simp_all add: c2_def)
      from does_ok_dirty [OF this(1) 2(5,6) this(2)] 2(8) have
        "does c s (ks_del ?i k1 (ks_put ?i k2 v (keyspace s))) (''+OK'' @ crlf) 1 (reply_ok_dirty c2 s3)" by simp
      moreover have "RenameGenericCommand nx c s = reply_ok_dirty c2 s3"
        using False ne a(1) h(1) 2(1-3) assms(3,4)
        by (cases "addr_map ?s1 ?i k2") (auto simp: RenameGenericCommand_def c2_def DICT_OK_def DICT_ERR_def keyspace_def)
      ultimately show ?thesis unfolding if_not_P [OF ne] Some option.case if_not_P [OF False] by simp
    qed
  qed
qed

section \<open>Moving\<close>

text \<open>A key is taken out without releasing its value: the reference goes to the caller.\<close>

lemma db_delete_no_free_ok:
  assumes "serving X c s" and "i < length (dict s)" and "addr_map s i k = Some a"
  shows "\<exists>d. db_delete_no_free k i s = Some (DICT_OK, put_db i d s) \<and>
    serving (add_mset a X) c (put_db i d s) \<and>
    addr_map (put_db i d s) = (addr_map s)(i := (addr_map s i)(k := None)) \<and>
    pending c (put_db i d s) = pending c s"
proof -
  note S = servingD [OF assms(1)]
  note ok = dbs_okD [OF S(3) assms(2)]
  have m: "addr_map s i = dict_map (\<lambda>k. k) (dict s ! i)" using assms(2) by (simp add: addr_map_def)
  from db.DictGenericDelete_ok [OF ok, of k True "heap s"] assms(3) m obtain d where
    d: "DictGenericDelete sdsDictType k True (dict s ! i) (heap s) = Some (DICT_OK, d, heap s)" "db.ok d"
      "mset (entries (dict s ! i)) = add_mset (k, a) (mset (entries d))" by auto
  have snds: "mset (map snd (entries (dict s ! i))) = add_mset a (mset (map snd (entries d)))"
    using arg_cong [OF d(3), of "image_mset snd"] by simp
  have "db_refs s = add_mset a (db_refs (put_db i d s))"
    using db_refs_put [OF assms(2), of d] unfolding snds by simp
  then have r: "all_refs (add_mset a X) c (put_db i d s) = all_refs X c s"
    unfolding all_refs_put by (simp add: all_refs_def server_refs_def)
  have nn: "\<forall>b \<in> snd ` set (entries d). obj_value (heap s) b \<noteq> VNull"
  proof
    fix b assume "b \<in> snd ` set (entries d)"
    then have "b \<in> snd ` set (entries (dict s ! i))"
      using snds by (metis insertCI set_map set_mset_add_mset_insert set_mset_mset)
    then show "obj_value (heap s) b \<noteq> VNull" by (rule db_value_nonnull [OF assms(1,2)])
  qed
  have same: "s\<lparr>heap := heap s\<rparr> = s" by simp
  from serving_put [OF assms(1,2) d(2), of "add_mset a X" "heap s"] r S(1) nn
  have "serving (add_mset a X) c (put_db i d s)" "pending c (put_db i d s) = pending c s" by (simp_all add: same)
  moreover have "addr_map (put_db i d s) = (addr_map s)(i := (addr_map s i)(k := None))"
    using dict_map_uncons [OF d(3) dict_ok_tableD(3) [OF ok]] assms(2) m by (simp add: addr_map_put)
  moreover have "db_delete_no_free k i s = Some (DICT_OK, put_db i d s)"
    using d(1) assms(2) by (simp add: db_delete_no_free_def DictDeleteNoFree_def same)
  ultimately show ?thesis by blast
qed

text \<open>Two databases can be worked on in any order.\<close>

lemma db_add_commute:
  assumes "i \<noteq> j" and "db_add k a j (put_db i d s) = Some (r, put_db j d2 (put_db i d s))" and "j < length (dict s)"
  shows "\<exists>d3. db_add k a j s = Some (r, put_db j d3 s) \<and> put_db j d2 (put_db i d s) = put_db i d (put_db j d3 s)"
proof -
  from assms obtain d3 where d3: "DictAdd sdsDictType k a (dict s ! j) = Some (r, d3)"
    "put_db j d3 (put_db i d s) = put_db j d2 (put_db i d s)"
    by (auto simp: db_add_def put_db_def bind_eq_Some_conv)
  then show ?thesis using assms(1,3)
    by (intro exI [of _ d3]) (auto simp: db_add_def put_db_def list_update_swap)
qed

lemma db_delete_no_free_commute:
  assumes "i \<noteq> j" and "db_delete_no_free k i s = Some (r, put_db i d s)" and "i < length (dict s)"
  shows "db_delete_no_free k i (put_db j d3 s) = Some (r, put_db i d (put_db j d3 s))"
proof -
  from assms(2,3) obtain d1 h where d1: "DictDeleteNoFree sdsDictType k (dict s ! i) (heap s) = Some (r, d1, h)"
    "put_db i d1 (s\<lparr>heap := h\<rparr>) = put_db i d s"
    by (auto simp: db_delete_no_free_def bind_eq_Some_conv)
  then have "h = heap s" "d1 = d"
  proof -
    show h: "h = heap s" using arg_cong [OF d1(2), of heap] by simp
    show "d1 = d" using arg_cong [OF d1(2), of "\<lambda>s. dict s ! i"] assms(3) by (simp add: put_db_def)
  qed
  then show ?thesis using d1(1) assms(1,3) by (simp add: db_delete_no_free_def put_db_def)
qed

text \<open>The client looks at the target database for a moment; the two databases are told apart afterwards.\<close>

lemma MoveCommand_run:
  assumes "arg 1 c = Some k" and "arg 2 c = Some t" and "j = atoi (cstr t)" and "0 \<le> j" and "j < db_num s"
  shows "MoveCommand c s =
    (if c_db c = nat j then AddReplySds (err_line ''source DB is the same as target DB'') c s
     else do { de \<leftarrow> find_key c s;
               case de of
                 None \<Rightarrow> AddReplySds (err_line ''no such key'') c s
               | Some (key, o') \<Rightarrow>
                   do { (ret, s) \<leftarrow> db_add key o' (nat j) s;
                        if ret = DICT_ERR then
                          AddReplySds (err_line ''target DB already contains the moved key'') c s
                        else do { (_, s) \<leftarrow> db_delete_no_free k (c_db c) s; reply_ok_dirty c s } } })"
proof -
  have sel: "SelectDB c j s = (CUTIS_OK, c\<lparr>c_db := nat j\<rparr>)" using assms(4,5) by (simp add: SelectDB_def)
  have restored: "c\<lparr>c_db := nat j, c_db := c_db c\<rparr> = c" by simp
  have "c\<lparr>c_db := c_db c\<rparr> = c" by simp
  then have stay: "c_db c = nat j \<Longrightarrow> c\<lparr>c_db := nat j\<rparr> = c" by metis
  have moved: "c_db (c\<lparr>c_db := nat j\<rparr>) = nat j" by simp
  show ?thesis
    unfolding MoveCommand_def Let_def assms(1,2) bind.bind_lunit assms(3) [symmetric] sel
    using assms(1) by (auto simp: stay CUTIS_OK_def CUTIS_ERR_def restored moved intro!: arg_cong2 [where f = Option.bind] ext split: option.splits prod.splits)
qed

lemma move_value:
  assumes "serving {#} c s" and "db_inj s" and "room j s" and "j \<noteq> i" and "i < length (dict s)"
    and "addr_map s i k = Some a" and "obj_value (heap s) a = v" and "v \<noteq> VNull" and "keyspace s j k = None"
  shows "\<exists>s2 s3. db_add k a j s = Some (DICT_OK, s2) \<and> db_delete_no_free k i s2 = Some (DICT_OK, s3) \<and>
    serving {#} c s3 \<and> db_inj s3 \<and> keyspace s3 = ks_put j k v (ks_del i k (keyspace s)) \<and>
    pending c s3 = pending c s \<and> dirty s3 = dirty s"
proof -
  have jl: "j < length (dict s)" using assms(3) by (simp add: room_def)
  from db_delete_no_free_ok [OF assms(1,5,6)] obtain d where
    1: "db_delete_no_free k i s = Some (DICT_OK, put_db i d s)" "serving {#a#} c (put_db i d s)"
      "addr_map (put_db i d s) = (addr_map s)(i := (addr_map s i)(k := None))"
      "pending c (put_db i d s) = pending c s" by blast
  let ?s1 = "put_db i d s"
  have ks1: "keyspace ?s1 = ks_del i k (keyspace s)" by (rule keyspace_del [OF 1(3)]) simp
  have room: "room j ?s1" using assms(3,4) by (simp add: room_def put_db_def)
  have free: "addr_map ?s1 j k = None" using assms(4,9) unfolding 1(3) by (simp add: keyspace_def)
  have nn: "obj_value (heap ?s1) a \<noteq> VNull" using assms(7,8) by simp
  from db_add_ok [OF 1(2) room nn free] obtain d2 where
    2: "db_add k a j ?s1 = Some (DICT_OK, put_db j d2 ?s1)" "serving {#} c (put_db j d2 ?s1)"
      "addr_map (put_db j d2 ?s1) = (addr_map ?s1)(j := (addr_map ?s1 j)(k \<mapsto> a))"
      "pending c (put_db j d2 ?s1) = pending c ?s1" by blast
  from db_add_commute [OF _ 2(1) jl] assms(4) obtain d3 where
    3: "db_add k a j s = Some (DICT_OK, put_db j d3 s)" "put_db j d2 ?s1 = put_db i d (put_db j d3 s)" by metis
  have 4: "db_delete_no_free k i (put_db j d3 s) = Some (DICT_OK, put_db j d2 ?s1)"
    unfolding 3(2) by (rule db_delete_no_free_commute [OF _ 1(1) assms(5)]) (use assms(4) in simp)
  have inj: "db_inj (put_db j d2 ?s1)"
    by (rule db_inj_move [OF assms(2,6), of _ j k]) (use assms(4) in \<open>auto simp: 2(3) 1(3) fun_upd_apply\<close>)
  have "keyspace (put_db j d2 ?s1) = ks_put j k v (ks_del i k (keyspace s))"
    unfolding ks1 [symmetric] by (rule keyspace_put [OF 2(3)]) (use assms(7) in simp_all)
  then show ?thesis using 3(1) 4 2(2) inj 1(4) 2(4)
    by (intro exI [of _ "put_db j d3 s"] exI [of _ "put_db j d2 ?s1"]) simp
qed

lemma MoveCommand_does:
  assumes "server_ok c s" and "0 \<le> j \<Longrightarrow> j < db_num s \<Longrightarrow> room (nat j) s" and "arg 1 c = Some k" and "arg 2 c = Some t"
    and "j = atoi (cstr t)"
  shows "if j < 0 \<or> j \<ge> db_num s then does c s (keyspace s) (err_line ''target DB out of range'') 0 (MoveCommand c s)
    else if nat j = c_db c
    then does c s (keyspace s) (err_line ''source DB is the same as target DB'') 0 (MoveCommand c s)
    else case keyspace s (c_db c) k of
      None \<Rightarrow> does c s (keyspace s) (err_line ''no such key'') 0 (MoveCommand c s)
    | Some v \<Rightarrow>
        if keyspace s (nat j) k \<noteq> None
        then does c s (keyspace s) (err_line ''target DB already contains the moved key'') 0 (MoveCommand c s)
        else does c s (ks_put (nat j) k v (ks_del (c_db c) k (keyspace s))) (''+OK'' @ crlf) 1 (MoveCommand c s)"
proof -
  note S = server_okD [OF assms(1)]
  let ?i = "c_db c"
  consider (range) "j < 0 \<or> j \<ge> db_num s" | (same) "0 \<le> j" "j < db_num s" "nat j = ?i"
    | (other) "0 \<le> j" "j < db_num s" "nat j \<noteq> ?i" by linarith
  then show ?thesis
  proof cases
    case range
    then show ?thesis using does_sds [OF S] assms(4,5) by (simp add: MoveCommand_def SelectDB_def)
  next
    case same
    then show ?thesis using does_sds [OF S] MoveCommand_run [OF assms(3-5) same(1,2)] by auto
  next
    case other
    note run = MoveCommand_run [OF assms(3-5) other(1,2)]
    note rm = assms(2) [OF other(1,2)]
    show ?thesis
    proof (cases "keyspace s ?i k")
      case None
      then show ?thesis using find_none(1) [OF S(1) assms(3) None] does_sds [OF S] other run by simp
    next
      case (Some v)
      from find_some [OF S(1) assms(3) Some] obtain a where
        a: "find_key c s = Some (Some (k, a))" "addr_map s ?i k = Some a" "obj_value (heap s) a = v" "v \<noteq> VNull" by auto
      show ?thesis
      proof (cases "keyspace s (nat j) k")
        case (Some w)
        then have "addr_map s (nat j) k \<noteq> None" by (auto simp: keyspace_def)
        from add_refused [OF S(1) rm this, of a] obtain s2 where
          2: "db_add k a (nat j) s = Some (DICT_ERR, s2)" "serving {#} c s2" "addr_map s2 = addr_map s"
            "keyspace s2 = keyspace s" "pending c s2 = pending c s" "dirty s2 = dirty s" by blast
        have "db_inj s2" using S(2) 2(3) by (simp add: db_inj_def)
        then have "does c s (keyspace s) (err_line ''target DB already contains the moved key'') 0 (MoveCommand c s)"
          using a(1) 2 other by (auto simp: run intro!: does_sds)
        then show ?thesis using Some \<open>keyspace s ?i k = Some v\<close> other by auto
      next
        case None
        from move_value [OF S _ other(3) servingD(4) [OF S(1)] a(2-4) None] rm obtain s2 s3 where
          3: "db_add k a (nat j) s = Some (DICT_OK, s2)" "db_delete_no_free k ?i s2 = Some (DICT_OK, s3)"
            "serving {#} c s3" "db_inj s3" "keyspace s3 = ks_put (nat j) k v (ks_del ?i k (keyspace s))"
            "pending c s3 = pending c s" "dirty s3 = dirty s" by auto
        then have "MoveCommand c s = reply_ok_dirty c s3" using a(1) other by (simp add: run DICT_OK_def DICT_ERR_def)
        then show ?thesis using does_ok_dirty [OF 3(3-6)] 3(7) None \<open>keyspace s ?i k = Some v\<close> other by simp
      qed
    qed
  qed
qed

section \<open>Listing\<close>

lemma key_matches_ok:
  assumes "parse pat = Some ts" and "NUL \<notin> set pat" and "int (length pat) \<le> INT_MAX" and "key \<noteq> []"
  shows "key_matches pat key = Some (glob False ts key)"
proof -
  have m: "StringMatch pat 0 (int (length pat)) key 0 (int (length key)) False = Some (glob False ts key)"
    using StringMatch_glob [of 0 pat ts 0 key False] assms(1,4) by simp
  have len: "as_int (int (length pat)) = int (length pat)" using assms(3) by (simp add: c_limits)
  show ?thesis
  proof (cases "pat = ''*''")
    case True
    then have "ts = [TStar]" using assms(1) by auto
    moreover have "glob False [TStar] key"
      unfolding glob.simps list_ex_iff by (rule bexI [of _ "length key"]) (simp_all add: glob.simps)
    ultimately have "glob False ts key" by simp
    then show ?thesis using True by (simp add: key_matches_def rd_def nth_opt_def One_nat_def)
  next
    case False
    have "\<not> (p0 = CHR ''*'' \<and> p1 = NUL)" if "rd pat 0 = Some p0" "rd pat 1 = Some p1" for p0 p1
    proof
      assume eq: "p0 = CHR ''*'' \<and> p1 = NUL"
      have ne: "pat \<noteq> []" using that(1) eq by (auto simp: rd_def nth_opt_def NUL_def)
      then have h: "pat ! 0 = CHR ''*''" using that(1) eq by (simp add: rd_def nth_opt_def nth_append)
      have "length pat = 1"
      proof (rule ccontr)
        assume "length pat \<noteq> 1"
        then have "1 < length pat" using ne by (cases pat) (auto simp: One_nat_def)
        then have "pat ! 1 = NUL" using that(2) eq ne by (simp add: rd_def nth_opt_def nth_append One_nat_def)
        then show False using assms(2) \<open>1 < length pat\<close> nth_mem by fastforce
      qed
      then have "pat = ''*''" using h by (cases pat) (auto simp: One_nat_def)
      then show False using False by simp
    qed
    then show ?thesis using m len
      by (cases pat) (auto simp: key_matches_def rd_def nth_opt_def bind_eq_Some_conv NUL_def)
  qed
qed

definition keys_reply :: "string list \<Rightarrow> string" where
  "keys_reply ks =
     (let body = strip (strchr_in '' '') (concat (map (\<lambda>k. k @ '' '') ks))
      in num_line (int (length body)) @ body @ crlf)"

lemma keys_loop:
  assumes "parse pat = Some ts" and "NUL \<notin> set pat" and "int (length pat) \<le> INT_MAX"
    and "\<forall>e \<in> set es. fst e \<noteq> []"
  shows "foldM (keys_step pat) es acc =
    Some (acc @ concat (map (\<lambda>k. k @ '' '') (filter (glob False ts) (map fst es))))"
  using assms(4)
  by (induction es arbitrary: acc) (simp_all add: keys_step_def key_matches_ok [OF assms(1-3)])

lemma KeysCommand_does:
  assumes "server_ok c s" and "arg 1 c = Some pat" and "parse pat = Some ts" and "NUL \<notin> set pat"
    and "int (length pat) \<le> INT_MAX" and "keyspace s (c_db c) [] = None"
  shows "\<exists>ks. distinct ks \<and> set ks = {k \<in> dom (keyspace s (c_db c)). glob False ts k} \<and>
    does c s (keyspace s) (keys_reply ks) 0 (KeysCommand c s)"
proof -
  note S = server_okD [OF assms(1)]
  let ?d = "dict s ! c_db c"
  note ok = dbs_okD [OF servingD(3,4) [OF S(1)]]
  have dm: "dom (keyspace s (c_db c)) = fst ` set (entries ?d)"
  proof -
    have "dom (keyspace s (c_db c)) = dom (addr_map s (c_db c))" by (auto simp: keyspace_def)
    then show ?thesis using servingD(4) [OF S(1)]
      by (simp add: addr_map_def dict_map_def dom_map_of_conv_image_fst image_image split_def)
  qed
  then have "\<forall>e \<in> set (entries ?d). fst e \<noteq> []" using assms(6) by (metis domIff image_eqI)
  note loop = keys_loop [OF assms(3-5) this, of "[]"]
  define ks where "ks = filter (glob False ts) (map fst (entries ?d))"
  have "distinct ks" using dict_ok_tableD(3) [OF ok] by (simp add: ks_def comp_def)
  moreover have "set ks = {k \<in> dom (keyspace s (c_db c)). glob False ts k}" by (auto simp: ks_def dm)
  moreover have "does c s (keyspace s) (keys_reply ks) 0 (KeysCommand c s)"
    using db_find_ok(2) [OF S(1)] dict_iterate_ok [OF ok] loop assms(2) does_sds [OF S]
    by (simp add: KeysCommand_def keys_reply_def ks_def Let_def)
  ultimately show ?thesis by blast
qed

text \<open>A random key, when the generator reaches every slot.\<close>

lemma RandomKeyCommand_does:
  assumes "server_ok c s" and "\<And>x. x < 2 ^ 27 \<Longrightarrow> \<exists>i. unat (rands (world s) (calls (world s)) i) = x"
  shows "if dom (keyspace s (c_db c)) = {} then does c s (keyspace s) crlf 0 (RandomKeyCommand c s)
    else \<exists>k \<in> dom (keyspace s (c_db c)). does c s (keyspace s) (k @ crlf) 0 (RandomKeyCommand c s)"
proof -
  note S = server_okD [OF assms(1)]
  let ?d = "dict s ! c_db c"
  let ?rnd = "rands (world s) (calls (world s))"
  let ?s = "snd (syscall s)"
  note ok = dbs_okD [OF servingD(3,4) [OF S(1)]]
  have s: "serving {#} c ?s" "db_inj ?s" "keyspace ?s = keyspace s" "pending c ?s = pending c s" "dirty ?s = dirty s"
    using S by (simp_all add: syscall_def split: prod.splits)
  have dm: "dom (keyspace s (c_db c)) = fst ` set (entries ?d)"
  proof -
    have "dom (keyspace s (c_db c)) = dom (addr_map s (c_db c))" by (auto simp: keyspace_def)
    then show ?thesis using servingD(4) [OF S(1)]
      by (simp add: addr_map_def dict_map_def dom_map_of_conv_image_fst image_image split_def)
  qed
  show ?thesis
  proof (cases "entries ?d = []")
    case True
    then have "d_used ?d = 0" using dict_ok_tableD(5) [OF ok] by simp
    then have "DictGetRandomKey ?rnd ?d = Some None" by (simp add: DictGetRandomKey_def)
    then have "RandomKeyCommand c s = reply_shared sh_crlf c ?s"
      using db_find_ok(2) [OF S(1)] by (simp add: RandomKeyCommand_def)
    moreover have "does c s (keyspace s) crlf 0 (reply_shared sh_crlf c ?s)"
      by (rule does_shared) (use s shared_texts(1) [OF s(1)] in simp_all)
    ultimately show ?thesis using True dm by simp
  next
    case False
    then have used: "d_used ?d \<noteq> 0" using dict_ok_tableD(2) [OF ok] by auto
    have "\<exists>i. d_table ?d ! unat (?rnd i AND d_mask ?d) \<noteq> []"
    proof -
      from ok False have "?d \<noteq> DictReset" by auto
      with ok obtain n where n: "n \<le> 27" "d_mask ?d = 2 ^ n - 1" "placed sdsDictType n (d_table ?d)"
        unfolding dict_ok_def by blast
      from False obtain x where "x < length (d_table ?d)" "d_table ?d ! x \<noteq> []"
        unfolding entries_def using set_concat_nth [of _ "d_table ?d"] by (metis in_set_conv_nth list.set(1) empty_iff last_in_set)
      moreover have "length (d_table ?d) = 2 ^ n" using n(3) by (simp add: placed_def)
      moreover have "(2 :: nat) ^ n \<le> 2 ^ 27" using n(1) by (intro power_increasing) simp_all
      ultimately obtain i where "unat (?rnd i) = x" "x < 2 ^ n" using assms(2) [of x] by auto
      then have "unat (?rnd i AND d_mask ?d) = x" using n(1,2) and_mask_u32 [of n "?rnd i"] by simp
      then show ?thesis using \<open>d_table ?d ! x \<noteq> []\<close> by blast
    qed
    from DictGetRandomKey_ok [OF ok this used] obtain k a where
      e: "(k, a) \<in> set (entries ?d)" "DictGetRandomKey ?rnd ?d = Some (Some (k, a))" by auto
    then have "RandomKeyCommand c s = AddReplySds k c ?s \<bind> (\<lambda>(c, s). reply_shared sh_crlf c s)"
      using db_find_ok(2) [OF S(1)] by (simp add: RandomKeyCommand_def)
    moreover have "k \<in> dom (keyspace s (c_db c))" using e(1) dm by force
    ultimately show ?thesis using does_line [OF s(1,2), of "keyspace s" c s 0 k] s(3-5) by auto
  qed
qed

end
