(* ===== verification/Sample.thy ===== *)
theory Sample
  imports Key_Commands Server_Spec
begin

text \<open>
  A small server with something in it: the result of running commands of the model on the server
  that has just been started. The concrete instances of the properties are taken from it.
\<close>

declare next_power_loop.simps [code] iterate_from.simps [code] random_slot.simps [code]

definition on :: "CutisClient \<times> CutisServer \<Rightarrow> string list \<Rightarrow> CutisClient" where
  "on cs args = (fst cs)\<lparr>argv := map Some args\<rparr>"

definition run_on :: "cmd \<Rightarrow> string list \<Rightarrow> CutisClient \<times> CutisServer \<Rightarrow> CutisClient \<times> CutisServer" where
  "run_on f args cs = (case f (on cs args) (snd cs) of Some r \<Rightarrow> r | None \<Rightarrow> cs)"

definition sample_string where
  "sample_string = run_on (SetGenericCommand False) [''set'', ''k'', ''7''] (caller [], started)"
definition sample_list where
  "sample_list = run_on (PushGenericCommand CUTIS_TAIL) [''rpush'', ''l'', ''a''] sample_string"
definition sample_list2 where
  "sample_list2 = run_on (PushGenericCommand CUTIS_TAIL) [''rpush'', ''l'', ''b''] sample_list"
definition sample_set where
  "sample_set = run_on SAddCommand [''sadd'', ''m'', ''x''] sample_list2"
definition sample_set2 where
  "sample_set2 = run_on SAddCommand [''sadd'', ''m'', ''y''] sample_set"
definition sample where
  "sample = run_on SAddCommand [''sadd'', ''n'', ''y''] sample_set2"

lemma on_simps [simp]:
  "server_ok (on cs args) s = server_ok (fst cs) s" "c_db (on cs args) = c_db (fst cs)"
  "arg i (on cs args) = (if i < length args then Some (args ! i) else None)"
  by (simp_all add: on_def arg_def server_ok_def serving_def all_refs_def)

definition sound where
  "sound cs K \<longleftrightarrow> server_ok (fst cs) (snd cs) \<and> keyspace (snd cs) = K"

definition small where
  "small cs \<longleftrightarrow> c_db (fst cs) = 0 \<and> length (dict (snd cs)) = 16 \<and>
     list_all (\<lambda>d. unat (d_used d) \<le> 5) (dict (snd cs))"

lemma small_sample:
  "small sample_string" "small sample_list" "small sample_list2" "small sample_set" "small sample_set2" "small sample"
  by code_simp+

declare One_nat_def [simp del]

lemma run_on_sound:
  assumes "\<exists>t n. does (on cs args) (snd cs) K t n (f (on cs args) (snd cs))"
  shows "sound (run_on f args cs) K"
  using assms by (auto simp: does_def sound_def run_on_def)

lemma small_room: "small cs \<Longrightarrow> i < 16 \<Longrightarrow> room i (snd cs)"
  by (auto simp: small_def room_def list_all_length intro: le_less_trans [of _ 5])

lemma small_db [simp]: "small cs \<Longrightarrow> c_db (fst cs) = 0"
  by (simp add: small_def)

text \<open>Its databases, from the theorems on the commands that filled them.\<close>

definition filled :: "cvalue list \<Rightarrow> nat \<Rightarrow> string \<rightharpoonup> cvalue" where
  "filled vs = (\<lambda>i. Map.empty)(0 := map_of (zip [''k'', ''l'', ''m'', ''n''] vs))"

lemma sample_sound:
  "sound sample (filled [VString ''7'', VList [''a'', ''b''], VSet {''x'', ''y''}, VSet {''y''}])"
proof -
  note rules = sound_def small_room filled_def ks_put_def
  have "sound sample_string (filled [VString ''7''])"
    unfolding sample_string_def
    using SetGenericCommand_does [of "on (caller [], started) [''set'', ''k'', ''7'']" started "''k''" "''7''" False]
    by (intro run_on_sound exI) (simp add: rules)
  then have "sound sample_list (filled [VString ''7'', VList [''a'']])"
    unfolding sample_list_def
    using PushGenericCommand_does [of "on sample_string [''rpush'', ''l'', ''a'']" "snd sample_string" "''l''" "''a''" CUTIS_TAIL]
      small_sample(1)
    by (intro run_on_sound exI) (simp add: rules fun_upd_twist)
  then have "sound sample_list2 (filled [VString ''7'', VList [''a'', ''b'']])"
    unfolding sample_list2_def
    using PushGenericCommand_does [of "on sample_list [''rpush'', ''l'', ''b'']" "snd sample_list" "''l''" "''b''" CUTIS_TAIL]
      small_sample(2)
    by (intro run_on_sound exI) (simp add: rules fun_upd_twist)
  then have "sound sample_set (filled [VString ''7'', VList [''a'', ''b''], VSet {''x''}])"
    unfolding sample_set_def
    using SAddCommand_does [of "on sample_list2 [''sadd'', ''m'', ''x'']" "snd sample_list2" "''m''" "''x''"]
      small_sample(3)
    by (intro run_on_sound exI) (simp add: rules fun_upd_twist)
  then have "sound sample_set2 (filled [VString ''7'', VList [''a'', ''b''], VSet {''x'', ''y''}])"
    unfolding sample_set2_def
    using SAddCommand_does [of "on sample_set [''sadd'', ''m'', ''y'']" "snd sample_set" "''m''" "''y''"]
      small_sample(4)
    by (intro run_on_sound exI) (simp add: rules fun_upd_twist insert_commute)
  then show ?thesis
    unfolding sample_def
    using SAddCommand_does [of "on sample_set2 [''sadd'', ''n'', ''y'']" "snd sample_set2" "''n''" "''y''"]
      small_sample(5)
    by (intro run_on_sound exI) (simp add: rules fun_upd_twist)
qed

text \<open>What the concrete instances need to know about it.\<close>

abbreviation client :: "string list \<Rightarrow> CutisClient" where
  "client args \<equiv> on sample args"

abbreviation server :: CutisServer where
  "server \<equiv> snd sample"

definition stock :: keyspace where
  "stock = filled [VString ''7'', VList [''a'', ''b''], VSet {''x'', ''y''}, VSet {''y''}]"

lemma sample_simps [simp]:
  "server_ok (fst sample) server" "c_db (fst sample) = 0" "keyspace server = stock"
  "i < 16 \<Longrightarrow> room i server"
  using sample_sound small_sample(6) by (simp_all add: sound_def stock_def small_room)

lemma stock_simps [simp]:
  "stock 0 = [''k'' \<mapsto> VString ''7'', ''l'' \<mapsto> VList [''a'', ''b''], ''m'' \<mapsto> VSet {''x'', ''y''}, ''n'' \<mapsto> VSet {''y''}]"
  "0 < i \<Longrightarrow> stock i = Map.empty"
  by (simp_all add: stock_def filled_def fun_upd_twist)

lemma sample_world [simp]: "db_num server = 16" "dirty server = 6"
  by code_simp+

lemma argv_on [simp]: "argv (on cs args) = map Some args"
  by (simp add: on_def)

lemma only_one: "distinct ms \<Longrightarrow> set ms = {x} \<Longrightarrow> ms = [x]"
  by (cases ms; cases "tl ms") auto

lemma seven: "num_of (Some (VString ''7'')) = 7"
  by code_simp

lemma numbers: "atoi (cstr ''-1'') = -1" "atoi (cstr ''0'') = 0" "atoi (cstr ''1'') = 1" "atoi (cstr ''99'') = 99"
  by code_simp+

lemma lrange_two: "lrange [x, y] 0 (-1) = [x, y]" "lrange [x, y] (-1) (-1) = [y]"
  by (simp_all add: lrange_def upto.simps)

lemma two_only:
  assumes "distinct ms" and "set ms = {x, y}" and "x \<noteq> y"
  shows "ms = [x, y] \<or> ms = [y, x]"
proof -
  have "length ms = 2" using distinct_card [OF assms(1)] assms(2,3) by simp
  then obtain a b where "ms = [a, b]" by (auto simp: length_Suc_conv numeral_2_eq_2)
  then show ?thesis using assms(2,3) by (auto simp: doubleton_eq_iff)
qed

text \<open>The same server where \<open>random()\<close> counts.\<close>

definition fair_world :: world where
  "fair_world = quiet_world\<lparr>rands := \<lambda>_ i. of_nat i\<rparr>"

definition in_world :: "world \<Rightarrow> CutisServer \<Rightarrow> CutisServer" where
  "in_world w s = s\<lparr>world := w\<rparr>"

lemma in_world_simps [simp]:
  "server_ok c (in_world w s) = server_ok c s" "keyspace (in_world w s) = keyspace s" "world (in_world w s) = w"
  by (simp_all add: in_world_def server_ok_def serving_def keyspace_def)

lemma fair_hits: "x < 2 ^ 27 \<Longrightarrow> \<exists>i. unat (rands fair_world n i) = x"
  by (rule exI [of _ x]) (simp add: fair_world_def unat_of_nat)

lemma reset_empty: "unat (d_used DictReset) = 0" by (simp add: DictReset_def)

lemma sample_table:
  "dict_ok sdsDictType (\<lambda>k. k) (dict server ! 0)" "length (entries (dict server ! 0)) = 4"
proof -
  have "dbs_ok server" using server_okD(1) [OF sample_simps(1)] by (simp add: serving_def)
  moreover have "0 < length (dict server)" using small_sample(6) by (simp add: small_def)
  ultimately show "dict_ok sdsDictType (\<lambda>k. k) (dict server ! 0)" by (simp add: dbs_ok_def)
  show "length (entries (dict server ! 0)) = 4" by code_simp
qed

end
