(* ===== verification/Frame.thy ===== *)
theory Frame
  imports Key_Commands Client
begin

text \<open>
  What no command touches: the connection of the client, the table of clients, the configuration.
  Commands change the replies, the arguments and the selected database of the client, and the heap,
  the databases, the file events, the world and the counters of the server.
\<close>

definition conn :: "CutisClient \<Rightarrow> addr \<times> int \<times> string \<times> int \<times> int \<times> int \<times> nat" where
  "conn c = (c_id c, c_fd c, query_buf c, sent_len c, last_interaction c, bulk_len c, argc c)"

definition config where
  "config s = (shared s, save_params s, cron_loops s, clients s, client_at s, port s, listen_fd s,
     max_idle_time s, db_num s, verbosity s, log_file s, length (dict s))"

definition framed :: "CutisClient \<Rightarrow> CutisServer \<Rightarrow> (CutisClient \<times> CutisServer) option \<Rightarrow> bool" where
  "framed c s r \<longleftrightarrow> (\<forall>c' s'. r = Some (c', s') \<longrightarrow> conn c' = conn c \<and> config s' = config s)"

lemma conn_simps [simp]:
  "conn (c\<lparr>reply := x\<rparr>) = conn c" "conn (c\<lparr>c_db := i\<rparr>) = conn c" "conn (take_arg i c) = conn c"
  by (simp_all add: conn_def take_arg_def)

lemma config_simps [simp]:
  "config (s\<lparr>heap := h\<rparr>) = config s" "config (s\<lparr>el := e\<rparr>) = config s" "config (s\<lparr>dirty := n\<rparr>) = config s"
  "config (s\<lparr>world := w\<rparr>) = config s" "config (s\<lparr>last_save := t\<rparr>) = config s" "config (s\<lparr>bg_saving := b\<rparr>) = config s"
  "config (put_db i d s) = config s"
  by (simp_all add: config_def put_db_def)

named_theorems frames

lemma frame_AddReply [frames]: "AddReply a c s = Some (c', s') \<Longrightarrow> conn c' = conn c \<and> config s' = config s"
  by (auto simp: AddReply_def Let_def split: bind_splits)

lemma frame_AddReplySds [frames]: "AddReplySds t c s = Some (c', s') \<Longrightarrow> conn c' = conn c \<and> config s' = config s"
  by (auto simp: AddReplySds_def Let_def split: bind_splits prod.splits dest!: frames)

lemma frame_reply_shared [frames]: "reply_shared f c s = Some (c', s') \<Longrightarrow> conn c' = conn c \<and> config s' = config s"
  by (auto simp: reply_shared_def dest!: frames)

lemma frame_reply_ok_dirty [frames]: "reply_ok_dirty c s = Some (c', s') \<Longrightarrow> conn c' = conn c \<and> config s' = config s"
  by (auto simp: reply_ok_dirty_def dest!: frames)

lemma frame_reply_bulk [frames]: "reply_bulk a c s = Some (c', s') \<Longrightarrow> conn c' = conn c \<and> config s' = config s"
  by (auto simp: reply_bulk_def split: bind_splits dest!: frames)

lemma frame_create [frames]: "create p s = (a, s') \<Longrightarrow> config s' = config s"
  by (auto simp: create_def split: prod.splits)

lemma frame_decr [frames]: "decr a s = Some s' \<Longrightarrow> config s' = config s"
  by (auto simp: decr_def split: bind_splits)

lemma frame_incr [frames]: "incr a s = Some s' \<Longrightarrow> config s' = config s"
  by (auto simp: incr_def split: bind_splits)

lemma frame_store_ptr [frames]: "store_ptr a p s = Some s' \<Longrightarrow> config s' = config s"
  by (auto simp: store_ptr_def split: bind_splits)

lemma frame_db [frames]:
  "db_add k a i s = Some (r, s') \<Longrightarrow> config s' = config s"
  "db_replace k a i s = Some (r, s') \<Longrightarrow> config s' = config s"
  "db_delete k i s = Some (r, s') \<Longrightarrow> config s' = config s"
  "db_delete_no_free k i s = Some (r, s') \<Longrightarrow> config s' = config s"
  by (auto simp: db_add_def db_replace_def db_delete_def db_delete_no_free_def split: bind_splits)

lemma frame_drop_borrowed [frames]: "drop_borrowed a s = Some s' \<Longrightarrow> config s' = config s"
  by (auto simp: drop_borrowed_def split: bind_splits dest!: frames)

lemma frame_del_end [frames]: "del_end side a s = Some s' \<Longrightarrow> config s' = config s"
  by (auto simp: del_end_def split: bind_splits optr.splits dest!: frames)

lemma frame_set_add [frames]: "set_add a x s = Some (r, s') \<Longrightarrow> config s' = config s"
  by (auto simp: set_add_def split: bind_splits optr.splits dest!: frames)

lemma frame_times [frames]: "timesM n (del_end side a) s = Some s' \<Longrightarrow> config s' = config s"
  by (induction n arbitrary: s) (auto split: option.splits dest!: frames)

lemma frame_bulks [frames]:
  "foldM (\<lambda>x (c, s). reply_bulk x c s) xs (c, s) = Some (c', s') \<Longrightarrow> conn c' = conn c \<and> config s' = config s"
  by (induction xs arbitrary: c s) (auto split: option.splits dest!: frames)

lemma frame_sinter [frames]:
  "foldM (sinter_step ds) es ((c, s), n) = Some ((c', s'), n') \<Longrightarrow> conn c' = conn c \<and> config s' = config s"
proof (induction es arbitrary: c s n)
  case (Cons e es)
  then show ?case
    by (auto simp: sinter_step_def split: option.splits bind_splits if_splits dest!: frames Cons.IH)
qed simp

lemma frame_syscall [frames]: "syscall s = (x, s') \<Longrightarrow> config s' = config s"
  by (auto simp: syscall_def split: prod.splits)

lemma frame_syscall_snd [simp]: "config (snd (syscall s)) = config s"
  by (simp add: syscall_def split: prod.splits)

lemma frame_set_file [simp]: "config (set_file name x s) = config s"
  by (simp add: set_file_def)

lemma frame_flush [frames]: "flush name buf s = (b, s') \<Longrightarrow> config s' = config s"
  by (auto simp: flush_def Let_def split: prod.splits dest!: frames)

lemma frame_fclose [frames]: "fclose name buf s = (b, s') \<Longrightarrow> config s' = config s"
  by (auto simp: fclose_def split: prod.splits dest!: frames)

lemma frame_fwrites [frames]: "fwrites name chs buf s = (b, buf', s') \<Longrightarrow> config s' = config s"
  by (induction chs arbitrary: buf s)
    (auto simp: fwrite_def Let_def split: prod.splits if_splits dest!: frames)

lemma frame_SaveDB [frames]: "SaveDB name s = Some (r, s') \<Longrightarrow> config s' = config s"
  by (auto simp: SaveDB_def Let_def split: prod.splits if_splits bind_splits dest!: frames)

lemma frame_SaveDBBackground [frames]: "SaveDBBackground name s = (r, s') \<Longrightarrow> config s' = config s"
  by (auto simp: SaveDBBackground_def Let_def split: prod.splits if_splits dest!: frames)

lemmas frame_splits = bind_splits if_splits prod.splits option.splits optr.splits

lemma frame_strings [simp]:
  "framed c s (SetGenericCommand nx c s)" "framed c s (GetCommand c s)" "framed c s (ExistsCommand c s)"
  "framed c s (DelCommand c s)" "framed c s (IncrDecrCommand i c s)" "framed c s (RandomKeyCommand c s)"
  unfolding framed_def SetGenericCommand_def GetCommand_def ExistsCommand_def DelCommand_def IncrDecrCommand_def
    RandomKeyCommand_def Let_def
  by (auto split: frame_splits dest!: frames)

lemma frame_lists [simp]:
  "framed c s (PushGenericCommand side c s)" "framed c s (PopGenericCommand side c s)" "framed c s (LLenCommand c s)"
  "framed c s (LIndexCommand c s)" "framed c s (LRangeCommand c s)" "framed c s (LTrimCommand c s)" "framed c s (LSetCommand c s)"
  unfolding framed_def PushGenericCommand_def PopGenericCommand_def LLenCommand_def LIndexCommand_def LRangeCommand_def
    LTrimCommand_def LSetCommand_def Let_def
  by (auto split: frame_splits dest!: frames)

lemma frame_sets [simp]:
  "framed c s (SAddCommand c s)" "framed c s (SRemCommand c s)" "framed c s (SIsMemberCommand c s)"
  "framed c s (SCardCommand c s)" "framed c s (SInterCommand c s)"
  unfolding framed_def SAddCommand_def SRemCommand_def SIsMemberCommand_def SCardCommand_def SInterCommand_eq Let_def
  by (auto split: frame_splits list.splits dest!: frames)

lemma frame_keys [simp]:
  "framed c s (TypeCommand c s)" "framed c s (SelectCommand c s)" "framed c s (MoveCommand c s)"
  "framed c s (RenameGenericCommand nx c s)" "framed c s (KeysCommand c s)" "framed c s (DbsizeCommand c s)"
  unfolding framed_def TypeCommand_def SelectCommand_def MoveCommand_def RenameGenericCommand_def KeysCommand_def
    DbsizeCommand_def SelectDB_def Let_def
  by (auto split: frame_splits dest!: frames)

lemma frame_server [simp]:
  "framed c s (SaveCommand c s)" "framed c s (BgsaveCommand c s)" "framed c s (ShutDownCommand c s)"
  "framed c s (PingCommand c s)" "framed c s (EchoCommand c s)" "framed c s (LastSaveCommand c s)"
  unfolding framed_def SaveCommand_def BgsaveCommand_def ShutDownCommand_def PingCommand_def EchoCommand_def
    LastSaveCommand_def Let_def
  by (auto split: frame_splits dest!: frames)

text \<open>The commands of the table, in its order.\<close>

lemma cmdTable_framed: "cm \<in> set cmdTable \<Longrightarrow> framed c s (cmd_proc cm c s)"
  unfolding cmdTable_def entry_def
  by (auto simp: SetCommand_def SetnxCommand_def IncrCommand_def DecrCommand_def RPushCommand_def LPushCommand_def
      RPopCommand_def LPopCommand_def RenameCommand_def RenamenxCommand_def)

lemma Lookup_framed: "LookupCommand name = Some cm \<Longrightarrow> framed c s (cmd_proc cm c s)"
  unfolding LookupCommand_def by (rule cmdTable_framed) (metis find_SomeD)

end
