(* ===== verification/Command_Invariant.thy ===== *)
theory Command_Invariant
  imports Frame
begin

declare One_nat_def [simp del]

text \<open>
  Whatever a client asks for: when the run of a command is defined at all, it keeps the invariant.
  The conditions of the theorems on the single commands are those under which a run is defined; here
  the other cases are closed.
\<close>

definition kept :: "(CutisClient \<times> CutisServer) option \<Rightarrow> bool" where
  "kept r \<longleftrightarrow> (\<forall>c' s'. r = Some (c', s') \<longrightarrow> server_ok c' s')"

lemma kept_simps [simp]: "kept None" "kept (Some (c, s)) = server_ok c s"
  by (simp_all add: kept_def)

lemma does_kept [dest]: "does c s K t n r \<Longrightarrow> kept r"
  by (auto simp: does_def kept_def)

lemma kept_bind: "(\<And>x. m = Some x \<Longrightarrow> kept (f x)) \<Longrightarrow> kept (m \<bind> f)"
  by (cases m) auto

text \<open>A table that is full takes nothing more.\<close>

lemma alloc_table_large:
  assumes "28 \<le> m" and "m \<le> 31"
  shows "alloc_table (2 ^ m) = None"
proof -
  have "uint (2 ^ m :: u32) = 2 ^ m" using unat_power_u32 [of m] assms(2) by (simp add: uint_nat)
  moreover have "(2 :: int) ^ 28 \<le> 2 ^ m" using assms(1) by (rule power_increasing) simp
  ultimately have "INT_MAX < 8 * uint (2 ^ m :: u32)" by (simp add: c_limits)
  then have "as_int (8 * uint (2 ^ m :: u32)) \<noteq> 8 * uint (2 ^ m :: u32)" using as_int_range by (metis not_le)
  then show ?thesis by (simp add: alloc_table_def)
qed

lemma full_table:
  assumes "dict_ok ty canon d" and "unat (d_used d) = 2 ^ 27"
  shows "DictAdd ty' k v d = None"
proof -
  from assms(2) have "d \<noteq> DictReset" by (auto simp: DictReset_def)
  with assms(1) obtain n where n: "n \<le> 27" "d_size d = 2 ^ n" "d_used d \<le> d_size d" by (auto simp: dict_ok_def)
  have "unat (d_used d) \<le> unat (d_size d)" using n(3) by (simp add: word_le_nat_alt)
  moreover have "unat (d_size d) = 2 ^ n" using n(1,2) unat_power_u32 [of n] by simp
  ultimately have "2 ^ 27 \<le> (2 :: nat) ^ n" using assms(2) by simp
  then have "n = 27" using n(1) power_increasing_iff [of "2 :: nat" 27 n] by simp
  then have size: "d_size d = 2 ^ 27" "d_used d = 2 ^ 27"
    using n(2) assms(2) word_unat_eq_iff [of "d_used d" "2 ^ 27"] by simp_all
  from DictNextPower_ok [of "2 ^ 28"] obtain m where m: "DictNextPower (2 ^ 28) = Some (2 ^ m)" "m \<le> 31"
    "unat (2 ^ 28 :: u32) \<le> 2 ^ m" by auto
  from m(3) have "28 \<le> m" using power_increasing_iff [of "2 :: nat" 28 m] by simp
  with m have "DictExpand ty' (2 ^ 28) d = None"
    using size by (simp add: DictExpand_def alloc_table_large)
  then have "DictExpandIfNeeded ty' d = None" using size by (simp add: DictExpandIfNeeded_def)
  then show ?thesis by (simp add: DictAdd_def DictKeyIndex_def)
qed

lemma full_add:
  assumes "serving X c s" and "i < length (dict s)" and "\<not> room i s"
  shows "db_add k a i s = None"
proof -
  let ?d = "dict s ! i"
  have ok: "dict_ok sdsDictType (\<lambda>k. k) ?d" using dbs_okD [OF servingD(3) [OF assms(1)] assms(2)] .
  then have "unat (d_used ?d) = 2 ^ 27" using assms(2,3) dict_ok_tableD(4) [OF ok] by (simp add: room_def)
  from full_table [OF ok this, of sdsDictType k a] assms(2) show ?thesis by (simp add: db_add_def nth_opt_def)
qed

section \<open>Strings and keys\<close>

lemma server_ok_dict: "server_ok c s \<Longrightarrow> c_db c < length (dict s)"
  using servingD(4) server_okD(1) by blast

lemma dict_same:
  "create p s = (a, s1) \<Longrightarrow> dict s1 = dict s" "store_ptr a p s = Some s1 \<Longrightarrow> dict s1 = dict s"
  "decr a s = Some s1 \<Longrightarrow> dict s1 = dict s" "incr a s = Some s1 \<Longrightarrow> dict s1 = dict s"
  by (auto simp: create_def store_ptr_def decr_def incr_def split: prod.splits bind_splits)

lemma full_db:
  assumes "server_ok c s" and "i < length (dict s)" and "\<not> room i s" and "dict s1 = dict s"
  shows "db_add k b i s1 = None"
proof -
  have "db_add k b i s = None" by (rule full_add [OF server_okD(1) [OF assms(1)] assms(2,3)])
  then show ?thesis using assms(2,4) by (auto simp: db_add_def nth_opt_def split: bind_splits)
qed

lemma full_create:
  assumes "server_ok c s" and "\<not> room (c_db c) s" and "create p s = (a, s1)"
  shows "db_add k b (c_db c) s1 = None"
  using full_db [OF assms(1) server_ok_dict [OF assms(1)] assms(2) dict_same(1) [OF assms(3)]] .

lemma find_key_same: "dict s1 = dict s \<Longrightarrow> find_key c s1 = find_key c s"
  by (simp add: find_key_def db_of_def)

lemma kept_SetGeneric:
  assumes "server_ok c s"
  shows "kept (SetGenericCommand nx c s)"
proof (cases "arg 1 c = None \<or> arg 2 c = None \<or> \<not> room (c_db c) s")
  case True
  then have "SetGenericCommand nx c s = None"
    by (auto simp: SetGenericCommand_def Let_def full_create [OF assms] split: prod.splits bind_splits)
  then show ?thesis by simp
next
  case False
  then show ?thesis using SetGenericCommand_does [OF assms, of _ _ nx] by auto
qed

lemma kept_Get: "server_ok c s \<Longrightarrow> kept (GetCommand c s)"
  using GetCommand_does [of c s] by (cases "arg 1 c") (auto simp: GetCommand_def find_key_def)

lemma kept_Exists: "server_ok c s \<Longrightarrow> kept (ExistsCommand c s)"
  using ExistsCommand_does [of c s] by (cases "arg 1 c") (auto simp: ExistsCommand_def find_key_def)

lemma kept_Del: "server_ok c s \<Longrightarrow> kept (DelCommand c s)"
  using DelCommand_does [of c s] by (cases "arg 1 c") (auto simp: DelCommand_def)

lemma kept_IncrDecr:
  assumes "server_ok c s"
  shows "kept (IncrDecrCommand i c s)"
proof (cases "arg 1 c")
  case None
  then show ?thesis by (simp add: IncrDecrCommand_def find_key_def split: bind_split)
next
  case (Some k)
  let ?n = "num_of (keyspace s (c_db c) k) + i"
  show ?thesis
  proof (cases "?n < LLONG_MIN \<or> LLONG_MAX < ?n")
    case True
    then show ?thesis using IncrDecrCommand_overflow [OF assms Some refl] by simp
  next
    case False
    show ?thesis
    proof (cases "room (c_db c) s")
      case True
      then show ?thesis using IncrDecrCommand_does [OF assms True Some refl, of i] False by auto
    next
      case full: False
      then have "IncrDecrCommand i c s = None"
        by (auto simp: IncrDecrCommand_def Let_def full_create [OF assms full] split: prod.splits bind_splits)
      then show ?thesis by simp
    qed
  qed
qed

section \<open>Lists\<close>

text \<open>Replies, whatever they are.\<close>

lemma kept_reply:
  assumes "server_ok c s"
  shows "kept (AddReplySds t c s)" and "kept (reply_bulk a c s)"
    and "kept (reply_shared sh_ok c s)" and "kept (reply_shared sh_nil c s)" and "kept (reply_shared sh_zero c s)"
    and "kept (reply_shared sh_one c s)" and "kept (reply_shared sh_crlf c s)" and "kept (reply_shared sh_err c s)"
    and "kept (reply_shared sh_pong c s)"
proof -
  note S = server_okD [OF assms]
  show "kept (AddReplySds t c s)" using does_sds [OF S refl refl, of 0 t] by auto
  show "kept (reply_bulk a c s)"
  proof (cases "string_at (heap s) a")
    case (Some v)
    then have "obj_value (heap s) a = VString v" by (auto simp: string_at_def obj_value_def split: bind_splits optr.splits)
    from does_bulk [OF S this refl refl, of 0] show ?thesis by auto
  qed (simp add: reply_bulk_def)
  have sh: "kept (reply_shared f c s)" if "obj_value (heap s) (f (shared s)) = VString t" for f :: "SharedObject \<Rightarrow> addr" and t
    using does_shared [where f = f, OF S that refl refl, of 0] by auto
  note T = shared_texts [OF S(1)]
  show "kept (reply_shared sh_ok c s)" "kept (reply_shared sh_nil c s)" "kept (reply_shared sh_zero c s)"
    "kept (reply_shared sh_one c s)" "kept (reply_shared sh_crlf c s)" "kept (reply_shared sh_err c s)"
    "kept (reply_shared sh_pong c s)"
    using sh [where f = sh_ok, OF T(2)] sh [where f = sh_nil, OF T(4)] sh [where f = sh_zero, OF T(5)]
      sh [where f = sh_one, OF T(6)] sh [where f = sh_crlf, OF T(1)] sh [where f = sh_err, OF T(3)]
      sh [where f = sh_pong, OF T(7)] by blast+
qed

lemma kept_bulks: "server_ok c s \<Longrightarrow> kept (foldM (\<lambda>x (c, s). reply_bulk x c s) xs (c, s))"
proof (induction xs arbitrary: c s)
  case (Cons x xs)
  show ?case
    using kept_reply(2) [OF Cons.prems, of x] Cons.IH by (cases "reply_bulk x c s") auto
qed simp

lemma kept_Push:
  assumes "server_ok c s"
  shows "kept (PushGenericCommand side c s)"
proof (cases "arg 1 c = None \<or> arg 2 c = None")
  case True
  then show ?thesis by (auto simp: PushGenericCommand_def find_key_def Let_def split: prod.splits bind_split)
next
  case False
  then obtain k v where a: "arg 1 c = Some k" "arg 2 c = Some v" by auto
  show ?thesis
  proof (cases "keyspace s (c_db c) k = None \<and> \<not> room (c_db c) s")
    case True
    have full: "db_add k' b (c_db c) s1 = None" if "dict s1 = dict s" for k' b s1
      using full_db [OF assms server_ok_dict [OF assms] _ that] True by blast
    have find: "find_key (take_arg 2 c) s1 = Some None" if "dict s1 = dict s" for s1
      unfolding find_key_same [OF that]
      by (rule find_none(1) [of "{#}" _ _ k]) (use True a server_okD(1) [OF assms] in simp_all)
    have "PushGenericCommand side c s = None"
      by (auto simp: PushGenericCommand_def Let_def find full dict_same split: prod.splits bind_splits)
    then show ?thesis by simp
  next
    case False
    then show ?thesis using PushGenericCommand_does [OF assms _ a, of side] by (auto split: option.splits cvalue.splits)
  qed
qed

lemma kept_Pop:
  assumes "server_ok c s"
  shows "kept (PopGenericCommand side c s)"
proof (cases "arg 1 c")
  case (Some k)
  from PopGenericCommand_does [OF assms Some, of side] show ?thesis
    by (auto split: option.splits cvalue.splits if_splits)
qed (simp add: PopGenericCommand_def find_key_def split: bind_split)

lemma kept_LLen: "server_ok c s \<Longrightarrow> kept (LLenCommand c s)"
  using LLenCommand_does [of c s] by (cases "arg 1 c") (auto simp: LLenCommand_def find_key_def split: bind_split)

lemma kept_LIndex:
  assumes "server_ok c s"
  shows "kept (LIndexCommand c s)"
  unfolding LIndexCommand_def
  by (intro kept_bind) (auto simp: kept_reply [OF assms] split: option.splits optr.splits intro!: kept_bind)

lemma kept_LRange:
  assumes "server_ok c s"
  shows "kept (LRangeCommand c s)"
proof -
  have "server_ok c' s'" if "AddReplySds t c s = Some (c', s')" for t c' s'
    using kept_reply(1) [OF assms, of t] that by simp
  then show ?thesis
    unfolding LRangeCommand_def Let_def
    by (intro kept_bind) (auto simp: kept_reply [OF assms] split: option.splits optr.splits intro!: kept_bind kept_bulks)
qed

lemma del_end_keeps:
  assumes "server_ok c s" and "addr_map s i k = Some a" and "del_end side a s = Some s1"
  shows "server_ok c s1 \<and> addr_map s1 = addr_map s"
proof -
  note S = server_okD [OF assms(1)]
  from assms(3) obtain l where l: "ptr_at s a = Some (OList l)" "l \<noteq> []"
    by (auto simp: del_end_def split: bind_splits optr.splits)
  then obtain o' where "objs (heap s) a = Some o'" "optr o' = OList l" by (auto simp: ptr_at_def)
  then have "keyspace s i k = Some (VList (map (obj_str (heap s)) l))"
    using assms(2) by (simp add: keyspace_def obj_value_def)
  from del_end_ok [OF S this _ assms(2), of side] l(2) obtain h where
    "del_end side a s = Some (s\<lparr>heap := h\<rparr>)" "serving {#} c (s\<lparr>heap := h\<rparr>)" by auto
  then show ?thesis using assms(3) S(2) by (auto simp: server_ok_def)
qed

lemma del_ends_keep:
  assumes "server_ok c s" and "addr_map s i k = Some a" and "timesM n (del_end side a) s = Some s1"
  shows "server_ok c s1 \<and> addr_map s1 = addr_map s"
  using assms
proof (induction n arbitrary: s)
  case (Suc n)
  then show ?case by (auto split: option.splits dest: del_end_keeps)
qed simp

lemma found:
  assumes "server_ok c s" and "find_key c s = Some (Some (k, a))"
  shows "addr_map s (c_db c) k = Some a"
proof -
  from assms(2) obtain k' where k': "arg 1 c = Some k'" by (auto simp: find_key_def split: bind_splits)
  from find_key_ok [OF server_okD(1) [OF assms(1)] this] assms(2) show ?thesis
    by (cases "addr_map s (c_db c) k'") simp_all
qed

lemma server_ok_dirty [simp]: "server_ok c (s\<lparr>dirty := n\<rparr>) = server_ok c s"
  by (simp add: server_ok_def)

lemma kept_LTrim:
  assumes "server_ok c s"
  shows "kept (LTrimCommand c s)"
proof -
  have end1: "server_ok c s1" if "find_key c s = Some (Some (k, a))" "timesM n (del_end side a) s = Some s1" for k a n side s1
    using del_ends_keep [OF assms found [OF assms that(1)] that(2)] by blast
  have end2: "server_ok c s2"
    if "find_key c s = Some (Some (k, a))" "timesM n (del_end side a) s = Some s1"
      "timesM m (del_end side' a) s1 = Some s2" for k a n m side side' s1 s2
    using del_ends_keep [OF assms found [OF assms that(1)] that(2)] del_ends_keep that(3) found [OF assms that(1)] by metis
  have ok: "server_ok c2 s2" if "reply_shared sh_ok c s1 = Some (c2, s2)" "server_ok c s1" for c2 s1 s2
    using kept_reply(3) [OF that(2)] that(1) by simp
  show ?thesis
    unfolding LTrimCommand_def Let_def
    by (intro kept_bind, auto simp: kept_reply [OF assms] split: option.splits optr.splits prod.splits intro!: kept_bind)
      (metis ok end1 end2)+
qed

lemma kept_LSet:
  assumes "server_ok c s"
  shows "kept (LSetCommand c s)"
proof (cases "\<exists>k t v. arg 1 c = Some k \<and> arg 2 c = Some t \<and> arg 3 c = Some v \<and> atoi (cstr t) \<noteq> INT_MIN")
  case True
  then obtain k t v where "arg 1 c = Some k" "arg 2 c = Some t" "arg 3 c = Some v" "atoi (cstr t) \<noteq> INT_MIN" by blast
  from LSetCommand_does [OF assms this] show ?thesis by (auto split: option.splits cvalue.splits if_splits)
next
  case False
  then show ?thesis
    unfolding LSetCommand_def Let_def
    by (intro kept_bind) (auto simp: kept_reply [OF assms] list_index_def find_key_def
        split: option.splits optr.splits prod.splits bind_splits if_splits intro!: kept_bind)
qed

section \<open>Sets\<close>

lemma kept_SIsMember:
  assumes "server_ok c s"
  shows "kept (SIsMemberCommand c s)"
proof (cases "arg 1 c = None \<or> arg 2 c = None")
  case True
  then show ?thesis
    unfolding SIsMemberCommand_def Let_def
    by (intro kept_bind) (auto simp: kept_reply [OF assms] find_key_def
        split: option.splits optr.splits bind_splits intro!: kept_bind)
next
  case False
  then show ?thesis using SIsMemberCommand_does [OF assms] by auto
qed

lemma kept_SCard: "server_ok c s \<Longrightarrow> kept (SCardCommand c s)"
  using SCardCommand_does [of c s] by (cases "arg 1 c") (auto simp: SCardCommand_def find_key_def split: bind_split)

lemma kept_SRem:
  assumes "server_ok c s"
  shows "kept (SRemCommand c s)"
proof (cases "arg 1 c = None \<or> arg 2 c = None")
  case True
  then show ?thesis
    unfolding SRemCommand_def Let_def
    by (intro kept_bind) (auto simp: kept_reply [OF assms] find_key_def
        split: option.splits optr.splits bind_splits intro!: kept_bind)
next
  case False
  then obtain k v where "arg 1 c = Some k" "arg 2 c = Some v" by auto
  from SRemCommand_does [OF assms this] show ?thesis by (auto split: option.splits cvalue.splits)
qed

text \<open>The tables of \<open>SINTER\<close> were found under keys that hold sets.\<close>

lemma named_sets_found:
  assumes "serving X c s"
  shows "named_sets s (dict s ! c_db c) as = Some (Some ds) \<Longrightarrow>
    \<exists>ks. as = map Some ks \<and> length ks = length ds \<and> (\<forall>k \<in> set ks. \<exists>A. keyspace s (c_db c) k = Some (VSet A))"
proof (induction as arbitrary: ds)
  case (Cons a as)
  from Cons.prems obtain k a' d ds' where k: "a = Some k" "addr_map s (c_db c) k = Some a'"
    "ptr_at s a' = Some (OSet d)" "named_sets s (dict s ! c_db c) as = Some (Some ds')" "ds = d # ds'"
    using db_find_ok(1) [OF assms]
    by (auto split: bind_splits option.splits optr.splits)
  from Cons.IH [OF k(4)] obtain ks where "as = map Some ks" "length ks = length ds'"
    "\<forall>k \<in> set ks. \<exists>A. keyspace s (c_db c) k = Some (VSet A)" by blast
  moreover have "\<exists>A. keyspace s (c_db c) k = Some (VSet A)"
    using k(2,3) by (auto simp: keyspace_def obj_value_def ptr_at_def)
  ultimately show ?case using k(1,5) by (intro exI [of _ "k # ks"]) simp
qed simp

lemma kept_SInter:
  assumes "server_ok c s"
  shows "kept (SInterCommand c s)"
proof -
  note S = server_okD(1) [OF assms]
  consider "named_sets s (dict s ! c_db c) (drop 1 (argv c)) = None"
    | "named_sets s (dict s ! c_db c) (drop 1 (argv c)) = Some None"
    | "named_sets s (dict s ! c_db c) (drop 1 (argv c)) = Some (Some [])"
    | d ds where "named_sets s (dict s ! c_db c) (drop 1 (argv c)) = Some (Some (d # ds))"
    by (metis list.exhaust option.exhaust)
  then show ?thesis
  proof cases
    case 4
    from named_sets_found [OF S this] obtain ks where ks: "drop 1 (argv c) = map Some ks" "length ks = length (d # ds)"
      "\<forall>k \<in> set ks. \<exists>A. keyspace s (c_db c) k = Some (VSet A)" by blast
    from ks(2) have "ks \<noteq> []" by auto
    from SInterCommand_does [OF assms ks(1) this ks(3)] show ?thesis by auto
  qed (simp_all add: SInterCommand_eq db_find_ok [OF S] kept_reply [OF assms])
qed

lemma full_set_add:
  assumes "server_ok c s" and "keyspace s i k = Some (VSet A)" and "addr_map s i k = Some a" and "2 ^ 27 \<le> card A"
    and "create (OString (Some v)) s = (x, s1)"
  shows "set_add a x s1 = None"
proof -
  note S = server_okD(1) [OF assms(1)]
  from set_at_key [OF S assms(2)] assms(3) obtain o' d where
    d: "objs (heap s) a = Some o'" "optr o' = OSet d" "table_ok (heap s) d" "members_of (heap s) d = A" by auto
  have "unat (d_used d) = 2 ^ 27"
    using members_card(1) [OF d(3)] d(4) assms(4) dict_ok_tableD(4) [OF d(3)] by simp
  note full = full_table [OF d(3) this]
  note C = create_value [OF S assms(5), simplified]
  have "a \<noteq> x" using C(8) assms(3) by metis
  then have "ptr_at s1 a = Some (OSet d)" using C(10) d(1,2) by (simp add: ptr_at_def)
  then show ?thesis by (simp add: set_add_def full)
qed

lemma kept_SAdd:
  assumes "server_ok c s"
  shows "kept (SAddCommand c s)"
proof -
  consider (missing) "arg 1 c = None \<or> arg 2 c = None"
    | (full) k v where "arg 1 c = Some k" "arg 2 c = Some v" "keyspace s (c_db c) k = None" "\<not> room (c_db c) s"
    | (large) k v A where "arg 1 c = Some k" "arg 2 c = Some v" "keyspace s (c_db c) k = Some (VSet A)" "2 ^ 27 \<le> card A"
    | (fine) k v where "arg 1 c = Some k" "arg 2 c = Some v" "keyspace s (c_db c) k = None \<Longrightarrow> room (c_db c) s"
        "\<And>A. keyspace s (c_db c) k = Some (VSet A) \<Longrightarrow> card A < 2 ^ 27"
    by (metis option.exhaust not_less)
  then show ?thesis
  proof cases
    case missing
    then show ?thesis
      unfolding SAddCommand_split add_member_def Let_def
      by (intro kept_bind) (auto simp: kept_reply [OF assms] find_key_def
          split: option.splits optr.splits bind_splits prod.splits intro!: kept_bind)
  next
    case full
    have "find_key c s = Some None" by (rule find_none(1) [OF server_okD(1) [OF assms] full(1,3)])
    then have "SAddCommand c s = None"
      by (auto simp: SAddCommand_split Let_def full_create [OF assms full(4)] split: prod.splits bind_splits)
    then show ?thesis by simp
  next
    case large
    from find_some [OF server_okD(1) [OF assms] large(1,3)] obtain a where
      a: "find_key c s = Some (Some (k, a))" "addr_map s (c_db c) k = Some a" by auto
    have "add_member a c s = None"
      using large(2) by (auto simp: add_member_def Let_def full_set_add [OF assms large(3) a(2) large(4)]
          split: prod.splits bind_splits)
    then show ?thesis using a(1)
      by (auto simp: SAddCommand_split kept_reply [OF assms] split: optr.splits intro!: kept_bind)
  next
    case fine
    from SAddCommand_does [OF assms fine(3,1,2,4)] show ?thesis by (auto split: option.splits cvalue.splits)
  qed
qed

section \<open>Keys, databases and the server\<close>

lemma kept_Type:
  assumes "server_ok c s"
  shows "kept (TypeCommand c s)"
  using TypeCommand_does [OF assms] by (cases "arg 1 c") (auto simp: TypeCommand_def find_key_def split: bind_split)

lemma kept_Select:
  assumes "server_ok c s"
  shows "kept (SelectCommand c s)"
proof (cases "arg 1 c")
  case (Some t)
  from SelectCommand_does [OF assms Some refl] obtain c' s' K t n where
    "SelectCommand c s = Some (c', s')" "does c s K t n (Some (c', s'))" by (auto split: if_splits)
  then show ?thesis by auto
qed (simp add: SelectCommand_def)

lemma kept_Move:
  assumes "server_ok c s"
  shows "kept (MoveCommand c s)"
proof (cases "\<exists>k t. arg 1 c = Some k \<and> arg 2 c = Some t \<and> room (nat (atoi (cstr t))) s")
  case True
  then obtain k t where "room (nat (atoi (cstr t))) s" "arg 1 c = Some k" "arg 2 c = Some t" by blast
  from MoveCommand_does [OF assms this refl] show ?thesis by (auto split: option.splits if_splits)
next
  case False
  have full: "db_add k' b (nat (atoi (cstr t))) s = None"
    if "arg 1 c = Some k" "arg 2 c = Some t" "0 \<le> atoi (cstr t)" "atoi (cstr t) < db_num s" for k t k' b
    using full_db [OF assms, of "nat (atoi (cstr t))" s] False that servingD(3) [OF server_okD(1) [OF assms]]
    by (auto simp: dbs_ok_def nat_less_iff)
  have restored: "c\<lparr>c_db := i, c_db := c_db c\<rparr> = c" for i by simp
  have stay: "server_ok (c\<lparr>c_db := i\<rparr>) s" if "c_db c = i" for i
    using assms that by (cases c) simp
  show ?thesis
    unfolding MoveCommand_def SelectDB_def Let_def
    by (intro kept_bind) (auto simp: kept_reply assms full stay restored find_key_def CUTIS_OK_def CUTIS_ERR_def
        split: option.splits bind_splits prod.splits if_splits intro!: kept_bind kept_reply)
qed

lemma kept_Rename:
  assumes "server_ok c s"
  shows "kept (RenameGenericCommand nx c s)"
proof (cases "arg 1 c = None \<or> arg 2 c = None \<or> \<not> room (c_db c) s")
  case True
  have full: "db_add k' b (c_db c) s1 = None" if "\<not> room (c_db c) s" "dict s1 = dict s" for k' b s1
    using full_db [OF assms server_ok_dict [OF assms] that] .
  show ?thesis using True
    unfolding RenameGenericCommand_def
    by (intro kept_bind) (auto simp: kept_reply [OF assms] full dict_same
        split: option.splits bind_splits prod.splits intro!: kept_bind)
next
  case False
  then obtain k v where "room (c_db c) s" "arg 1 c = Some k" "arg 2 c = Some v" by auto
  from RenameGenericCommand_does [OF assms this, of nx] show ?thesis by (auto split: option.splits if_splits)
qed

lemma kept_Keys:
  assumes "server_ok c s"
  shows "kept (KeysCommand c s)"
  unfolding KeysCommand_def Let_def by (intro kept_bind) (simp add: kept_reply [OF assms])

lemma kept_Dbsize: "server_ok c s \<Longrightarrow> kept (DbsizeCommand c s)"
  using DbsizeCommand_does by blast

lemma kept_Echo:
  assumes "server_ok c s"
  shows "kept (EchoCommand c s)"
  using EchoCommand_does [OF assms] by (cases "arg 1 c") (auto simp: EchoCommand_def)

lemma server_ok_world [simp]: "server_ok c (s\<lparr>world := w\<rparr>) = server_ok c s"
  by (simp add: server_ok_def)

lemma kept_RandomKey:
  assumes "server_ok c s"
  shows "kept (RandomKeyCommand c s)"
proof -
  have w: "server_ok c (snd (syscall s))" using assms by (simp add: syscall_def split: prod.splits)
  have "server_ok c' s'" if "AddReplySds t c (snd (syscall s)) = Some (c', s')" for t c' s'
    using kept_reply(1) [OF w, of t] that by simp
  then show ?thesis
    unfolding RandomKeyCommand_def Let_def
    by (intro kept_bind) (auto simp: kept_reply w split: option.splits prod.splits intro!: kept_bind kept_reply)
qed

text \<open>Saving touches the world and the counters only.\<close>

definition data_of where
  "data_of s = (heap s, shared s, dict s, clients s, client_at s, db_num s)"

lemma data_of_upd [simp]:
  "data_of (s\<lparr>world := w\<rparr>) = data_of s" "data_of (s\<lparr>dirty := n\<rparr>) = data_of s"
  "data_of (s\<lparr>last_save := t\<rparr>) = data_of s" "data_of (s\<lparr>bg_saving := b\<rparr>) = data_of s"
  "data_of (set_file name x s) = data_of s" "data_of (s\<lparr>el := e\<rparr>) = data_of s"
  by (simp_all add: data_of_def set_file_def)

lemma same_data_ok:
  assumes "data_of s' = data_of s"
  shows "server_ok c s' = server_ok c s" and "keyspace s' = keyspace s"
proof -
  have d: "heap s' = heap s" "shared s' = shared s" "dict s' = dict s" "clients s' = clients s"
    "client_at s' = client_at s" "db_num s' = db_num s" using assms by (simp_all add: data_of_def)
  have r: "db_refs s' = db_refs s" "waiting s' = waiting s" "addr_map s' = addr_map s"
    by (simp_all add: d db_refs_def waiting_def addr_map_def fun_eq_iff)
  show "server_ok c s' = server_ok c s"
    by (simp add: server_ok_def serving_def db_inj_def all_refs_def server_refs_def shared_ok_def dbs_ok_def d r)
  show "keyspace s' = keyspace s" by (simp add: keyspace_def fun_eq_iff d r)
qed

lemma syscall_data: "syscall s = (x, s1) \<Longrightarrow> data_of s1 = data_of s"
  by (auto simp: syscall_def split: prod.splits)

lemma flush_data: "flush name buf s = (b, s1) \<Longrightarrow> data_of s1 = data_of s"
  by (auto simp: flush_def Let_def split: prod.splits dest!: syscall_data)

lemma fwrites_data: "fwrites name chs buf s = (b, buf', s1) \<Longrightarrow> data_of s1 = data_of s"
  by (induction chs arbitrary: buf s)
    (auto simp: fwrite_def Let_def split: prod.splits if_splits dest!: syscall_data flush_data)

lemma fclose_data: "fclose name buf s = (b, s1) \<Longrightarrow> data_of s1 = data_of s"
  by (auto simp: fclose_def split: prod.splits dest!: flush_data)

lemma SaveDB_data: "SaveDB name s = Some (r, s1) \<Longrightarrow> data_of s1 = data_of s"
  by (auto simp: SaveDB_def Let_def split: prod.splits if_splits bind_splits dest!: syscall_data fwrites_data fclose_data)

lemma SaveDBBackground_data: "SaveDBBackground name s = (r, s1) \<Longrightarrow> data_of s1 = data_of s"
  by (auto simp: SaveDBBackground_def Let_def split: prod.splits if_splits dest!: syscall_data)

lemma kept_Save:
  assumes "server_ok c s"
  shows "kept (SaveCommand c s)" and "kept (ShutDownCommand c s)" and "kept (BgsaveCommand c s)"
proof -
  have saved: "server_ok c s1" if "SaveDB name s = Some (r, s1)" for name r s1
    using same_data_ok(1) [OF SaveDB_data [OF that]] assms by simp
  have started: "server_ok c s1" if "SaveDBBackground name s = (r, s1)" for name r s1
    using same_data_ok(1) [OF SaveDBBackground_data [OF that]] assms by simp
  have el: "server_ok c (s1\<lparr>el := e\<rparr>) = server_ok c s1" for s1 e by (rule same_data_ok) simp
  show "kept (SaveCommand c s)" unfolding SaveCommand_def
    by (intro kept_bind) (auto intro: kept_reply dest: saved split: prod.splits)
  show "kept (ShutDownCommand c s)" unfolding ShutDownCommand_def
    by (intro kept_bind) (auto intro: kept_reply dest: saved simp: el split: prod.splits)
  show "kept (BgsaveCommand c s)" unfolding BgsaveCommand_def Let_def
    by (auto intro: kept_reply dest: started simp: assms split: prod.splits)
qed

section \<open>Every command of the table\<close>

lemma cmdTable_kept: "cm \<in> set cmdTable \<Longrightarrow> server_ok c s \<Longrightarrow> kept (cmd_proc cm c s)"
  unfolding cmdTable_def entry_def
  by (auto simp: SetCommand_def SetnxCommand_def IncrCommand_def DecrCommand_def RPushCommand_def LPushCommand_def
      RPopCommand_def LPopCommand_def RenameCommand_def RenamenxCommand_def PingCommand_def LastSaveCommand_def
      kept_SetGeneric kept_Get kept_Exists kept_Del kept_IncrDecr kept_Push kept_Pop kept_LLen kept_LIndex
      kept_LRange kept_LTrim kept_LSet kept_SAdd kept_SRem kept_SIsMember kept_SCard kept_SInter kept_Type
      kept_Select kept_Move kept_Rename kept_Keys kept_Dbsize kept_Echo kept_RandomKey kept_Save kept_reply)

end
