(* ===== verification/System.thy ===== *)
theory System
  imports Command_Invariant Server
begin

text \<open>
  The server between two events: all clients are in their table, and the counts, the databases and
  what waits to be sent are in order. Every handler of the event loop takes this invariant from one
  event to the next.
\<close>

section \<open>The invariant\<close>

text \<open>
  A client expects a request line, or the bulk argument of a request whose other arguments it has.
\<close>

definition conn_ok :: "CutisClient \<Rightarrow> bool" where
  "conn_ok c \<longleftrightarrow> bulk_len c = -1 \<and> argv c = [] \<or> 2 \<le> bulk_len c \<and> argc c < CUTIS_MAX_ARGS"

text \<open>The table of clients, with those in \<open>P\<close> taken out.\<close>

definition clients_ok :: "addr set \<Rightarrow> CutisServer \<Rightarrow> bool" where
  "clients_ok P s \<longleftrightarrow> distinct (clients s) \<and> P \<subseteq> set (clients s) \<and> dom (client_at s) = set (clients s) - P \<and>
     (\<forall>p c. client_at s p = Some c \<longrightarrow> c_id c = p \<and> c_db c < length (dict s) \<and> conn_ok c)"

definition idle_ok :: "CutisServer \<Rightarrow> bool" where
  "idle_ok s \<longleftrightarrow> heap_ok (server_refs s) (heap s) \<and> shared_ok s \<and> dbs_ok s \<and> db_inj s \<and>
     (\<forall>a \<in># waiting s. \<exists>t. obj_value (heap s) a = VString t) \<and> clients_ok {} s"

text \<open>A client that is being served.\<close>

definition busy_ok :: "CutisClient \<Rightarrow> CutisServer \<Rightarrow> bool" where
  "busy_ok c s \<longleftrightarrow> server_ok c s \<and> clients_ok {c_id c} s"

lemma waiting_take:
  assumes "distinct (clients s)" and "p \<in> set (clients s)"
  shows "waiting (s\<lparr>client_at := (client_at s)(p \<mapsto> c)\<rparr>) =
    mset (reply c) + waiting (s\<lparr>client_at := (client_at s)(p := None)\<rparr>)"
proof -
  from assms(2) obtain xs ys where s: "clients s = xs @ p # ys" by (meson split_list)
  let ?f = "\<lambda>m q. case m q of None \<Rightarrow> [] | Some c \<Rightarrow> reply c"
  have "p \<notin> set xs" "p \<notin> set ys" using assms(1) s by auto
  then have "map (?f ((client_at s)(p \<mapsto> c))) xs = map (?f ((client_at s)(p := None))) xs"
    "map (?f ((client_at s)(p \<mapsto> c))) ys = map (?f ((client_at s)(p := None))) ys" by auto
  then show ?thesis by (simp add: waiting_def s del: map_eq_conv fun_upd_apply) simp
qed

lemma table_upd [simp]:
  "db_refs (s\<lparr>client_at := m\<rparr>) = db_refs s" "shared_ok (s\<lparr>client_at := m\<rparr>) = shared_ok s"
  "dbs_ok (s\<lparr>client_at := m\<rparr>) = dbs_ok s" "db_inj (s\<lparr>client_at := m\<rparr>) = db_inj s"
  "keyspace (s\<lparr>client_at := m\<rparr>) = keyspace s" "pending c (s\<lparr>client_at := m\<rparr>) = pending c s"
  "db_refs (s\<lparr>clients := cs\<rparr>) = db_refs s" "shared_ok (s\<lparr>clients := cs\<rparr>) = shared_ok s"
  "dbs_ok (s\<lparr>clients := cs\<rparr>) = dbs_ok s" "db_inj (s\<lparr>clients := cs\<rparr>) = db_inj s"
  by (simp_all add: db_refs_def shared_ok_def dbs_ok_def db_inj_def addr_map_def keyspace_def pending_def fun_eq_iff)

lemma check_out:
  assumes "idle_ok s" and "client_at s p = Some c"
  shows "busy_ok c (s\<lparr>client_at := (client_at s)(p := None)\<rparr>)" and "conn_ok c" and "c_id c = p"
proof -
  let ?s = "s\<lparr>client_at := (client_at s)(p := None)\<rparr>"
  have I: "heap_ok (server_refs s) (heap s)" "shared_ok s" "dbs_ok s" "db_inj s" "clients_ok {} s"
    "\<forall>a \<in># waiting s. \<exists>t. obj_value (heap s) a = VString t" using assms(1) by (simp_all add: idle_ok_def)
  have C: "distinct (clients s)" "dom (client_at s) = set (clients s)" "c_id c = p" "c_db c < length (dict s)" "conn_ok c"
    "\<forall>p c. client_at s p = Some c \<longrightarrow> c_id c = p \<and> c_db c < length (dict s) \<and> conn_ok c"
    using I(5) assms(2) by (auto simp: clients_ok_def)
  have p: "p \<in> set (clients s)" using assms(2) C(2) by auto
  have "s\<lparr>client_at := (client_at s)(p \<mapsto> c)\<rparr> = s" using assms(2) by (simp add: fun_upd_idem)
  with waiting_take [OF C(1) p, of c] have w: "waiting s = mset (reply c) + waiting ?s" by simp
  have "heap_ok (all_refs {#} c ?s) (heap ?s)"
    using I(1) w by (simp add: all_refs_def server_refs_def ac_simps)
  then have "server_ok c ?s" using I(2-4,6) C(4) w by (simp add: server_ok_def serving_def)
  moreover have "clients_ok {p} ?s" using C p unfolding clients_ok_def by auto
  ultimately show "busy_ok c ?s" using C(3) by (simp add: busy_ok_def)
qed (use assms in \<open>auto simp: idle_ok_def clients_ok_def\<close>)

lemma check_in:
  assumes "busy_ok c s" and "conn_ok c"
  shows "idle_ok (s\<lparr>client_at := (client_at s)(c_id c \<mapsto> c)\<rparr>)"
proof -
  let ?s = "s\<lparr>client_at := (client_at s)(c_id c \<mapsto> c)\<rparr>"
  note S = server_okD [of c s] 
  have ok: "server_ok c s" "clients_ok {c_id c} s" using assms(1) by (simp_all add: busy_ok_def)
  note V = servingD [OF S(1) [OF ok(1)]]
  have C: "distinct (clients s)" "c_id c \<in> set (clients s)" "dom (client_at s) = set (clients s) - {c_id c}"
    using ok(2) by (simp_all add: clients_ok_def)
  then have "(client_at s)(c_id c := None) = client_at s" by (auto simp: fun_upd_idem_iff)
  then have w: "waiting ?s = mset (reply c) + waiting s" using waiting_take [OF C(1,2), of c] by simp
  have "heap_ok (server_refs ?s) (heap ?s)" using V(1) w by (simp add: all_refs_def server_refs_def ac_simps)
  moreover have "\<forall>a \<in># waiting ?s. \<exists>t. obj_value (heap ?s) a = VString t" using V(5) w by simp
  moreover have "clients_ok {} ?s" using ok(2) assms(2) V(4) unfolding clients_ok_def by auto
  ultimately show ?thesis using V(2,3) S(2) [OF ok(1)] by (simp add: idle_ok_def)
qed

section \<open>Serving one client\<close>

lemma busy_okD: "busy_ok c s \<Longrightarrow> server_ok c s" "busy_ok c s \<Longrightarrow> clients_ok {c_id c} s"
  by (simp_all add: busy_ok_def)

lemma clients_ok_config:
  "config s' = config s \<Longrightarrow> conn c' = conn c \<Longrightarrow> clients_ok {c_id c'} s' = clients_ok {c_id c} s"
  by (simp add: config_def conn_def clients_ok_def)

lemma busy_upd [simp]:
  "busy_ok (c\<lparr>argv := av\<rparr>) s = busy_ok c s" "busy_ok (c\<lparr>query_buf := q\<rparr>) s = busy_ok c s"
  "busy_ok (c\<lparr>bulk_len := n\<rparr>) s = busy_ok c s" "busy_ok (c\<lparr>last_interaction := t\<rparr>) s = busy_ok c s"
  "busy_ok (c\<lparr>sent_len := n\<rparr>) s = busy_ok c s" "busy_ok (ResetClient c) s = busy_ok c s"
  by (simp_all add: busy_ok_def server_ok_def serving_def all_refs_def ResetClient_def FreeClientArgv_def)

text \<open>A command leaves the client in order, with an argument vector that is then cleared.\<close>

lemma command_busy:
  assumes "busy_ok c s" and "cm \<in> set cmdTable" and "cmd_proc cm c s = Some (c', s')"
  shows "busy_ok c' s' \<and> c_id c' = c_id c \<and> query_buf c' = query_buf c"
proof -
  have "server_ok c' s'"
    using cmdTable_kept [OF assms(2) busy_okD(1) [OF assms(1)]] assms(3) by (simp add: kept_def)
  moreover have f: "conn c' = conn c" "config s' = config s"
    using cmdTable_framed [OF assms(2), of c s] assms(3) by (simp_all add: framed_def)
  then have "clients_ok {c_id c'} s'" using clients_ok_config busy_okD(2) [OF assms(1)] by blast
  ultimately show ?thesis using f(1) by (simp add: busy_ok_def conn_def)
qed

lemma FreeClient_ok:
  assumes "busy_ok c s"
  shows "\<exists>s'. FreeClient c s = Some s' \<and> idle_ok s' \<and> c_id c \<notin> set (clients s') \<and> keyspace s' = keyspace s"
proof -
  have ok: "server_ok c s" "clients_ok {c_id c} s" using assms by (simp_all add: busy_ok_def)
  note S = servingD [OF server_okD(1) [OF ok(1)]]
  have C: "distinct (clients s)" "c_id c \<in> set (clients s)" "dom (client_at s) = set (clients s) - {c_id c}"
    using ok(2) by (simp_all add: clients_ok_def)
  have "heap_ok (mset (reply c) + server_refs s) (heap s)" using S(1) by (simp add: all_refs_def)
  from store.decr_all [OF this] obtain h where h: "foldM DecrRefCount (reply c) (heap s) = Some h"
    "heap_ok (server_refs s) h" "\<forall>b \<in># server_refs s. obj_value h b = obj_value (heap s) b" by blast
  let ?e = "AeDeleteFileEvent (AeDeleteFileEvent (el s) (c_fd c) AE_READABLE) (c_fd c) AE_WRITABLE"
  let ?s = "s\<lparr>el := ?e, heap := h, clients := remove1 (c_id c) (clients s)\<rparr>"
  from C(2) obtain xs ys where xy: "clients s = xs @ c_id c # ys" "c_id c \<notin> set xs" by (meson split_list_first)
  have none: "client_at s (c_id c) = None" using C(3) by (auto simp: domIff)
  have w: "waiting ?s = waiting s" by (simp add: waiting_def xy none remove1_append)
  have r: "server_refs ?s = server_refs s" by (simp add: server_refs_def w db_refs_def)
  have am: "addr_map ?s = addr_map s" by (simp add: addr_map_def fun_eq_iff)
  have v: "obj_value h b = obj_value (heap s) b" if "b \<in># server_refs s" for b using h(3) that by blast
  have "shared_ok ?s" using S(2) v by (simp add: shared_ok_def Let_def server_refs_def shared_refs_def)
  moreover have "dbs_ok ?s" using S(3) v by (auto simp: dbs_ok_def db_refs_def server_refs_def)
  moreover have "\<forall>a \<in># waiting ?s. \<exists>t. obj_value (heap ?s) a = VString t"
    using S(5) v unfolding w by (auto simp: server_refs_def)
  moreover have "clients_ok {} ?s" using ok(2) C unfolding clients_ok_def by (auto simp: set_remove1_eq)
  moreover have "db_inj ?s" using server_okD(2) [OF ok(1)] by (simp add: db_inj_def am)
  ultimately have "idle_ok ?s" using h(2) r by (simp add: idle_ok_def)
  moreover have "c_id c \<notin> set (remove1 (c_id c) (clients s))" using C(1) by (simp add: set_remove1_eq)
  moreover have "keyspace ?s = keyspace s"
  proof (intro ext)
    fix i k
    show "keyspace ?s i k = keyspace s i k"
      using v addr_map_ref [OF S(3)] by (cases "addr_map s i k") (simp_all add: keyspace_def am server_refs_def)
  qed
  ultimately show ?thesis using h(1) C(2) by (simp add: FreeClient_def Let_def)
qed

text \<open>What a function that serves a client leaves behind.\<close>

definition leaves :: "addr \<Rightarrow> client_result \<Rightarrow> bool" where
  "leaves p r \<longleftrightarrow> (\<forall>n oc s. r = Some (n, oc, s) \<longrightarrow>
     (case oc of None \<Rightarrow> idle_ok s \<and> p \<notin> set (clients s) | Some c \<Rightarrow> busy_ok c s \<and> conn_ok c \<and> c_id c = p))"

lemma leaves_simps [simp]:
  "leaves p None" "leaves p (Some (n, None, s)) = (idle_ok s \<and> p \<notin> set (clients s))"
  "leaves p (Some (n, Some c, s)) = (busy_ok c s \<and> conn_ok c \<and> c_id c = p)"
  by (simp_all add: leaves_def)

lemma leaves_bind: "(\<And>x. m = Some x \<Longrightarrow> leaves p (f x)) \<Longrightarrow> leaves p (m \<bind> f)"
  by (cases m) auto

lemma reset_conn [simp]: "conn_ok (ResetClient c)" "c_id (ResetClient c) = c_id c" "query_buf (ResetClient c) = query_buf c"
  by (simp_all add: conn_ok_def ResetClient_def FreeClientArgv_def)

lemma free_leaves: "busy_ok c s \<Longrightarrow> leaves (c_id c) (FreeClient c s \<bind> (\<lambda>s. Some (n, None, s)))"
  using FreeClient_ok [of c s] by auto

lemma refuse_leaves:
  assumes "busy_ok c s"
  shows "leaves (c_id c) (refuse msg c s)"
proof -
  have "busy_ok c' s' \<and> c_id c' = c_id c" if "AddReplySds t c s = Some (c', s')" for t c' s'
    using kept_reply(1) [OF busy_okD(1) [OF assms], of t] that frame_AddReplySds [OF that]
      clients_ok_config [of s' s c' c] busy_okD(2) [OF assms] by (simp add: busy_ok_def conn_def)
  then show ?thesis unfolding refuse_def by (intro leaves_bind) auto
qed

lemma run_leaves:
  assumes "busy_ok c s" and "cm \<in> set cmdTable"
  shows "leaves (c_id c) (run_command cm c s)"
  unfolding run_command_def by (intro leaves_bind) (auto dest: command_busy [OF assms])

lemma ProcessCommand_leaves:
  assumes "busy_ok c s" and "argc c \<le> CUTIS_MAX_ARGS"
    and "bulk_len c = -1 \<or> 2 \<le> bulk_len c"
  shows "leaves (c_id c) (ProcessCommand c s)"
proof -
  have conn: "conn_ok (c\<lparr>argv := butlast av, bulk_len := n + 2\<rparr>)" if "length av \<le> CUTIS_MAX_ARGS" "0 \<le> n" for av n
    using that by (auto simp: conn_ok_def CUTIS_MAX_ARGS_def)
  have table: "cm \<in> set cmdTable" if "LookupCommand name = Some cm" for name cm
    using that by (simp add: LookupCommand_def) (metis find_SomeD)
  have refuse: "leaves (c_id c) (refuse msg (c\<lparr>argv := av\<rparr>) s)" for msg av
    using refuse_leaves [of "c\<lparr>argv := av\<rparr>" s msg] assms(1) by simp
  have run: "leaves (c_id c) (run_command cm (c\<lparr>argv := av\<rparr>) s)" if "cm \<in> set cmdTable" for cm av
    using run_leaves [of "c\<lparr>argv := av\<rparr>" s, OF _ that] assms(1) by simp
  have run2: "leaves (c_id c) (run_command cm (c\<lparr>bulk_len := n, argv := av, query_buf := q\<rparr>) s)" if "cm \<in> set cmdTable" for cm av n q
    using run_leaves [of "c\<lparr>bulk_len := n, argv := av, query_buf := q\<rparr>" s, OF _ that] assms(1) by simp
  have freed: "idle_ok s' \<and> c_id c \<notin> set (clients s')" if "FreeClient (c\<lparr>argv := av\<rparr>) s = Some s'" for av s'
    using FreeClient_ok [of "c\<lparr>argv := av\<rparr>" s] assms(1) that by simp
  show ?thesis
    unfolding ProcessCommand_def Let_def
    by (intro leaves_bind) (auto simp: assms conn refuse run run2 dest!: table freed
        split: option.splits intro!: leaves_bind)
qed

section \<open>Requests\<close>

lemma after_leaves: "leaves p m \<Longrightarrow> leaves p (after_process m)"
  unfolding after_process_def by (intro leaves_bind) (auto simp: leaves_def split: option.splits)

lemma collect_args_length: "length av \<le> CUTIS_MAX_ARGS \<Longrightarrow> length (collect_args ts av) \<le> CUTIS_MAX_ARGS"
  by (induction ts av rule: collect_args.induct) auto

lemma ParseBulkQuery_leaves:
  assumes "busy_ok c s" and "conn_ok c" and "bulk_len c \<noteq> -1"
  shows "leaves (c_id c) (ParseBulkQuery c s)"
proof -
  have b: "2 \<le> bulk_len c" "argc c < CUTIS_MAX_ARGS" using assms(2,3) by (auto simp: conn_ok_def)
  let ?c = "\<lambda>x q. c\<lparr>argv := argv c @ [x], query_buf := q\<rparr>"
  have "leaves (c_id c) (ProcessCommand (?c x q) s)" for x q
    using ProcessCommand_leaves [of "?c x q" s] assms(1) b by simp
  then show ?thesis unfolding ParseBulkQuery_def Let_def
    using assms b(2) by (auto intro!: leaves_bind after_leaves)
qed

lemma ParseNonBulkQuery_leaves:
  assumes "busy_ok c s" and "conn_ok c" and "bulk_len c = -1"
  shows "leaves (c_id c) (ParseNonBulkQuery c s)"
proof -
  have a: "argv c = []" using assms(2,3) by (simp add: conn_ok_def)
  let ?c = "\<lambda>ts q. c\<lparr>query_buf := q, argv := collect_args ts []\<rparr>"
  have "leaves (c_id c) (ProcessCommand (?c ts q) s)" for ts q
    using ProcessCommand_leaves [of "?c ts q" s] assms(1,3) collect_args_length [of "[]" ts] by simp
  moreover have "conn_ok (c\<lparr>query_buf := q\<rparr>)" for q using assms(2) by (simp add: conn_ok_def)
  ultimately show ?thesis unfolding ParseNonBulkQuery_def Let_def
    using assms a free_leaves [OF assms(1)] by (auto intro!: after_leaves split: option.splits)
qed

lemma parse_loop_leaves:
  assumes "busy_ok c s" and "conn_ok c"
  shows "leaves (c_id c) (parse_loop n c s)"
  using assms
proof (induction n arbitrary: c s)
  case (Suc n)
  let ?m = "if bulk_len c = -1 then ParseNonBulkQuery c s else ParseBulkQuery c s"
  have "leaves (c_id c) ?m"
    using ParseNonBulkQuery_leaves ParseBulkQuery_leaves Suc.prems by simp
  then show ?case
  proof (cases ?m)
    case (Some x)
    then obtain r oc s1 where m: "?m = Some (r, oc, s1)" by (cases x) auto
    with \<open>leaves (c_id c) ?m\<close> show ?thesis
      using Suc.IH [of "the oc" s1] by (cases oc) auto
  qed simp
qed simp

theorem ReadQueryFromClient_leaves:
  assumes "busy_ok c s" and "conn_ok c"
  shows "leaves (c_id c) (ReadQueryFromClient c s)"
proof -
  let ?s1 = "snd (syscall s)"
  have world: "busy_ok c (s\<lparr>world := w\<rparr>) = busy_ok c s" for w s
    by (simp add: busy_ok_def clients_ok_def)
  have s: "busy_ok c (snd (syscall s'))" if "busy_ok c s'" for s'
    using that by (simp add: syscall_def world split: prod.splits)
  have s2: "busy_ok c s2" if "syscall ?s1 = (t, s2)" for t s2
    using s [of ?s1] s [OF assms(1)] that by (cases "syscall ?s1") simp
  have "leaves (c_id c) (ParseQuery (c\<lparr>query_buf := q, last_interaction := t\<rparr>) s2)" if "syscall ?s1 = (t, s2)" for t s2 q
    using parse_loop_leaves [of "c\<lparr>query_buf := q, last_interaction := t\<rparr>" s2] s2 [OF that] assms(2)
    by (simp add: ParseQuery_def conn_ok_def del: parse_loop.simps)
  then show ?thesis
    using free_leaves [OF s [OF assms(1)]] s [OF assms(1)] assms(2)
    by (auto simp: ReadQueryFromClient_def Let_def split: read_result.splits prod.splits)
qed

section \<open>Replies\<close>

lemma del_first_busy:
  assumes "busy_ok c s" and "del_first_reply c s = Some (c', s')"
  shows "busy_ok c' s' \<and> c_id c' = c_id c \<and> conn_ok c' = conn_ok c"
proof -
  from assms(2) obtain a as where r: "reply c = a # as" "c' = c\<lparr>reply := as\<rparr>" "decr a s = Some s'"
    by (auto simp: del_first_reply_def split: list.splits bind_splits)
  note B = busy_okD [OF assms(1)]
  note S = server_okD [OF B(1)]
  have "serving {#a#} c' s" using S(1) r(1,2) by (simp add: serving_def all_refs_def)
  from decr_ok [of a "{#}" c' s] this r(3) obtain h where h: "s' = s\<lparr>heap := h\<rparr>" "serving {#} c' s'" by auto
  then have "server_ok c' s'" using S(2) by (simp add: server_ok_def)
  moreover have "clients_ok {c_id c'} s'" using B(2) r(2) h(1) by (simp add: clients_ok_def)
  ultimately show ?thesis using r(2) by (simp add: busy_ok_def conn_ok_def)
qed

lemma busy_world [simp]: "busy_ok c (s\<lparr>world := w\<rparr>) = busy_ok c s" "busy_ok c (s\<lparr>el := e\<rparr>) = busy_ok c s"
  by (simp_all add: busy_ok_def clients_ok_def server_ok_def)

lemma busy_syscall: "syscall s = (x, s') \<Longrightarrow> busy_ok c s' = busy_ok c s"
  by (auto simp: syscall_def split: prod.splits)

lemma busy_write: "write_call fd bs s = (x, s') \<Longrightarrow> busy_ok c s' = busy_ok c s"
  by (auto simp: write_call_def Let_def busy_syscall split: prod.splits)

text \<open>What every step of the sending loop keeps, the loop keeps.\<close>

lemma send_loop_preserves:
  assumes "send_loop nw w c s = Some r" and "P c s"
    and del: "\<And>c s c' s'. P c s \<Longrightarrow> del_first_reply c s = Some (c', s') \<Longrightarrow> P c' s'"
    and len: "\<And>c s n. P c s \<Longrightarrow> P (c\<lparr>sent_len := n\<rparr>) s"
    and sys: "\<And>c s fd bs x s'. P c s \<Longrightarrow> write_call fd bs s = (x, s') \<Longrightarrow> P c s'"
  shows "P (fst (snd (snd r))) (snd (snd (snd r)))"
proof -
  have "P c s \<longrightarrow> P (fst (snd (snd r))) (snd (snd (snd r)))"
  proof (rule send_loop.raw_induct [where P = "\<lambda>nw w c s r. P c s \<longrightarrow> P (fst (snd (snd r))) (snd (snd (snd r)))", OF _ assms(1)],
      intro impI, goal_cases)
    case (1 f nw w c s r)
    note IH = 1(1) and run = 1(2) and P = 1(3)
    show ?case
    proof (cases "reply c")
      case Nil
      then show ?thesis using run P by auto
    next
      case (Cons a as)
      then obtain msg where msg: "string_at (heap s) a = Some msg" using run by (auto split: bind_splits)
      obtain n s1 where sys1: "write_call (c_fd c) (take (nat (as_int (int (length msg)) - sent_len c))
          (drop (nat (sent_len c)) msg)) s = (n, s1)" by force
      note P1 = sys [OF P sys1]
      let ?c = "c\<lparr>sent_len := sent_len c + n\<rparr>"
      have "(\<exists>c1 s1. del_first_reply c s = Some (c1, s1) \<and> f nw w c1 s1 = Some r) \<or> r = (n, w, c, s1) \<or>
          (\<exists>c2 s2. del_first_reply ?c s1 = Some (c2, s2) \<and> f n (w + n) (c2\<lparr>sent_len := 0\<rparr>) s2 = Some r) \<or>
          f n (w + n) ?c s1 = Some r"
        using run Cons msg sys1 by (auto simp: Let_def split: bind_splits if_splits)
      then show ?thesis
        using IH P P1 del [OF P] del [OF len [OF P1]] len by (elim disjE exE conjE) (blast | simp)+
    qed
  qed
  then show ?thesis using assms(2) by blast
qed

lemma send_loop_well:
  assumes "send_loop nw w c s = Some (nw', w', c', s')" and "busy_ok c s" and "conn_ok c"
  shows "busy_ok c' s' \<and> conn_ok c' \<and> c_id c' = c_id c"
proof -
  let ?P = "\<lambda>c' s'. busy_ok c' s' \<and> conn_ok c' \<and> c_id c' = c_id c"
  have "?P (fst (snd (snd (nw', w', c', s')))) (snd (snd (snd (nw', w', c', s'))))"
  proof (rule send_loop_preserves [where P = ?P, OF assms(1)])
    fix c1 s1 c2 s2
    assume "?P c1 s1" and "del_first_reply c1 s1 = Some (c2, s2)"
    then show "?P c2 s2" using del_first_busy [of c1 s1 c2 s2] by simp
  next
    fix c1 s1 n
    assume "?P c1 s1"
    then show "?P (c1\<lparr>sent_len := n\<rparr>) s1" by (simp add: conn_ok_def)
  next
    fix c1 s1 fd bs x s2
    assume "?P c1 s1" and "write_call fd bs s1 = (x, s2)"
    then show "?P c1 s2" using busy_write [of fd bs s1 x s2 c1] by blast
  qed (use assms in simp)
  then show ?thesis by simp
qed

theorem SendReplyToClient_leaves:
  assumes "busy_ok c s" and "conn_ok c"
  shows "leaves (c_id c) (SendReplyToClient c s)"
proof -
  have loop: "busy_ok c' s' \<and> conn_ok c' \<and> c_id c' = c_id c" if "send_loop 0 0 c s = Some (nw, w, c', s')" for nw w c' s'
    using send_loop_well [OF that] assms by simp
  have conn: "conn_ok (c\<lparr>sent_len := n\<rparr>) = conn_ok c" "conn_ok (c\<lparr>last_interaction := t\<rparr>) = conn_ok c" for n t c
    by (simp_all add: conn_ok_def)
  have freed: "leaves (c_id c) (FreeClient c' s' \<bind> (\<lambda>s. Some (n, None, s)))" if "busy_ok c' s'" "c_id c' = c_id c" for c' s' n
    using free_leaves [OF that(1)] that(2) by metis
  show ?thesis
    unfolding SendReplyToClient_def Let_def
    by (intro leaves_bind) (auto simp: conn busy_syscall freed dest!: loop split: prod.splits)
qed

section \<open>Events\<close>

lemma with_client_idle:
  assumes "idle_ok s" and "with_client f p s = Some (r, s')"
    and "\<And>c s. busy_ok c s \<Longrightarrow> conn_ok c \<Longrightarrow> leaves (c_id c) (f c s)"
  shows "idle_ok s'"
proof -
  let ?s = "s\<lparr>client_at := (client_at s)(p := None)\<rparr>"
  from assms(2) obtain c oc s1 where f: "client_at s p = Some c" "f c ?s = Some (r, oc, s1)"
    "s' = s1\<lparr>client_at := (client_at s1)(p := oc)\<rparr>"
    by (auto simp: with_client_def split: bind_splits)
  note out = check_out [OF assms(1) f(1)]
  have l: "leaves p (Some (r, oc, s1))" using assms(3) [OF out(1,2)] f(2) out(3) by simp
  show ?thesis
  proof (cases oc)
    case None
    then have "idle_ok s1" "p \<notin> set (clients s1)" using l by simp_all
    moreover from this have "client_at s1 p = None" by (auto simp: idle_ok_def clients_ok_def)
    ultimately show ?thesis using f(3) None by (simp add: fun_upd_idem)
  next
    case (Some c1)
    then have "busy_ok c1 s1" "conn_ok c1" "c_id c1 = p" using l by simp_all
    with check_in [OF this(1,2)] f(3) Some show ?thesis by simp
  qed
qed

lemma idle_upd [simp]:
  "idle_ok (s\<lparr>el := e\<rparr>) = idle_ok s" "idle_ok (s\<lparr>world := w\<rparr>) = idle_ok s" "idle_ok (s\<lparr>dirty := n\<rparr>) = idle_ok s"
  "idle_ok (s\<lparr>cron_loops := n\<rparr>) = idle_ok s" "idle_ok (s\<lparr>last_save := t\<rparr>) = idle_ok s" "idle_ok (s\<lparr>bg_saving := b\<rparr>) = idle_ok s"
  by (simp_all add: idle_ok_def server_refs_def db_refs_def waiting_def shared_ok_def dbs_ok_def db_inj_def addr_map_def
      clients_ok_def)

lemma idle_syscall: "syscall s = (x, s') \<Longrightarrow> idle_ok s' = idle_ok s"
  by (auto simp: syscall_def split: prod.splits)

lemma AcceptHandler_idle:
  assumes "idle_ok s" and "p \<notin> set (clients s)" and "AcceptHandler p s = (r, s')"
  shows "idle_ok s'"
proof -
  have "idle_ok (CreateClient p fd s)" if "idle_ok s" "p \<notin> set (clients s)" for fd s
  proof -
    obtain now s1 where sys: "syscall s = (now, s1)" by force
    have s1: "idle_ok s1" "p \<notin> set (clients s1)" using idle_syscall [OF sys] that sys by (auto simp: syscall_def split: prod.splits)
    define c where "c = \<lparr>c_id = p, c_fd = fd, query_buf = [], reply = [], sent_len = 0, last_interaction = now,
       argv = [], bulk_len = -1, c_db = 0\<rparr>"
    have none: "client_at s1 p = None" using s1 by (auto simp: idle_ok_def clients_ok_def)
    have "0 < length (dict s1)" using s1(1) by (simp add: idle_ok_def dbs_ok_def)
    have sel: "snd (SelectDB c 0 s1) = c" by (simp add: SelectDB_def c_def)
    let ?s = "s1\<lparr>clients := clients s1 @ [p], client_at := (client_at s1)(p \<mapsto> c)\<rparr>"
    have w: "waiting ?s = waiting s1"
    proof -
      have "map (\<lambda>q. case ((client_at s1)(p \<mapsto> c)) q of None \<Rightarrow> [] | Some c \<Rightarrow> reply c) (clients s1) =
        map (\<lambda>q. case client_at s1 q of None \<Rightarrow> [] | Some c \<Rightarrow> reply c) (clients s1)"
        using s1(2) by (intro map_cong) auto
      then show ?thesis by (simp add: waiting_def del: map_eq_conv fun_upd_apply) (simp add: c_def)
    qed
    have r: "server_refs ?s = server_refs s1" by (simp add: server_refs_def w)
    have "clients_ok {} ?s" using s1 \<open>0 < length (dict s1)\<close> by (auto simp: idle_ok_def clients_ok_def c_def conn_ok_def)
    then have "idle_ok ?s" using s1(1) r w by (simp add: idle_ok_def)
    moreover have "CreateClient p fd s = ?s\<lparr>el := snd (AeCreateFileEvent (el s1) fd AE_READABLE ReadProc p)\<rparr>"
      using sys sel by (simp add: CreateClient_def c_def [symmetric] Let_def)
    ultimately show ?thesis by (simp only: idle_upd(1))
  qed
  moreover have "idle_ok s1 \<and> p \<notin> set (clients s1)" if "syscall s = (x, s1)" for x s1
    using idle_syscall [OF that] assms(1,2) that by (auto simp: syscall_def split: prod.splits)
  ultimately show ?thesis using assms(3)
    by (auto simp: AcceptHandler_def Let_def split: prod.splits if_splits)
qed

lemma close_if_idle_ok:
  assumes "idle_ok s" and "close_if_idle now p s = Some s'"
  shows "idle_ok s'"
proof -
  from assms(2) obtain c where c: "client_at s p = Some c" by (auto simp: close_if_idle_def split: bind_splits)
  from FreeClient_ok [OF check_out(1) [OF assms(1) c]] assms c show ?thesis
    by (auto simp: close_if_idle_def split: if_splits)
qed

lemma CloseTimeoutClients_ok: "idle_ok s \<Longrightarrow> CloseTimeoutClients s = Some s' \<Longrightarrow> idle_ok s'"
proof -
  have "idle_ok s1 \<Longrightarrow> foldM (close_if_idle now) ps s1 = Some s' \<Longrightarrow> idle_ok s'" for now ps s1
    by (induction ps arbitrary: s1) (auto split: bind_splits option.splits dest: close_if_idle_ok)
  note closed = this
  obtain now s1 where sys: "syscall s = (now, s1)" by force
  show "idle_ok s'" if "idle_ok s" "CloseTimeoutClients s = Some s'"
    using that closed [of s1 now "clients s1"] idle_syscall [OF sys] by (simp add: CloseTimeoutClients_def sys)
qed

text \<open>Resizing the tables changes the order of their entries at most.\<close>

lemma resize_db_ok:
  assumes "dict_ok sdsDictType (\<lambda>k. k) d" and "resize_db d = Some d'"
  shows "dict_ok sdsDictType (\<lambda>k. k) d' \<and> mset (entries d') = mset (entries d) \<and> dict_map (\<lambda>k. k) d' = dict_map (\<lambda>k. k) d"
  using assms resize_keeps_map [OF assms(1) dict_ok_tableD(4) [OF assms(1)]]
  by (auto simp: resize_db_def split: if_splits)

lemma mapM_Some: "mapM f xs = Some ys \<longleftrightarrow> list_all2 (\<lambda>x y. f x = Some y) xs ys"
proof (induction xs arbitrary: ys)
  case (Cons x xs)
  then show ?case by (cases ys; cases "f x"; cases "mapM f xs") auto
qed auto

lemma resize_all_ok:
  assumes "idle_ok s" and "mapM resize_db (dict s) = Some ds"
  shows "idle_ok (s\<lparr>dict := ds\<rparr>)" and "keyspace (s\<lparr>dict := ds\<rparr>) = keyspace s"
proof -
  let ?s = "s\<lparr>dict := ds\<rparr>"
  from assms(2) have all: "list_all2 (\<lambda>d d'. resize_db d = Some d') (dict s) ds" by (simp add: mapM_Some)
  have ok: "dict_ok sdsDictType (\<lambda>k. k) d" if "d \<in> set (dict s)" for d
    using assms(1) that by (auto simp: idle_ok_def dbs_ok_def)
  have len: "length ds = length (dict s)" using all by (simp add: list_all2_lengthD)
  have at: "dict_ok sdsDictType (\<lambda>k. k) (ds ! i) \<and> mset (entries (ds ! i)) = mset (entries (dict s ! i)) \<and>
    dict_map (\<lambda>k. k) (ds ! i) = dict_map (\<lambda>k. k) (dict s ! i)" if "i < length ds" for i
    using resize_db_ok [OF ok [OF nth_mem]] list_all2_nthD2 [OF all that] that len by simp
  have am: "addr_map ?s = addr_map s" using at len by (auto simp: addr_map_def fun_eq_iff)
  have "map (\<lambda>d. mset (map snd (entries d))) ds = map (\<lambda>d. mset (map snd (entries d))) (dict s)"
    using at len by (intro nth_equalityI) auto
  then have refs: "db_refs ?s = db_refs s" by (simp add: db_refs_def mset_concat comp_def)
  have w: "waiting ?s = waiting s" by (simp add: waiting_def)
  have "\<forall>d \<in> set ds. dict_ok sdsDictType (\<lambda>k. k) d" using at by (auto simp: in_set_conv_nth)
  moreover have "ds \<noteq> []" "db_num s = int (length ds)" using assms(1) len by (auto simp: idle_ok_def dbs_ok_def)
  ultimately have "dbs_ok ?s" using assms(1) by (simp add: dbs_ok_def refs) (simp add: idle_ok_def dbs_ok_def)
  then show "idle_ok ?s" using assms(1) len
    by (simp add: idle_ok_def server_refs_def refs w db_inj_def am clients_ok_def shared_ok_def)
  show "keyspace ?s = keyspace s" by (simp add: keyspace_def am fun_eq_iff)
qed

lemma check_background_idle: "idle_ok s \<Longrightarrow> check_background s = Some s' \<Longrightarrow> idle_ok s'"
  by (auto simp: check_background_def Let_def idle_syscall split: prod.splits if_splits)

lemma check_save_idle: "idle_ok s \<Longrightarrow> idle_ok (check_save s)"
  by (auto simp: check_save_def SaveDBBackground_def Let_def idle_syscall split: prod.splits)

theorem ServerCron_idle:
  assumes "idle_ok s" and "ServerCron s = Some (r, s')"
  shows "idle_ok s'"
proof -
  let ?s0 = "s\<lparr>cron_loops := cron_loops s + 1\<rparr>"
  from assms(2) obtain ds s1 where c: "mapM resize_db (dict ?s0) = Some ds"
    "(if cron_loops s smod 10 = 0 then CloseTimeoutClients (?s0\<lparr>dict := ds\<rparr>) else Some (?s0\<lparr>dict := ds\<rparr>)) = Some s1"
    "(if bg_saving s1 then check_background s1 else Some (check_save s1)) = Some s'"
    by (auto simp: ServerCron_def Let_def split: bind_splits)
  have "idle_ok (?s0\<lparr>dict := ds\<rparr>)" by (rule resize_all_ok [OF _ c(1)]) (simp add: assms(1))
  then have "idle_ok s1" using c(2) CloseTimeoutClients_ok by (auto split: if_splits)
  then show ?thesis using c(3) check_background_idle check_save_idle by (auto split: if_splits)
qed

text \<open>
  What can happen to the server: a connection is accepted, at memory no client occupies; a socket
  is ready; the timer runs; the loop registers its events.
\<close>

inductive event :: "CutisServer \<Rightarrow> CutisServer \<Rightarrow> bool" where
  accept: "p \<notin> set (clients s) \<Longrightarrow> AcceptHandler p s = (r, s') \<Longrightarrow> event s s'"
| readable: "with_client ReadQueryFromClient p s = Some (r, s') \<Longrightarrow> event s s'"
| writable: "with_client SendReplyToClient p s = Some (r, s') \<Longrightarrow> event s s'"
| cron: "ServerCron s = Some (r, s') \<Longrightarrow> event s s'"
| loop: "event s (s\<lparr>el := e\<rparr>)"

lemma event_idle: "event s s' \<Longrightarrow> idle_ok s \<Longrightarrow> idle_ok s'"
proof (induction rule: event.induct)
  case (accept p s r s')
  then show ?case by (blast intro: AcceptHandler_idle)
next
  case (readable p s r s')
  then show ?case by (blast intro: with_client_idle ReadQueryFromClient_leaves)
next
  case (writable p s r s')
  then show ?case by (blast intro: with_client_idle SendReplyToClient_leaves)
next
  case (cron s r s')
  then show ?case by (blast intro: ServerCron_idle)
qed simp

lemma events_idle: "event\<^sup>*\<^sup>* s s' \<Longrightarrow> idle_ok s \<Longrightarrow> idle_ok s'"
  by (induction rule: rtranclp_induct) (auto intro: event_idle)

end
