(* ===== verification/Protocol.thy ===== *)
theory Protocol
  imports System
begin

text \<open>
  The protocol of a client (\<open>client.c\<close>, \<open>ProcessCommand\<close>): parsing never runs out of rounds, a request
  that was written according to the protocol runs its command with the arguments that were written,
  however it arrives, and what is refused is answered with an error.
\<close>

section \<open>Every round takes bytes out of the buffer\<close>

text \<open>What is left of the query buffer is at most \<open>n\<close> bytes long.\<close>

definition buffered :: "nat \<Rightarrow> client_result \<Rightarrow> bool" where
  "buffered n r \<longleftrightarrow> (\<forall>m c s. r = Some (m, Some c, s) \<longrightarrow> length (query_buf c) \<le> n)"

lemma buffered_simps [simp]:
  "buffered n None" "buffered n (Some (m, None, s))"
  "buffered n (Some (m, Some c, s)) = (length (query_buf c) \<le> n)"
  by (simp_all add: buffered_def)

lemma buffered_bind: "(\<And>x. m = Some x \<Longrightarrow> buffered n (f x)) \<Longrightarrow> buffered n (m \<bind> f)"
  by (cases m) auto

lemma command_query:
  "cm \<in> set cmdTable \<Longrightarrow> cmd_proc cm c s = Some (c', s') \<Longrightarrow> query_buf c' = query_buf c"
  using cmdTable_framed [of cm c s] by (simp add: framed_def conn_def)

lemma run_buffered:
  "cm \<in> set cmdTable \<Longrightarrow> length (query_buf c) \<le> n \<Longrightarrow> buffered n (run_command cm c s)"
  unfolding run_command_def by (intro buffered_bind) (auto dest: command_query)

lemma refuse_buffered: "length (query_buf c) \<le> n \<Longrightarrow> buffered n (refuse msg c s)"
  unfolding refuse_def by (intro buffered_bind) (auto dest!: frame_AddReplySds simp: conn_def)

lemma table_command: "LookupCommand name = Some cm \<Longrightarrow> cm \<in> set cmdTable"
  by (simp add: LookupCommand_def) (metis find_SomeD)

lemma range_tail:
  assumes "0 < k" and "k \<le> int (length t)"
  shows "range_spec t k (-1) = drop (nat k) t"
  using range_spec_drop [of "nat k" t] assms by simp

lemma ProcessCommand_buffered: "buffered (length (query_buf c)) (ProcessCommand c s)"
  unfolding ProcessCommand_def Let_def
  by (intro buffered_bind) (auto split: option.splits intro!: buffered_bind run_buffered refuse_buffered
      simp: range_tail dest: table_command)

lemma after_buffered: "buffered n m \<Longrightarrow> buffered n (after_process m)"
  unfolding after_process_def by (intro buffered_bind) (auto simp: buffered_def)

lemma newline_at_less: "newline_at q = Some p \<Longrightarrow> p < length q"
  using strlen_le [of q] by (auto simp: newline_at_def Let_def split: if_splits)

text \<open>One round of the loop of \<open>ParseQuery\<close>.\<close>

definition parse_round :: "CutisClient \<Rightarrow> CutisServer \<Rightarrow> client_result" where
  "parse_round c s = (if bulk_len c = -1 then ParseNonBulkQuery c s else ParseBulkQuery c s)"

lemma round_shrinks:
  assumes "conn_ok c" and "parse_round c s = Some (CUTIS_AGAIN, Some c', s')"
  shows "length (query_buf c') < length (query_buf c)"
proof (cases "bulk_len c = -1")
  case True
  then obtain p where p: "newline_at (query_buf c) = Some p"
    using assms(2) by (auto simp: parse_round_def ParseNonBulkQuery_def CUTIS_AGAIN_def CUTIS_OK_def
        split: option.splits if_splits bind_splits)
  let ?c = "\<lambda>av. c\<lparr>query_buf := drop (Suc p) (query_buf c), argv := av\<rparr>"
  from p True assms(2) obtain av where "after_process (ProcessCommand (?c av) s) = Some (CUTIS_AGAIN, Some c', s')"
    by (auto simp: parse_round_def ParseNonBulkQuery_def CUTIS_AGAIN_def CUTIS_OK_def Let_def split: if_splits)
  with after_buffered [OF ProcessCommand_buffered [of "?c av" s]] newline_at_less [OF p] show ?thesis by simp
next
  case False
  then have b: "2 \<le> bulk_len c" using assms(1) by (simp add: conn_ok_def)
  let ?c = "\<lambda>av. c\<lparr>argv := av, query_buf := range_spec (query_buf c) (bulk_len c) (-1)\<rparr>"
  from False assms(2) obtain av where "bulk_len c \<le> int (length (query_buf c))"
    "after_process (ProcessCommand (?c av) s) = Some (CUTIS_AGAIN, Some c', s')"
    by (auto simp: parse_round_def ParseBulkQuery_def CUTIS_AGAIN_def CUTIS_OK_def Let_def split: if_splits bind_splits)
  with after_buffered [OF ProcessCommand_buffered [of "?c av" s]] b show ?thesis by (simp add: range_tail)
qed

lemma round_leaves: "busy_ok c s \<Longrightarrow> conn_ok c \<Longrightarrow> leaves (c_id c) (parse_round c s)"
  using ParseNonBulkQuery_leaves ParseBulkQuery_leaves by (simp add: parse_round_def)

lemma parse_loop_round:
  "parse_loop (Suc n) c s =
     parse_round c s \<bind> (\<lambda>(res, oc, s). case oc of
       Some c \<Rightarrow> if res = CUTIS_AGAIN then parse_loop n c s else Some (res, Some c, s)
     | None \<Rightarrow> Some (res, None, s))"
  by (simp add: parse_round_def)

declare parse_loop.simps(2) [simp del]

lemma parse_loop_enough:
  assumes "busy_ok c s" and "conn_ok c" and "length (query_buf c) < n" and "length (query_buf c) < m"
  shows "parse_loop n c s = parse_loop m c s"
  using assms
proof (induction n arbitrary: c s m)
  case (Suc n)
  then obtain m' where m: "m = Suc m'" by (cases m) auto
  show ?case
  proof (cases "parse_round c s")
    case (Some x)
    then obtain res oc s1 where x: "parse_round c s = Some (res, oc, s1)" by (cases x) auto
    have "parse_loop n c1 s1 = parse_loop m' c1 s1" if "oc = Some c1" "res = CUTIS_AGAIN" for c1
    proof (rule Suc.IH)
      show "busy_ok c1 s1" "conn_ok c1" using round_leaves [OF Suc.prems(1,2)] x that by simp_all
      show "length (query_buf c1) < n" "length (query_buf c1) < m'"
        using round_shrinks [OF Suc.prems(2)] x that Suc.prems(3,4) m by force+
    qed
    then show ?thesis using x by (simp add: m parse_loop_round split: option.splits)
  qed (simp add: m parse_loop_round)
qed simp

text \<open>So \<open>ParseQuery\<close> is the loop of the code, without a bound.\<close>

lemma ParseQuery_round:
  assumes "busy_ok c s" and "conn_ok c"
  shows "ParseQuery c s = parse_round c s \<bind> (\<lambda>(res, oc, s). case oc of
       Some c \<Rightarrow> if res = CUTIS_AGAIN then ParseQuery c s else Some (res, Some c, s)
     | None \<Rightarrow> Some (res, None, s))"
proof (cases "parse_round c s")
  case (Some x)
  then obtain res oc s1 where x: "parse_round c s = Some (res, oc, s1)" by (cases x) auto
  have "parse_loop (length (query_buf c)) c1 s1 = ParseQuery c1 s1" if "oc = Some c1" "res = CUTIS_AGAIN" for c1
    unfolding ParseQuery_def
  proof (rule parse_loop_enough)
    show "busy_ok c1 s1" "conn_ok c1" using round_leaves [OF assms] x that by simp_all
  qed (use round_shrinks [OF assms(2)] x that in force)+
  then show ?thesis using x by (simp add: ParseQuery_def [of c] parse_loop_round split: option.splits)
qed (simp add: ParseQuery_def parse_loop_round)

section \<open>Requests on the wire\<close>

text \<open>The words of a line with blanks between them, and its end.\<close>

fun joined :: "string list \<Rightarrow> string" where
  "joined [] = []"
| "joined [w] = w"
| "joined (w # v # ws) = w @ CHR '' '' # joined (v # ws)"

definition wire_word :: "string \<Rightarrow> bool" where
  "wire_word w \<longleftrightarrow> w \<noteq> [] \<and> CHR '' '' \<notin> set w \<and> LF \<notin> set w \<and> CR \<notin> set w \<and> NUL \<notin> set w"

lemma joined_fields: "ws \<noteq> [] \<Longrightarrow> list_all wire_word ws \<Longrightarrow> Sds.fields (CHR '' '') (joined ws) = ws"
  by (induction ws rule: joined.induct) (auto simp: wire_word_def fields_no_sep fields_app)

lemma joined_chars:
  "list_all wire_word ws \<Longrightarrow> ch \<in> set (joined ws) \<Longrightarrow> ch \<noteq> LF \<and> ch \<noteq> NUL \<and> ch \<noteq> CR"
  by (induction ws rule: joined.induct) (auto simp: wire_word_def control_chars)

lemma joined_nonempty: "ws \<noteq> [] \<Longrightarrow> list_all wire_word ws \<Longrightarrow> joined ws \<noteq> []"
  by (induction ws rule: joined.induct) (auto simp: wire_word_def)

lemma newline_at_none: "LF \<notin> set q \<Longrightarrow> newline_at q = None"
proof -
  assume "LF \<notin> set q"
  then have "\<forall>x \<in> set (cstr q). x \<noteq> LF" by (auto simp: cstr_def dest: set_takeWhileD)
  then have "takeWhile (\<lambda>ch. ch \<noteq> LF) (cstr q) = cstr q" by (simp only: takeWhile_eq_all_conv)
  then show ?thesis unfolding newline_at_def Let_def strlen_def by (simp only: less_irrefl if_False)
qed

lemma newline_at_some:
  assumes "LF \<notin> set x" and "NUL \<notin> set x"
  shows "newline_at (x @ LF # r) = Some (length x)"
proof -
  have "cstr (x @ LF # r) = x @ LF # cstr r" 
    using assms(2) by (induction x) (auto simp: cstr_def control_chars)
  moreover from this have "takeWhile (\<lambda>ch. ch \<noteq> LF) (cstr (x @ LF # r)) = x"
    using assms(1) by (auto simp: takeWhile_append)
  ultimately show ?thesis by (simp add: newline_at_def strlen_def)
qed

lemma collect_args_all:
  "list_all wire_word ws \<Longrightarrow> length av + length ws \<le> CUTIS_MAX_ARGS \<Longrightarrow> collect_args ws av = av @ map Some ws"
  by (induction ws arbitrary: av) (auto simp: wire_word_def)

lemma line_parsed:
  assumes "ws \<noteq> []" and "list_all wire_word ws" and "length ws \<le> CUTIS_MAX_ARGS"
    and "argv c = []" and "query_buf c = joined ws @ crlf @ rest"
  shows "ParseNonBulkQuery c s = after_process (ProcessCommand (c\<lparr>query_buf := rest, argv := map Some ws\<rparr>) s)"
proof -
  let ?x = "joined ws @ [CR]"
  have q: "query_buf c = ?x @ LF # rest" using assms(5) by (simp add: crlf_def)
  have "newline_at (query_buf c) = Some (length ?x)"
    unfolding q by (rule newline_at_some) (use joined_chars [OF assms(2)] in \<open>auto simp: control_chars\<close>)
  moreover have "take (length ?x) (query_buf c) = ?x" "drop (Suc (length ?x)) (query_buf c) = rest"
    unfolding q by simp_all
  moreover have "chomp ?x = joined ws" by (simp add: chomp_def)
  ultimately show ?thesis
    using assms(1,2,4) joined_nonempty joined_fields collect_args_all [of ws "[]"] assms(3)
    by (simp add: ParseNonBulkQuery_def Let_def)
qed

text \<open>Names in the table are unique, in lower case and without NUL.\<close>

lemma table_names:
  "distinct (map cmd_name cmdTable)" "list_all (\<lambda>cm. NUL \<notin> set (cmd_name cm) \<and> cmd_name cm \<noteq> ''quit'') cmdTable"
  by code_simp+

lemma find_unique: "distinct (map f xs) \<Longrightarrow> x \<in> set xs \<Longrightarrow> \<forall>y \<in> set xs. P y \<longleftrightarrow> f y = f x \<Longrightarrow> find P xs = Some x"
  by (induction xs) (auto simp: image_iff)

lemma Lookup_table:
  assumes "cm \<in> set cmdTable"
  shows "LookupCommand (cmd_name cm) = Some cm" and "\<not> strcmp_eq (cmd_name cm) ''quit''"
proof -
  have n: "cstr (cmd_name x) = cmd_name x" "cmd_name x \<noteq> ''quit''" if "x \<in> set cmdTable" for x
    using table_names(2) that by (auto simp: list_all_iff cstr_no_nul)
  show "LookupCommand (cmd_name cm) = Some cm"
    unfolding LookupCommand_def using n assms by (intro find_unique [OF table_names(1)]) (auto simp: strcmp_eq_def)
  have "cstr ''quit'' = ''quit''" by code_simp
  then show "\<not> strcmp_eq (cmd_name cm) ''quit''" using n [OF assms] by (simp add: strcmp_eq_def)
qed

text \<open>
  A request for a command with the arguments \<open>ws\<close>, its name first: a line with the words; when the
  last argument is bulk, a line with its length in its place, then its bytes.
\<close>

definition is_bulk :: "CutisCommand \<Rightarrow> bool" where
  "is_bulk cm \<longleftrightarrow> cmd_type cm = CUTIS_CMD_BULK"

definition request :: "CutisCommand \<Rightarrow> string list \<Rightarrow> string" where
  "request cm ws =
     (if is_bulk cm then joined (butlast ws @ [show_int (int (length (last ws)))]) @ crlf @ last ws @ crlf
      else joined ws @ crlf)"

definition request_ok :: "CutisCommand \<Rightarrow> string list \<Rightarrow> bool" where
  "request_ok cm ws \<longleftrightarrow>
     2 \<le> length ws + (if is_bulk cm then 0 else 1) \<and> length ws \<le> CUTIS_MAX_ARGS \<and>
     map tolower (hd ws) = cmd_name cm \<and>
     \<not> ((arity cm > 0 \<and> arity cm \<noteq> int (length ws)) \<or> int (length ws) < - arity cm) \<and>
     list_all wire_word (if is_bulk cm then butlast ws else ws) \<and>
     (is_bulk cm \<longrightarrow> int (length (last ws)) \<le> CUTIS_MAX_STRING_LENGTH)"

text \<open>The client when the command starts: its arguments, and what follows the request.\<close>

definition ready :: "CutisCommand \<Rightarrow> string list \<Rightarrow> string \<Rightarrow> CutisClient \<Rightarrow> CutisClient" where
  "ready cm ws rest c = c\<lparr>argv := map Some (cmd_name cm # tl ws), query_buf := rest,
     bulk_len := (if is_bulk cm then int (length (last ws)) + 2 else -1)\<rparr>"

text \<open>What happens then: the command runs, and the rest of the buffer is parsed.\<close>

definition run_request :: "CutisCommand \<Rightarrow> string list \<Rightarrow> string \<Rightarrow> CutisClient \<Rightarrow> CutisServer \<Rightarrow> client_result" where
  "run_request cm ws rest c s =
     do { (c, s) \<leftarrow> cmd_proc cm (ready cm ws rest c) s;
          if rest = [] then Some (CUTIS_OK, Some (ResetClient c), s) else ParseQuery (ResetClient c) s }"

lemma wire_number: "wire_word (show_int (int n))"
proof -
  have d: "isdigit ch" if "ch \<in> set (show_nat n)" for ch
    using show_nat_digits [of n] that by (auto simp: list_all_iff)
  have "\<not> isdigit (CHR '' '')" "\<not> isdigit LF" "\<not> isdigit CR" "\<not> isdigit NUL" by code_simp+
  with d have "CHR '' '' \<notin> set (show_nat n)" "LF \<notin> set (show_nat n)" "CR \<notin> set (show_nat n)" "NUL \<notin> set (show_nat n)"
    by blast+
  then show ?thesis by (simp add: wire_word_def show_int_def)
qed

lemma number_read:
  assumes "int n \<le> CUTIS_MAX_STRING_LENGTH"
  shows "atoi (cstr (show_int (int n))) = int n"
proof -
  have "cstr (show_int (int n)) = show_int (int n)" using wire_number by (intro cstr_no_nul) (simp add: wire_word_def)
  then show ?thesis using assms atoi_show_int [of "int n"] by (simp add: c_limits CUTIS_MAX_STRING_LENGTH_def)
qed

text \<open>What \<open>ProcessCommand\<close> does once the command is found and has enough arguments.\<close>

definition take_bulk :: "CutisCommand \<Rightarrow> CutisClient \<Rightarrow> CutisServer \<Rightarrow> int \<Rightarrow> client_result" where
  "take_bulk cm c s len =
     (if int (length (query_buf c)) \<ge> len + 2 then
        run_command cm (c\<lparr>bulk_len := len + 2, argv := argv c @ [Some (take (nat len) (query_buf c))],
          query_buf := range_spec (query_buf c) (len + 2) (-1)\<rparr>) s
      else Some (1, Some (c\<lparr>bulk_len := len + 2\<rparr>), s))"

lemma process_found:
  assumes "cm \<in> set cmdTable" and "arg 0 c = Some w" and "map tolower w = cmd_name cm"
    and "\<not> ((arity cm > 0 \<and> arity cm \<noteq> int (argc c)) \<or> int (argc c) < - arity cm)"
  shows "ProcessCommand c s =
    (let c = c\<lparr>argv := (argv c)[0 := Some (cmd_name cm)]\<rparr> in
     if is_bulk cm \<and> bulk_len c = -1 then
       arg (argc c - 1) c \<bind> (\<lambda>a. let len = atoi (cstr a); c = c\<lparr>argv := butlast (argv c)\<rparr> in
         if len < 0 \<or> len > CUTIS_MAX_STRING_LENGTH then refuse ''invalid bulk write count'' c s
         else take_bulk cm c s len)
     else run_command cm c s)"
proof -
  have a: "((0 < arity cm \<and> arity cm \<noteq> int (argc c)) \<or> int (argc c) < - arity cm) = False" using assms(4) by blast
  show ?thesis
    by (simp add: ProcessCommand_def assms(2,3) Lookup_table [OF assms(1)] a take_bulk_def is_bulk_def Let_def
        cong: if_cong)
qed

lemma request_found:
  assumes "cm \<in> set cmdTable" and "request_ok cm ws"
  shows "ws \<noteq> []" and "map tolower (hd ws) = cmd_name cm" and "map tolower (cmd_name cm) = cmd_name cm"
    and "\<not> ((arity cm > 0 \<and> arity cm \<noteq> int (length ws)) \<or> int (length ws) < - arity cm)"
proof -
  show w: "ws \<noteq> []" "map tolower (hd ws) = cmd_name cm"
    and "\<not> ((arity cm > 0 \<and> arity cm \<noteq> int (length ws)) \<or> int (length ws) < - arity cm)"
    using assms(2) by (auto simp: request_ok_def split: if_splits)
  show "map tolower (cmd_name cm) = cmd_name cm" by (simp flip: w(2))
qed

lemma process_inline:
  assumes "cm \<in> set cmdTable" and "request_ok cm ws" and "\<not> is_bulk cm" and "argv c = map Some ws"
  shows "ProcessCommand c s = run_command cm (c\<lparr>argv := map Some (cmd_name cm # tl ws)\<rparr>) s"
proof -
  note F = request_found [OF assms(1,2)]
  have w: "arg 0 c = Some (hd ws)" "argc c = length ws" "(argv c)[0 := Some (cmd_name cm)] = map Some (cmd_name cm # tl ws)"
    using F(1) assms(4) by (cases ws; simp add: arg_def)+
  show ?thesis using process_found [OF assms(1) w(1) F(2), of s] F(4) w(2,3) assms(3) by simp
qed

lemma process_bulk_ready:
  assumes "cm \<in> set cmdTable" and "request_ok cm ws" and "argv c = map Some (cmd_name cm # tl ws)"
    and "bulk_len c \<noteq> -1"
  shows "ProcessCommand c s = run_command cm c s"
proof -
  note F = request_found [OF assms(1,2)]
  have w: "arg 0 c = Some (cmd_name cm)" "argc c = length ws" "(argv c)[0 := Some (cmd_name cm)] = argv c"
    using F(1) assms(3) by (cases ws; simp add: arg_def)+
  show ?thesis using process_found [OF assms(1) w(1) F(3), of s] F(4) w(2) assms(4) by (simp add: w(3))
qed

lemma arg_last: "argv c = xs @ [x] \<Longrightarrow> arg (argc c - 1) c = x"
  by (simp add: arg_def)

lemma process_bulk_line:
  assumes "cm \<in> set cmdTable" and "request_ok cm ws" and "is_bulk cm" and "bulk_len c = -1"
    and "argv c = map Some (butlast ws @ [show_int (int (length (last ws)))])"
  shows "ProcessCommand c s =
    take_bulk cm (c\<lparr>argv := map Some (butlast (cmd_name cm # tl ws))\<rparr>) s (int (length (last ws)))"
proof -
  note F = request_found [OF assms(1,2)]
  let ?n = "length (last ws)"
  obtain w v vs where ws: "ws = w # v # vs" using assms(2,3)
    by (cases ws; cases "tl ws") (auto simp: request_ok_def)
  then have a: "arg 0 c = Some (hd ws)" "argc c = length ws"
    "(argv c)[0 := Some (cmd_name cm)] = map Some (butlast (cmd_name cm # tl ws)) @ [Some (show_int (int ?n))]"
    using assms(5) by (simp_all add: arg_def)
  let ?c = "c\<lparr>argv := (argv c)[0 := Some (cmd_name cm)]\<rparr>"
  have l: "arg (argc ?c - 1) ?c = Some (show_int (int ?n))"
    by (rule arg_last [of _ "map Some (butlast (cmd_name cm # tl ws))"]) (simp add: a(3))
  have n: "atoi (cstr (show_int (int ?n))) = int ?n" "int ?n \<le> CUTIS_MAX_STRING_LENGTH"
    using assms(2,3) by (simp_all add: request_ok_def number_read)
  have b: "butlast (argv ?c) = map Some (butlast (cmd_name cm # tl ws))" by (simp only: a(3) butlast_snoc) (simp add: a(3))
  show ?thesis using process_found [OF assms(1) a(1) F(2), of s] F(4) assms(3,4) a(2) l n b
    by (simp add: Let_def del: butlast.simps)
qed

section \<open>Requests run\<close>

lemma run_then_parse:
  assumes "cm \<in> set cmdTable" and "query_buf c = rest"
  shows "after_process (run_command cm c s) \<bind> (\<lambda>(res, oc, s). case oc of
       Some c \<Rightarrow> if res = CUTIS_AGAIN then ParseQuery c s else Some (res, Some c, s)
     | None \<Rightarrow> Some (res, None, s)) =
    cmd_proc cm c s \<bind> (\<lambda>(c, s). if rest = [] then Some (CUTIS_OK, Some (ResetClient c), s)
      else ParseQuery (ResetClient c) s)"
proof (cases "cmd_proc cm c s")
  case (Some x)
  then obtain c' s' where x: "cmd_proc cm c s = Some (c', s')" by (cases x) auto
  have "query_buf c' = rest" using command_query [OF assms(1) x] assms(2) by simp
  then show ?thesis using x by (simp add: run_command_def after_process_def CUTIS_AGAIN_def CUTIS_OK_def)
qed (simp add: run_command_def after_process_def)

lemma args_split:
  assumes "request_ok cm ws" and "is_bulk cm"
  shows "map Some (cmd_name cm # tl ws) = map Some (butlast (cmd_name cm # tl ws)) @ [Some (last ws)]"
proof -
  obtain w v vs where "ws = w # v # vs"
    using assms by (cases ws; cases "tl ws") (auto simp: request_ok_def)
  then have "cmd_name cm # tl ws = butlast (cmd_name cm # tl ws) @ [last ws]" by simp
  then show ?thesis by (metis list.simps(8) list.simps(9) map_append)
qed

theorem request_runs:
  assumes "busy_ok c s" and "bulk_len c = -1" and "argv c = []" and "cm \<in> set cmdTable" and "request_ok cm ws"
    and "query_buf c = request cm ws @ rest"
  shows "ParseQuery c s = run_request cm ws rest c s"
proof -
  have conn: "conn_ok c" using assms(2,3) by (simp add: conn_ok_def)
  have "parse_round c s = after_process (run_command cm (ready cm ws rest c) s)"
  proof (cases "is_bulk cm")
    case False
    then have ws: "ws \<noteq> []" "list_all wire_word ws" "length ws \<le> CUTIS_MAX_ARGS" "query_buf c = joined ws @ crlf @ rest"
      using assms(5,6) request_found(1) [OF assms(4,5)] by (simp_all add: request_ok_def request_def)
    have r: "ready cm ws rest c = c\<lparr>query_buf := rest, argv := map Some (cmd_name cm # tl ws)\<rparr>"
      using assms(2) False by (cases c) (simp add: ready_def)
    show ?thesis
      using line_parsed [OF ws(1-3) assms(3) ws(4), of s] assms(2) process_inline [OF assms(4,5) False, of "c\<lparr>query_buf := rest, argv := map Some ws\<rparr>" s]
      by (simp add: parse_round_def r)
  next
    case True
    let ?ws = "butlast ws @ [show_int (int (length (last ws)))]"
    have ne: "ws \<noteq> []" by (rule request_found(1) [OF assms(4,5)])
    have ws: "list_all wire_word ?ws" "length ?ws \<le> CUTIS_MAX_ARGS"
      "query_buf c = joined ?ws @ crlf @ (last ws @ crlf @ rest)"
      using assms(5,6) True ne wire_number by (simp_all add: request_ok_def request_def CUTIS_MAX_ARGS_def)
    let ?c = "c\<lparr>query_buf := last ws @ crlf @ rest, argv := map Some (butlast (cmd_name cm # tl ws))\<rparr>"
    have r: "ready cm ws rest c = ?c\<lparr>bulk_len := int (length (last ws)) + 2, argv := argv ?c @ [Some (last ws)], query_buf := rest\<rparr>"
      unfolding ready_def args_split [OF assms(5) True] using True by simp
    have "take_bulk cm ?c s (int (length (last ws))) = run_command cm (ready cm ws rest c) s"
      unfolding r by (simp add: take_bulk_def range_tail nat_add_distrib crlf_def)
    then show ?thesis
      using line_parsed [OF _ ws(1,2) assms(3) ws(3), of s] assms(2)
        process_bulk_line [OF assms(4,5) True, of "c\<lparr>query_buf := last ws @ crlf @ rest, argv := map Some ?ws\<rparr>" s]
      by (simp add: parse_round_def)
  qed
  then show ?thesis
    using ParseQuery_round [OF assms(1) conn] run_then_parse [OF assms(4), of "ready cm ws rest c" rest s]
    by (simp add: run_request_def ready_def)
qed

section \<open>Requests that arrive in pieces\<close>

lemma parse_waits:
  assumes "busy_ok c s" and "conn_ok c" and "parse_round c s = Some (CUTIS_OK, Some c', s')"
  shows "ParseQuery c s = Some (CUTIS_OK, Some c', s')"
  using ParseQuery_round [OF assms(1,2)] assms(3) by (simp add: CUTIS_AGAIN_def CUTIS_OK_def)

lemma parse_no_line:
  assumes "busy_ok c s" and "conn_ok c" and "bulk_len c = -1" and "LF \<notin> set (query_buf c)" and "length (query_buf c) < 1024"
  shows "ParseQuery c s = Some (CUTIS_OK, Some c, s)"
  by (rule parse_waits [OF assms(1,2)]) (use assms(3-5) in \<open>simp add: parse_round_def ParseNonBulkQuery_def newline_at_none\<close>)

text \<open>The client that waits for the last argument, of which it has \<open>d\<close> so far.\<close>

definition awaiting :: "CutisCommand \<Rightarrow> string list \<Rightarrow> string \<Rightarrow> CutisClient \<Rightarrow> CutisClient" where
  "awaiting cm ws d c = c\<lparr>argv := map Some (butlast (cmd_name cm # tl ws)), query_buf := d,
     bulk_len := int (length (last ws)) + 2\<rparr>"

lemma awaiting_fields [simp]:
  "bulk_len (awaiting cm ws d c) = int (length (last ws)) + 2" "query_buf (awaiting cm ws d c) = d"
  "argv (awaiting cm ws d c) = map Some (butlast (cmd_name cm # tl ws))" "c_id (awaiting cm ws d c) = c_id c"
  by (simp_all add: awaiting_def)

lemma awaiting_ok:
  assumes "busy_ok c s" and "request_ok cm ws"
  shows "busy_ok (awaiting cm ws d c) s" and "conn_ok (awaiting cm ws d c)"
  using assms by (simp_all add: awaiting_def) (cases ws; simp add: conn_ok_def request_ok_def CUTIS_MAX_ARGS_def)

lemma awaiting_waits:
  assumes "busy_ok c s" and "request_ok cm ws" and "length d < length (last ws) + 2"
  shows "ParseQuery (awaiting cm ws d c) s = Some (CUTIS_OK, Some (awaiting cm ws d c), s)"
proof -
  have "\<not> bulk_len (awaiting cm ws d c) \<le> int (length (query_buf (awaiting cm ws d c)))"
    "bulk_len (awaiting cm ws d c) \<noteq> -1"
    using assms(3) by simp_all
  then have "parse_round (awaiting cm ws d c) s = Some (CUTIS_OK, Some (awaiting cm ws d c), s)"
    by (simp only: parse_round_def ParseBulkQuery_def if_False)
  then show ?thesis by (rule parse_waits [OF awaiting_ok [OF assms(1,2)]])
qed

lemma awaiting_runs:
  assumes "busy_ok c s" and "cm \<in> set cmdTable" and "request_ok cm ws" and "is_bulk cm"
  shows "ParseQuery (awaiting cm ws (last ws @ crlf @ rest) c) s = run_request cm ws rest c s"
proof -
  let ?c = "awaiting cm ws (last ws @ crlf @ rest) c"
  note ok = awaiting_ok [OF assms(1,3)]
  have r: "ready cm ws rest c = ?c\<lparr>argv := argv ?c @ [Some (last ws)], query_buf := rest\<rparr>"
    unfolding ready_def args_split [OF assms(3,4)] awaiting_def using assms(4) by simp
  have b: "bulk_len ?c \<noteq> -1" "bulk_len ?c \<le> int (length (query_buf ?c))" "argc ?c < CUTIS_MAX_ARGS"
    "take (nat (bulk_len ?c - 2)) (query_buf ?c) = last ws" "range_spec (query_buf ?c) (bulk_len ?c) (-1) = rest"
    using ok(2) assms(3) by (simp_all add: range_tail nat_add_distrib crlf_def conn_ok_def)
  then have "parse_round ?c s = after_process (ProcessCommand (ready cm ws rest c) s)"
    by (simp only: parse_round_def ParseBulkQuery_def r Let_def guard_eq bind.bind_lunit if_True if_False)
  also have "ProcessCommand (ready cm ws rest c) s = run_command cm (ready cm ws rest c) s"
    by (rule process_bulk_ready [OF assms(2,3)]) (simp_all add: ready_def assms(4))
  finally show ?thesis
    using ParseQuery_round [OF ok] run_then_parse [OF assms(2), of "ready cm ws rest c" rest s]
    by (simp add: run_request_def ready_def)
qed

text \<open>
  A request cut anywhere: the first part, with less than 1024 bytes of the line, changes nothing but
  the client, and then the second part does what the whole would have done.
\<close>

definition request_line :: "CutisCommand \<Rightarrow> string list \<Rightarrow> string" where
  "request_line cm ws =
     joined (if is_bulk cm then butlast ws @ [show_int (int (length (last ws)))] else ws)"

lemma request_parts:
  "request cm ws = request_line cm ws @ crlf @ (if is_bulk cm then last ws @ crlf else [])"
  by (simp add: request_def request_line_def)

lemma prefix_cases:
  assumes "x @ y = u @ v"
  obtains (short) z where "u = x @ z" "z \<noteq> []" | (long) z where "x = u @ z" "v = z @ y"
proof -
  from assms obtain us where "x = u @ us \<and> us @ y = v \<or> x @ us = u \<and> y = us @ v"
    by (auto simp: append_eq_append_conv2)
  then show thesis using short [of us] long [of us] long [of "[]"] by (cases "us = []") auto
qed

lemma request_line_chars:
  assumes "request_ok cm ws" and "ch \<in> set (request_line cm ws)"
  shows "ch \<noteq> LF"
proof -
  have "list_all wire_word (if is_bulk cm then butlast ws @ [show_int (int (length (last ws)))] else ws)"
    using assms(1) wire_number by (auto simp: request_ok_def)
  from joined_chars [OF this] assms(2) show ?thesis by (simp add: request_line_def)
qed

lemma line_waits:
  assumes "busy_ok c s" and "bulk_len c = -1" and "argv c = []" and "cm \<in> set cmdTable" and "request_ok cm ws"
    and "is_bulk cm" and "query_buf c = request_line cm ws @ crlf @ d" and "length d < length (last ws) + 2"
  shows "ParseQuery c s = Some (CUTIS_OK, Some (awaiting cm ws d c), s)"
proof -
  let ?ws = "butlast ws @ [show_int (int (length (last ws)))]"
  have conn: "conn_ok c" using assms(2,3) by (simp add: conn_ok_def)
  have "length ?ws = length ws" using request_found(1) [OF assms(4,5)] by simp
  then have ws: "list_all wire_word ?ws" "length ?ws \<le> CUTIS_MAX_ARGS" "query_buf c = joined ?ws @ crlf @ d"
    using assms(5-7) wire_number by (simp_all add: request_ok_def request_line_def)
  let ?c = "c\<lparr>query_buf := d, argv := map Some (butlast (cmd_name cm # tl ws))\<rparr>"
  have "awaiting cm ws d c = ?c\<lparr>bulk_len := int (length (last ws)) + 2\<rparr>" by (simp add: awaiting_def)
  then have "take_bulk cm ?c s (int (length (last ws))) = Some (1, Some (awaiting cm ws d c), s)"
    using assms(8) by (simp add: take_bulk_def)
  then have r: "parse_round c s = after_process (Some (1, Some (awaiting cm ws d c), s))"
    using line_parsed [OF _ ws(1,2) assms(3) ws(3), of s] assms(2)
      process_bulk_line [OF assms(4-6), of "c\<lparr>query_buf := d, argv := map Some ?ws\<rparr>" s]
    by (simp add: parse_round_def)
  show ?thesis
  proof (cases "d = []")
    case True
    then show ?thesis using r parse_waits [OF assms(1) conn] by (simp add: after_process_def)
  next
    case False
    then show ?thesis using r ParseQuery_round [OF assms(1) conn] awaiting_waits [OF assms(1,5,8)]
      by (simp add: after_process_def)
  qed
qed

theorem request_in_pieces:
  assumes "busy_ok c s" and "bulk_len c = -1" and "argv c = []" and "cm \<in> set cmdTable" and "request_ok cm ws"
    and "x @ y = request cm ws @ rest" and "length x < length (request cm ws)" and "length (request_line cm ws) + 2 \<le> 1024"
  shows "\<exists>c1. ParseQuery (c\<lparr>query_buf := x\<rparr>) s = Some (CUTIS_OK, Some c1, s) \<and>
    ParseQuery (c1\<lparr>query_buf := query_buf c1 @ y\<rparr>) s = ParseQuery (c\<lparr>query_buf := x @ y\<rparr>) s"
proof -
  have whole: "ParseQuery (c\<lparr>query_buf := x @ y\<rparr>) s = run_request cm ws rest c s"
    using request_runs [of "c\<lparr>query_buf := x @ y\<rparr>" s cm ws rest] assms(1-6)
    by (simp add: run_request_def ready_def)
  have conn: "conn_ok (c\<lparr>query_buf := x\<rparr>)" using assms(2,3) by (simp add: conn_ok_def)
  have xy: "x @ y = (request_line cm ws @ crlf) @ (if is_bulk cm then last ws @ crlf else []) @ rest"
    using assms(6) by (simp add: request_parts)
  from xy show ?thesis
  proof (cases rule: prefix_cases)
    case (short z)
    then have "butlast (request_line cm ws @ crlf) = x @ butlast z" by (simp add: butlast_append)
    then have "request_line cm ws @ [CR] = x @ butlast z" by (simp add: crlf_def butlast_append)
    then have "set x \<subseteq> insert CR (set (request_line cm ws))" by (metis Un_insert_right append_Nil2 empty_set inf_sup_ord(3) list.simps(15) set_append)
    then have "LF \<notin> set x" using request_line_chars [OF assms(5)] by (auto simp: control_chars)
    moreover have "length x < 1024" using arg_cong [OF short(1), of length] short(2) assms(8)
      by (cases z) (simp_all add: crlf_def)
    ultimately have "ParseQuery (c\<lparr>query_buf := x\<rparr>) s = Some (CUTIS_OK, Some (c\<lparr>query_buf := x\<rparr>), s)"
      using parse_no_line [of "c\<lparr>query_buf := x\<rparr>" s] assms(1,2) conn by simp
    then show ?thesis by simp
  next
    case (long d)
    then have bulk: "is_bulk cm" using assms(7) by (cases "is_bulk cm") (simp_all add: request_parts)
    have d: "length d < length (last ws) + 2" using long(1) assms(7) bulk by (simp add: request_parts crlf_def)
    have "ParseQuery (c\<lparr>query_buf := x\<rparr>) s = Some (CUTIS_OK, Some (awaiting cm ws d (c\<lparr>query_buf := x\<rparr>)), s)"
      by (rule line_waits [OF _ _ _ assms(4,5) bulk _ d]) (use assms(1-3) long(1) in simp_all)
    moreover have "awaiting cm ws d (c\<lparr>query_buf := x\<rparr>)\<lparr>query_buf := d @ y\<rparr> = awaiting cm ws (last ws @ crlf @ rest) c"
      using long(2) bulk by (simp add: awaiting_def)
    ultimately show ?thesis using awaiting_runs [OF assms(1,4,5) bulk, of rest] whole by simp
  qed
qed

section \<open>What is refused\<close>

text \<open>The client gets an error line; its request is dropped, what follows in the buffer stays.\<close>

definition refused :: "string \<Rightarrow> CutisClient \<Rightarrow> CutisServer \<Rightarrow> client_result \<Rightarrow> bool" where
  "refused msg c s r \<longleftrightarrow>
     (\<exists>c' s'. r = Some (1, Some c', s') \<and> server_ok c' s' \<and> keyspace s' = keyspace s \<and>
        pending c' s' = pending c s @ err_line msg \<and> dirty s' = dirty s \<and>
        argv c' = [] \<and> bulk_len c' = -1 \<and> query_buf c' = query_buf c)"

lemma reset_simps [simp]:
  "argv (ResetClient c) = []" "bulk_len (ResetClient c) = -1" "reply (ResetClient c) = reply c"
  "server_ok (ResetClient c) s = server_ok c s" "pending (ResetClient c) s = pending c s" "c_db (ResetClient c) = c_db c"
  by (simp_all add: ResetClient_def FreeClientArgv_def server_ok_def serving_def all_refs_def pending_def)

lemma server_ok_argv [simp]: "server_ok (c\<lparr>argv := av\<rparr>) s = server_ok c s"
  by (simp add: server_ok_def)

lemma refuse_refused:
  assumes "server_ok c s"
  shows "refused msg c s (refuse msg (c\<lparr>argv := av\<rparr>) s)"
proof -
  have "does c s (keyspace s) (err_line msg) 0 (AddReplySds (err_line msg) (c\<lparr>argv := av\<rparr>) s)"
    using does_sds [of "c\<lparr>argv := av\<rparr>" s "keyspace s" c s 0] assms by (simp add: server_ok_def)
  then obtain c' s' where r: "AddReplySds (err_line msg) (c\<lparr>argv := av\<rparr>) s = Some (c', s')" "server_ok c' s'"
    "keyspace s' = keyspace s" "pending c' s' = pending c s @ err_line msg" "dirty s' = dirty s"
    by (auto simp: does_def)
  moreover have "query_buf c' = query_buf c" using frame_AddReplySds [OF r(1)] by (simp add: conn_def)
  ultimately show ?thesis by (simp add: refused_def refuse_def)
qed

lemma arg_upd0: "arg 0 c = Some w \<Longrightarrow> 0 < j \<Longrightarrow> arg j (c\<lparr>argv := (argv c)[0 := x]\<rparr>) = arg j c"
  by (simp add: arg_def)

lemma bulk_count_refused:
  assumes "server_ok c s" and "cm \<in> set cmdTable" and "arg 0 c = Some w" and "map tolower w = cmd_name cm"
    and "\<not> ((arity cm > 0 \<and> arity cm \<noteq> int (argc c)) \<or> int (argc c) < - arity cm)"
    and "is_bulk cm" and "bulk_len c = -1" and "1 < argc c" and "arg (argc c - 1) c = Some a"
    and "atoi (cstr a) < 0 \<or> CUTIS_MAX_STRING_LENGTH < atoi (cstr a)"
  shows "refused ''invalid bulk write count'' c s (ProcessCommand c s)"
  using process_found [OF assms(2-5), of s] assms(6-10) refuse_refused [OF assms(1)] arg_upd0 [OF assms(3)]
  by (simp add: Let_def)

lemma unknown_refused:
  assumes "server_ok c s" and "arg 0 c = Some w" and "map tolower w = name" and "\<not> strcmp_eq name ''quit''"
    and "LookupCommand name = None"
  shows "refused ''unknown command'' c s (ProcessCommand c s)"
  using assms(2-5) refuse_refused [OF assms(1)] by (simp add: ProcessCommand_def)

lemma arity_refused:
  assumes "server_ok c s" and "arg 0 c = Some w" and "map tolower w = name" and "\<not> strcmp_eq name ''quit''"
    and "LookupCommand name = Some cm" and "(arity cm > 0 \<and> arity cm \<noteq> int (argc c)) \<or> int (argc c) < - arity cm"
  shows "refused ''wrong number of arguments'' c s (ProcessCommand c s)"
proof -
  have a: "((0 < arity cm \<and> arity cm \<noteq> int (argc c)) \<or> int (argc c) < - arity cm) = True" using assms(6) by blast
  show ?thesis using assms(2-5) refuse_refused [OF assms(1)] by (simp add: ProcessCommand_def a)
qed

section \<open>Requests served\<close>

text \<open>A command that does what it promises, asked for over the wire.\<close>

lemma ready_simps [simp]:
  "server_ok (ready cm ws rest c) s = server_ok c s" "c_db (ready cm ws rest c) = c_db c" "c_id (ready cm ws rest c) = c_id c"
  "pending (ready cm ws rest c) s = pending c s" "query_buf (ready cm ws rest c) = rest"
  "arg i (ready cm ws rest c) = (if i < Suc (length (tl ws)) then Some ((cmd_name cm # tl ws) ! i) else None)"
  "busy_ok (ready cm ws rest c) s = busy_ok c s"
  by (simp_all add: ready_def server_ok_def serving_def all_refs_def pending_def arg_def busy_ok_def flip: list.map(2))

lemma request_does:
  assumes "busy_ok c s" and "bulk_len c = -1" and "argv c = []" and "cm \<in> set cmdTable" and "request_ok cm ws"
    and "query_buf c = request cm ws @ rest"
    and "does (ready cm ws rest c) s K t n (cmd_proc cm (ready cm ws rest c) s)"
  obtains c' s' where "busy_ok c' s'" "bulk_len c' = -1" "argv c' = []" "query_buf c' = rest" "c_id c' = c_id c"
    "keyspace s' = K" "pending c' s' = pending c s @ t" "dirty s' = dirty s + n" "length (dict s') = length (dict s)"
    "ParseQuery c s = (if rest = [] then Some (CUTIS_OK, Some c', s') else ParseQuery c' s')"
proof -
  from assms(7) obtain c1 s1 where r: "cmd_proc cm (ready cm ws rest c) s = Some (c1, s1)" "keyspace s1 = K"
    "pending c1 s1 = pending c s @ t" "dirty s1 = dirty s + n" by (auto simp: does_def)
  have b: "busy_ok c1 s1" "c_id c1 = c_id c" "query_buf c1 = rest"
    using command_busy [OF _ assms(4) r(1)] assms(1) by simp_all
  moreover have "length (dict s1) = length (dict s)"
    using cmdTable_framed [OF assms(4), of "ready cm ws rest c" s] r(1) by (simp add: framed_def config_def)
  moreover have "ParseQuery c s = (if rest = [] then Some (CUTIS_OK, Some (ResetClient c1), s1) else ParseQuery (ResetClient c1) s1)"
    using request_runs [OF assms(1-6)] r(1) by (simp add: run_request_def)
  ultimately show thesis using that [of "ResetClient c1" s1] r(2-4) by simp
qed

text \<open>From bytes on the socket to the database and back, in one event of the loop.\<close>

definition set_entry :: CutisCommand where "set_entry = entry ''set'' SetCommand 3 CUTIS_CMD_BULK"
definition get_entry :: CutisCommand where "get_entry = entry ''get'' GetCommand 2 CUTIS_CMD_INLINE"

lemma table_entries: "set_entry \<in> set cmdTable" "get_entry \<in> set cmdTable"
  by (simp_all add: cmdTable_def set_entry_def get_entry_def)

lemma entry_simps [simp]:
  "cmd_name (entry n p a t) = n" "cmd_proc (entry n p a t) = p" "arity (entry n p a t) = a" "cmd_type (entry n p a t) = t"
  by (simp_all add: entry_def)

lemma set_request_ok:
  "wire_word k \<Longrightarrow> int (length v) \<le> CUTIS_MAX_STRING_LENGTH \<Longrightarrow> request_ok set_entry [''set'', k, v]"
  "is_bulk set_entry"
proof -
  have "wire_word ''set''" "map tolower ''set'' = ''set''" by code_simp+
  then show "wire_word k \<Longrightarrow> int (length v) \<le> CUTIS_MAX_STRING_LENGTH \<Longrightarrow> request_ok set_entry [''set'', k, v]"
    by (simp add: request_ok_def set_entry_def is_bulk_def CUTIS_MAX_ARGS_def)
  show "is_bulk set_entry" by (simp add: set_entry_def is_bulk_def)
qed

lemma get_request_ok: "wire_word k \<Longrightarrow> request_ok get_entry [''get'', k]" "\<not> is_bulk get_entry"
proof -
  have "wire_word ''get''" "map tolower ''get'' = ''get''" by code_simp+
  then show "wire_word k \<Longrightarrow> request_ok get_entry [''get'', k]"
    by (simp add: request_ok_def get_entry_def is_bulk_def CUTIS_MAX_ARGS_def)
  show "\<not> is_bulk get_entry" by (simp add: get_entry_def is_bulk_def)
qed

lemma reply_db: "AddReply a c s = Some (c', s') \<Longrightarrow> c_db c' = c_db c"
  by (auto simp: AddReply_def Let_def split: bind_splits)

lemma SetGeneric_db: "SetGenericCommand nx c s = Some (c', s') \<Longrightarrow> c_db c' = c_db c"
  by (auto simp: SetGenericCommand_def reply_shared_def reply_ok_dirty_def Let_def
      split: bind_splits prod.splits option.splits if_splits dest!: reply_db)

lemma room_world [simp]: "room i (s\<lparr>world := w\<rparr>) = room i s"
  by (simp add: room_def)

lemma parse_set_get:
  assumes "busy_ok c s" and "bulk_len c = -1" and "argv c = []" and "wire_word k" and "room (c_db c) s"
    and "int (length v) \<le> CUTIS_MAX_STRING_LENGTH"
    and "query_buf c = request set_entry [''set'', k, v] @ request get_entry [''get'', k]"
  shows "\<exists>c' s'. ParseQuery c s = Some (CUTIS_OK, Some c', s') \<and> busy_ok c' s' \<and> conn_ok c' \<and> c_id c' = c_id c \<and>
    keyspace s' = ks_put (c_db c) k (VString v) (keyspace s) \<and>
    pending c' s' = pending c s @ ''+OK'' @ crlf @ bulk v \<and> dirty s' = dirty s + 1"
proof -
  let ?g = "request get_entry [''get'', k]"
  let ?K = "ks_put (c_db c) k (VString v) (keyspace s)"
  note S = set_request_ok(1) [OF assms(4,6)]
  have g: "?g \<noteq> []" by (simp add: request_def get_request_ok(2))
  let ?r = "ready set_entry [''set'', k, v] ?g c"
  have d: "does ?r s ?K (''+OK'' @ crlf) 1 (cmd_proc set_entry ?r s)"
    using SetGenericCommand_does [of ?r s k v False] busy_okD(1) [OF assms(1)] assms(5)
    by (simp add: set_entry_def SetCommand_def)
  from d obtain c1 s1 where run: "cmd_proc set_entry ?r s = Some (c1, s1)" "keyspace s1 = ?K"
    "pending c1 s1 = pending c s @ ''+OK'' @ crlf" "dirty s1 = dirty s + 1" by (auto simp: does_def)
  have c1: "busy_ok c1 s1" "c_id c1 = c_id c" "query_buf c1 = ?g"
    using command_busy [OF _ table_entries(1) run(1)] assms(1) by simp_all
  have db: "c_db c1 = c_db c" using SetGeneric_db [of False ?r s] run(1) by (simp add: set_entry_def SetCommand_def)
  let ?c1 = "ResetClient c1"
  have P: "ParseQuery c s = ParseQuery ?c1 s1"
    using request_runs [OF assms(1-3) table_entries(1) S assms(7)] run(1) g by (simp add: run_request_def)
  let ?q = "ready get_entry [''get'', k] [] ?c1"
  have "server_ok ?q s1" using busy_okD(1) [OF c1(1)] by simp
  then have d2: "does ?q s1 ?K (bulk v) 0 (cmd_proc get_entry ?q s1)"
    using GetCommand_does [of ?q s1 k] run(2) db by (simp add: get_entry_def ks_put_def get_reply_def)
  have b1: "busy_ok ?c1 s1" "query_buf ?c1 = ?g @ []" using c1 by simp_all
  obtain c' s' where f: "busy_ok c' s'" "bulk_len c' = -1" "argv c' = []" "query_buf c' = []" "c_id c' = c_id ?c1"
    "keyspace s' = ?K" "pending c' s' = pending ?c1 s1 @ bulk v" "dirty s' = dirty s1 + 0" "length (dict s') = length (dict s1)"
    "ParseQuery ?c1 s1 = (if ([] :: string) = [] then Some (CUTIS_OK, Some c', s') else ParseQuery c' s')"
    by (rule request_does [OF b1(1) reset_simps(2,1) table_entries(2) get_request_ok(1) [OF assms(4)] b1(2) d2])
  then have "c_id c' = c_id c" "dirty s' = dirty s + 1" using c1(2) run(4) by simp_all
  moreover have "ParseQuery c s = Some (CUTIS_OK, Some c', s')" using P f(10) by simp
  moreover have "conn_ok c'" using f(2,3) by (simp add: conn_ok_def)
  moreover have "pending c' s' = pending c s @ ''+OK'' @ crlf @ bulk v" using f(7) run(3) by simp
  ultimately show ?thesis using f(1,6) by blast
qed

theorem set_get_served:
  assumes "idle_ok s" and "client_at s p = Some c" and "bulk_len c = -1" and "argv c = []" and "query_buf c = []"
    and "wire_word k" and "room (c_db c) s" and "data = request set_entry [''set'', k, v] @ request get_entry [''get'', k]"
    and "length data \<le> CUTIS_QUERY_BUF_LEN" and "reads (world s) (calls (world s)) = Data data"
  shows "\<exists>c' s'. with_client ReadQueryFromClient p s = Some (CUTIS_OK, s') \<and> idle_ok s' \<and> client_at s' p = Some c' \<and>
    keyspace s' = ks_put (c_db c) k (VString v) (keyspace s) \<and>
    pending c' s' = pending c s @ ''+OK'' @ crlf @ bulk v \<and> dirty s' = dirty s + 1"
proof -
  let ?s = "s\<lparr>client_at := (client_at s)(p := None)\<rparr>"
  note out = check_out [OF assms(1,2)]
  obtain t s2 where sys: "syscall (snd (syscall ?s)) = (t, s2)" by force
  then have s2: "\<exists>w. s2 = ?s\<lparr>world := w\<rparr>" by (auto simp: syscall_def split: prod.splits)
  let ?c = "c\<lparr>query_buf := data, last_interaction := t\<rparr>"
  have len: "int (length v) \<le> CUTIS_MAX_STRING_LENGTH"
    using assms(9) by (simp add: assms(8) request_def set_request_ok(2) CUTIS_MAX_STRING_LENGTH_def CUTIS_QUERY_BUF_LEN_def)
  have "busy_ok ?c s2" "room (c_db ?c) s2" "keyspace s2 = keyspace s" "pending ?c s2 = pending c s" "dirty s2 = dirty s"
    using out(1) assms(7) s2 by (auto simp: pending_def room_def)
  then obtain c' s' where r: "ParseQuery ?c s2 = Some (CUTIS_OK, Some c', s')" "busy_ok c' s'" "conn_ok c'" "c_id c' = p"
    "keyspace s' = ks_put (c_db c) k (VString v) (keyspace s)" "dirty s' = dirty s + 1"
    "pending c' s' = pending c s @ ''+OK'' @ crlf @ bulk v"
    using parse_set_get [of ?c s2 k v] assms(3,4,6,8) len out(3) by auto
  have ne: "data \<noteq> []" by (simp add: assms(8) request_def set_request_ok(2) crlf_def)
  have "ReadQueryFromClient c ?s = Some (CUTIS_OK, Some c', s')"
    using r(1) sys assms(5,9,10) ne by (simp add: ReadQueryFromClient_def)
  then have "with_client ReadQueryFromClient p s = Some (CUTIS_OK, s'\<lparr>client_at := (client_at s')(p \<mapsto> c')\<rparr>)"
    using assms(2) by (simp add: with_client_def)
  moreover have "idle_ok (s'\<lparr>client_at := (client_at s')(p \<mapsto> c')\<rparr>)" using check_in [OF r(2,3)] r(4) by simp
  ultimately show ?thesis using r(5-7)
    by (intro exI [of _ c'] exI [of _ "s'\<lparr>client_at := (client_at s')(p \<mapsto> c')\<rparr>"]) simp
qed

end
