(* ===== verification/Lifecycle.thy ===== *)
theory Lifecycle
  imports Protocol Server_Spec
begin

text \<open>
  The server from its start to its end: starting establishes the invariant and all events keep it,
  sending replies neither loses nor repeats a byte and comes to an end, cleaning up leaves no object.
\<close>

section \<open>Starting\<close>

theorem InitServer_idle:
  assumes "InitServer s = Returns s'" and "0 < db_num s"
  shows "idle_ok s'"
proof -
  define c :: CutisClient where "c = \<lparr>c_id = 0, c_fd = 0, query_buf = [], reply = [], sent_len = 0, last_interaction = 0,
     argv = [], bulk_len = -1, c_db = 0\<rparr>"
  have "reply c = []" "int (c_db c) < db_num s" using assms(2) by (simp_all add: c_def)
  note I = InitServer_ok [OF assms this]
  have "client_at s' = Map.empty"
    using assms(1) by (auto simp: InitServer_def syscall_def Let_def split: prod.splits if_splits)
  then have "clients_ok {} s'" using I(7) by (simp add: clients_ok_def)
  moreover have "all_refs {#} c s' = server_refs s'" by (simp add: all_refs_def \<open>reply c = []\<close>)
  ultimately show ?thesis using I(1) by (simp add: idle_ok_def server_ok_def serving_def)
qed

section \<open>Stopping\<close>

text \<open>With nobody referring to anything there is nothing left.\<close>

lemma no_refs_no_objects:
  assumes "heap_ok {#} h"
  shows "objs h = Map.empty"
proof (rule ccontr)
  assume "objs h \<noteq> Map.empty"
  then obtain a o' where a: "objs h a = Some o'" by (meson ext not_None_eq)
  have counted: "x \<in># inner (objs h)" if "objs h x = Some y" for x y
  proof -
    have "0 < refcount y \<and> refcount y = int (count (inner (objs h)) x)"
      using counts_okD(3) [of "{#}" "objs h" x y] assms that by (simp add: heap_ok_def del: count_greater_zero_iff)
    then have "0 < count (inner (objs h)) x" by linarith
    then show ?thesis by (simp only: count_greater_zero_iff)
  qed
  have strings: "\<exists>t. optr y = OString (Some t)" if "objs h x = Some y" for x y
    using container_not_inner [OF assms that] counted [OF that] by blast
  have "inner (objs h) = {#}"
    unfolding inner_def by (rule sum.neutral) (use strings in fastforce)
  with counted [OF a] show False by simp
qed

lemma clients_freed:
  "idle_ok s \<Longrightarrow> clients s = ps \<Longrightarrow>
     \<exists>s'. foldM free_client_at ps s = Some s' \<and> idle_ok s' \<and> clients s' = [] \<and> dict s' = dict s \<and> shared s' = shared s"
proof (induction ps arbitrary: s)
  case (Cons p ps)
  from Cons.prems obtain c where c: "client_at s p = Some c"
    by (force simp: idle_ok_def clients_ok_def dom_def)
  from FreeClient_ok [OF check_out(1) [OF Cons.prems(1) c]] obtain s1 where
    s1: "FreeClient c (s\<lparr>client_at := (client_at s)(p := None)\<rparr>) = Some s1" "idle_ok s1" by blast
  then have "clients s1 = ps" "dict s1 = dict s" "shared s1 = shared s"
    using Cons.prems(2) check_out(3) [OF Cons.prems(1) c] by (auto simp: FreeClient_def Let_def split: bind_splits)
  with Cons.IH [OF s1(2)] s1(1) c show ?case by (simp add: free_client_at_def)
qed auto

lemma release_dbs:
  assumes "heap_ok (mset (concat (map (\<lambda>d. map snd (entries d)) ds)) + R) h"
    and "\<forall>d \<in> set ds. dict_ok sdsDictType (\<lambda>k. k) d"
  shows "\<exists>h'. foldM release_db ds h = Some h' \<and> heap_ok R h'"
  using assms
proof (induction ds arbitrary: h)
  case (Cons d ds)
  let ?R = "mset (concat (map (\<lambda>d. map snd (entries d)) ds)) + R"
  have "heap_ok (mset (map snd (entries d)) + ?R) h" using Cons.prems(1) by (simp add: ac_simps)
  from store.decr_all [OF this] obtain h1 where h1: "foldM DecrRefCount (map snd (entries d)) h = Some h1" "heap_ok ?R h1"
    by blast
  have "free_entry sdsDictType = (\<lambda>e. DecrRefCount (snd e))" by (intro ext) (simp add: free_entry_def)
  then have "release_db d h = Some h1"
    using Cons.prems(2) h1(1) by (simp add: release_db_def DictRelease_ok [where canon = "\<lambda>k. k"] foldM_map)
  with Cons.IH [OF h1(2)] Cons.prems(2) show ?case by simp
qed simp

theorem CleanServer_ok:
  assumes "idle_ok s"
  shows "\<exists>s'. CleanServer s = Some s' \<and> objs (heap s') = Map.empty \<and> free_objs (heap s') = [] \<and>
    clients s' = [] \<and> dict s' = [] \<and> save_params s' = [] \<and> file_events (el s') = [] \<and> time_events (el s') = []"
proof -
  from clients_freed [OF assms refl] obtain s1 where
    s1: "foldM free_client_at (clients s) s = Some s1" "idle_ok s1" "clients s1 = []" by blast
  then have w: "server_refs s1 = mset (concat (map (\<lambda>d. map snd (entries d)) (dict s1))) + mset (shared_refs (shared s1))"
    by (simp add: server_refs_def waiting_def db_refs_def)
  have "heap_ok (server_refs s1) (heap s1)" "\<forall>d \<in> set (dict s1). dict_ok sdsDictType (\<lambda>k. k) d"
    using s1(2) by (auto simp: idle_ok_def dbs_ok_def)
  with release_dbs [of "dict s1" "mset (shared_refs (shared s1))" "heap s1"] obtain h1 where
    h1: "foldM release_db (dict s1) (heap s1) = Some h1" "heap_ok (mset (shared_refs (shared s1)) + {#}) h1"
    unfolding w by auto
  from store.decr_all [OF h1(2)] obtain h2 where
    h2: "foldM DecrRefCount (shared_refs (shared s1)) h1 = Some h2" "heap_ok {#} h2" by auto
  let ?s2 = "ResetServerSaveParams (s1\<lparr>dict := [], heap := h2\<lparr>free_objs := []\<rparr>\<rparr>)"
  have "CleanServer s = Some (?s2\<lparr>el := AeDeleteEventLoop (el ?s2), log_file := None\<rparr>)"
    using s1(1) h1(1) h2(1) by (simp add: CleanServer_def ReleaseSharedObjects_def Let_def)
  then show ?thesis using s1(3) no_refs_no_objects [OF h2(2)]
    by (simp add: ResetServerSaveParams_def AeDeleteEventLoop_def)
qed

section \<open>Sending\<close>

text \<open>What the client has still to be sent; part of the first reply may be out already.\<close>

definition unsent :: "CutisClient \<Rightarrow> CutisServer \<Rightarrow> string" where
  "unsent c s = drop (nat (sent_len c)) (pending c s)"

definition reply_text :: "CutisServer \<Rightarrow> addr \<Rightarrow> string" where
  "reply_text s a = text_of (obj_value (heap s) a)"

definition sending :: "CutisClient \<Rightarrow> CutisServer \<Rightarrow> bool" where
  "sending c s \<longleftrightarrow> (\<forall>a \<in> set (reply c). int (length (reply_text s a)) \<le> INT_MAX) \<and> 0 \<le> sent_len c \<and>
     (sent_len c = 0 \<or> reply c \<noteq> [] \<and> sent_len c < int (length (reply_text s (hd (reply c)))))"

text \<open>Nothing but \<open>bs\<close> has gone out between two states, on the descriptor \<open>fd\<close>.\<close>

definition wrote :: "int \<Rightarrow> CutisServer \<Rightarrow> string \<Rightarrow> CutisServer \<Rightarrow> bool" where
  "wrote fd s bs s' \<longleftrightarrow> wire (world s') = (wire (world s))(fd := wire (world s) fd @ bs) \<and>
     sys (world s') = sys (world s) \<and> calls (world s) \<le> calls (world s')"

lemma wrote_wire: "wrote fd s bs s' \<Longrightarrow> wire (world s') = (wire (world s))(fd := wire (world s) fd @ bs)"
  by (simp add: wrote_def)

lemma wrote_nothing [simp]: "wrote fd s [] s"
  by (simp add: wrote_def)

lemma wrote_trans: "wrote fd s x s1 \<Longrightarrow> wrote fd s1 y s2 \<Longrightarrow> wrote fd s (x @ y) s2"
  by (simp add: wrote_def)

lemma write_call_wrote:
  obtains n w1 where "write_call fd bs s = (n, s\<lparr>world := w1\<rparr>)" and "wrote fd s (take (nat n) bs) (s\<lparr>world := w1\<rparr>)"
    and "n = min (sys (world s) (calls (world s))) (int (length bs))" and "calls w1 = Suc (calls (world s))"
proof -
  let ?n = "min (sys (world s) (calls (world s))) (int (length bs))"
  let ?w = "(world s)\<lparr>calls := Suc (calls (world s)), wire := (wire (world s))(fd := wire (world s) fd @ take (nat ?n) bs)\<rparr>"
  have "write_call fd bs s = (?n, s\<lparr>world := ?w\<rparr>)"
    by (simp add: write_call_def syscall_def sys_call_def Let_def)
  then show thesis by (rule that) (simp_all add: wrote_def)
qed

lemma del_first_world: "del_first_reply c s = Some (c', s') \<Longrightarrow> world s' = world s"
  by (auto simp: del_first_reply_def decr_def split: list.splits bind_splits)

definition delivered :: "CutisClient \<Rightarrow> CutisServer \<Rightarrow> string \<Rightarrow> CutisClient \<Rightarrow> CutisServer \<Rightarrow> bool" where
  "delivered c s sent c' s' \<longleftrightarrow> busy_ok c' s' \<and> sending c' s' \<and> keyspace s' = keyspace s \<and> c_id c' = c_id c \<and>
     conn_ok c' = conn_ok c \<and> c_fd c' = c_fd c \<and> wrote (c_fd c) s sent s' \<and> unsent c s = sent @ unsent c' s'"

lemma delivered_trans: "delivered c s x c1 s1 \<Longrightarrow> delivered c1 s1 y c2 s2 \<Longrightarrow> delivered c s (x @ y) c2 s2"
  using wrote_trans [of "c_fd c" s x s1 y s2] by (simp add: delivered_def)

lemma pending_Cons: "reply c = a # as \<Longrightarrow> pending c s = reply_text s a @ pending (c\<lparr>reply := as\<rparr>) s"
  by (simp add: pending_def reply_text_def)

lemma pop_reply:
  assumes "busy_ok c s" and "reply c = a # as"
  shows "\<exists>s'. del_first_reply c s = Some (c\<lparr>reply := as\<rparr>, s') \<and> busy_ok (c\<lparr>reply := as\<rparr>) s' \<and> keyspace s' = keyspace s \<and>
    pending (c\<lparr>reply := as\<rparr>) s' = pending (c\<lparr>reply := as\<rparr>) s \<and> (\<forall>b \<in> set as. reply_text s' b = reply_text s b)"
proof -
  let ?c = "c\<lparr>reply := as\<rparr>"
  have "serving {#a#} ?c s" using server_okD(1) [OF busy_okD(1) [OF assms(1)]] assms(2)
    by (simp add: serving_def all_refs_def)
  from decr_ok [OF this] obtain h where h: "decr a s = Some (s\<lparr>heap := h\<rparr>)" "keyspace (s\<lparr>heap := h\<rparr>) = keyspace s"
    "pending ?c (s\<lparr>heap := h\<rparr>) = pending ?c s" "\<forall>b \<in># all_refs {#} ?c s. obj_value h b = obj_value (heap s) b" by auto
  then have d: "del_first_reply c s = Some (?c, s\<lparr>heap := h\<rparr>)" using assms(2) by (simp add: del_first_reply_def)
  have "\<forall>b \<in> set as. reply_text (s\<lparr>heap := h\<rparr>) b = reply_text s b"
    using h(4) by (simp add: reply_text_def all_refs_def)
  with d h(2,3) del_first_busy [OF assms(1) d] show ?thesis by blast
qed

lemma reply_string:
  assumes "busy_ok c s" and "a \<in> set (reply c)"
  shows "string_at (heap s) a = Some (reply_text s a)"
proof -
  obtain t where "obj_value (heap s) a = VString t"
    using servingD(5) [OF server_okD(1) [OF busy_okD(1) [OF assms(1)]], of a] assms(2) by auto
  then show ?thesis by (simp add: value_string_at reply_text_def)
qed

lemma sent_upd [simp]:
  "conn_ok (c\<lparr>sent_len := n\<rparr>) = conn_ok c" "conn_ok (c\<lparr>reply := as\<rparr>) = conn_ok c"
  "pending (c\<lparr>sent_len := n\<rparr>) s = pending c s"
  by (simp_all add: conn_ok_def pending_def)

text \<open>The steps: an empty reply dropped, part of a reply written, the rest of one written.\<close>

lemma step_empty:
  assumes "busy_ok c s" and "sending c s" and "reply c = a # as" and "reply_text s a = []"
  shows "\<exists>s'. del_first_reply c s = Some (c\<lparr>reply := as\<rparr>, s') \<and> delivered c s [] (c\<lparr>reply := as\<rparr>) s' \<and>
    pending (c\<lparr>reply := as\<rparr>) s' = pending c s \<and> sent_len c = 0"
proof -
  from pop_reply [OF assms(1,3)] obtain s' where s': "del_first_reply c s = Some (c\<lparr>reply := as\<rparr>, s')"
    "busy_ok (c\<lparr>reply := as\<rparr>) s'" "keyspace s' = keyspace s"
    "pending (c\<lparr>reply := as\<rparr>) s' = pending (c\<lparr>reply := as\<rparr>) s" "\<forall>b \<in> set as. reply_text s' b = reply_text s b" by blast
  have z: "sent_len c = 0" using assms(2-4) by (auto simp: sending_def)
  then have "sending (c\<lparr>reply := as\<rparr>) s'" using assms(2,3) s'(5) by (simp add: sending_def)
  then have "delivered c s [] (c\<lparr>reply := as\<rparr>) s'"
    using s'(2-4) z pending_Cons [OF assms(3), of s] assms(4) del_first_world [OF s'(1)]
    by (simp add: delivered_def unsent_def wrote_def)
  then show ?thesis using s'(1,4) z pending_Cons [OF assms(3), of s] assms(4) by simp
qed

lemma step_part:
  assumes "busy_ok c s" and "sending c s" and "reply c = a # as"
    and "0 < n" and "sent_len c + n < int (length (reply_text s a))"
    and "wrote (c_fd c) s (take (nat n) (unsent c s)) (s\<lparr>world := w1\<rparr>)"
  shows "delivered c s (take (nat n) (unsent c s)) (c\<lparr>sent_len := sent_len c + n\<rparr>) (s\<lparr>world := w1\<rparr>)"
proof -
  have "0 \<le> sent_len c" using assms(2) by (simp add: sending_def)
  then have "unsent (c\<lparr>sent_len := sent_len c + n\<rparr>) s = drop (nat n) (unsent c s)"
    using assms(4) by (simp add: unsent_def nat_add_distrib add.commute)
  then have "unsent c s = take (nat n) (unsent c s) @ unsent (c\<lparr>sent_len := sent_len c + n\<rparr>) s"
    by (metis append_take_drop_id)
  moreover have "unsent (c\<lparr>sent_len := sent_len c + n\<rparr>) (s\<lparr>world := w1\<rparr>) = unsent (c\<lparr>sent_len := sent_len c + n\<rparr>) s"
    by (simp add: unsent_def)
  moreover have "sending (c\<lparr>sent_len := sent_len c + n\<rparr>) (s\<lparr>world := w1\<rparr>)"
    using assms(2-5) by (simp add: sending_def reply_text_def)
  ultimately show ?thesis using assms(1,6) unfolding delivered_def by simp
qed

lemma step_rest:
  assumes "busy_ok c s" and "sending c s" and "reply c = a # as"
    and "0 < n" and "sent_len c + n = int (length (reply_text s a))"
    and "wrote (c_fd c) s (take (nat n) (unsent c s)) (s\<lparr>world := w1\<rparr>)"
  shows "\<exists>s'. del_first_reply (c\<lparr>sent_len := sent_len c + n\<rparr>) (s\<lparr>world := w1\<rparr>) =
      Some (c\<lparr>sent_len := sent_len c + n, reply := as\<rparr>, s') \<and>
    delivered c s (take (nat n) (unsent c s)) (c\<lparr>reply := as, sent_len := 0\<rparr>) s' \<and>
    pending (c\<lparr>reply := as\<rparr>) s' = drop (length (reply_text s a)) (pending c s)"
proof -
  let ?c = "c\<lparr>sent_len := sent_len c + n\<rparr>" and ?s = "s\<lparr>world := w1\<rparr>"
  have t: "reply_text ?s b = reply_text s b" for b by (simp add: reply_text_def)
  have "busy_ok ?c ?s" "reply ?c = a # as" using assms(1,3) by simp_all
  from pop_reply [OF this] obtain s' where s': "del_first_reply ?c ?s = Some (?c\<lparr>reply := as\<rparr>, s')"
    "busy_ok (?c\<lparr>reply := as\<rparr>) s'" "keyspace s' = keyspace ?s"
    "pending (?c\<lparr>reply := as\<rparr>) s' = pending (?c\<lparr>reply := as\<rparr>) ?s" "\<forall>b \<in> set as. reply_text s' b = reply_text ?s b" by blast
  have up: "?c\<lparr>reply := as\<rparr> = c\<lparr>reply := as\<rparr>\<lparr>sent_len := sent_len c + n\<rparr>" by simp
  note s2 = s'(2,4) [unfolded up]
  let ?c' = "c\<lparr>reply := as\<rparr>"
  have pos: "0 \<le> sent_len c" using assms(2) by (simp add: sending_def)
  have p: "pending ?c' s' = drop (length (reply_text s a)) (pending c s)"
    using s2(2) pending_Cons [OF assms(3), of s] by (simp add: pending_def)
  have "length (reply_text s a) = nat (sent_len c) + nat n" using assms(4,5) pos by simp
  then have "unsent c s = take (nat n) (unsent c s) @ pending ?c' s'"
    by (simp add: p unsent_def add.commute flip: drop_drop)
  moreover have "sending (?c'\<lparr>sent_len := 0\<rparr>) s'" using assms(2,3) s'(5) by (simp add: sending_def t)
  moreover have "unsent (?c'\<lparr>sent_len := 0\<rparr>) s' = pending ?c' s'" by (simp add: unsent_def)
  moreover have "busy_ok (?c'\<lparr>sent_len := 0\<rparr>) s'" using s2(1) by (simp only: busy_upd)
  moreover have "wrote (c_fd c) s (take (nat n) (unsent c s)) s'"
    using assms(6) del_first_world [OF s'(1)] by (simp add: wrote_def)
  ultimately have "delivered c s (take (nat n) (unsent c s)) (?c'\<lparr>sent_len := 0\<rparr>) s'"
    using s'(3) unfolding delivered_def by simp
  then show ?thesis using s'(1) p by auto
qed

text \<open>
  The loop comes to an end, whatever \<open>write\<close> does: every round drops a reply or sends a byte. It stops
  when all is sent or when \<open>write\<close> yields nothing.
\<close>

definition to_send :: "CutisClient \<Rightarrow> CutisServer \<Rightarrow> nat" where
  "to_send c s = length (reply c) + length (pending c s) - nat (sent_len c)"

text \<open>The last \<open>write\<close> took nothing or failed: \<open>nw\<close> is what it yielded.\<close>

definition stalled :: "int \<Rightarrow> CutisServer \<Rightarrow> CutisServer \<Rightarrow> bool" where
  "stalled nw s s' \<longleftrightarrow> nw \<le> 0 \<and>
     (\<exists>i. calls (world s) \<le> i \<and> i < calls (world s') \<and> sys (world s) i = nw)"

definition send_done :: "int \<Rightarrow> CutisClient \<Rightarrow> CutisServer \<Rightarrow> (int \<times> int \<times> CutisClient \<times> CutisServer) option \<Rightarrow> bool" where
  "send_done w c s r \<longleftrightarrow> (\<exists>nw' w' c' s' sent. r = Some (nw', w', c', s') \<and> delivered c s sent c' s' \<and>
     w' = w + int (length sent) \<and> (reply c' = [] \<and> 0 \<le> nw' \<or> stalled nw' s s'))"

lemma send_done_step:
  assumes "delivered c s x c1 s1" and "send_done (w + int (length x)) c1 s1 r"
  shows "send_done w c s r"
proof -
  from assms(2) obtain nw' w' c' s' y where r: "r = Some (nw', w', c', s')" "delivered c1 s1 y c' s'"
    "w' = w + int (length x) + int (length y)" "reply c' = [] \<and> 0 \<le> nw' \<or> stalled nw' s1 s'"
    by (auto simp: send_done_def)
  have "wrote (c_fd c) s x s1" using assms(1) by (simp add: delivered_def)
  then have "stalled nw' s1 s' \<Longrightarrow> stalled nw' s s'" unfolding stalled_def wrote_def by (metis order_trans)
  with r(1,3,4) delivered_trans [OF assms(1) r(2)] show ?thesis
    unfolding send_done_def by (intro exI [of _ nw'] exI [of _ w'] exI [of _ c'] exI [of _ s'] exI [of _ "x @ y"]) auto
qed

lemma delivered_here: "busy_ok c s \<Longrightarrow> sending c s \<Longrightarrow> delivered c s [] c s"
  by (simp add: delivered_def)

lemma sending_world [simp]:
  "sending c (s\<lparr>world := w\<rparr>) = sending c s" "to_send c (s\<lparr>world := w\<rparr>) = to_send c s"
  "reply_text (s\<lparr>world := w\<rparr>) a = reply_text s a" "unsent c (s\<lparr>world := w\<rparr>) = unsent c s"
  by (simp_all add: sending_def to_send_def reply_text_def unsent_def)

text \<open>A round of the loop either is the last one or leaves less to send.\<close>

definition send_goes_on :: "int \<Rightarrow> CutisClient \<Rightarrow> CutisServer \<Rightarrow> (int \<times> int \<times> CutisClient \<times> CutisServer) option \<Rightarrow> bool" where
  "send_goes_on w c s r \<longleftrightarrow> (\<exists>nw1 x c1 s1. r = send_loop nw1 (w + int (length x)) c1 s1 \<and> 0 \<le> nw1 \<and>
     delivered c s x c1 s1 \<and> to_send c1 s1 < to_send c s)"

lemma send_empty:
  assumes "busy_ok c s" and "sending c s" and "reply c = a # as" and "reply_text s a = []"
    and "0 \<le> nw"
  shows "send_goes_on w c s (send_loop nw w c s)"
proof -
  have str: "string_at (heap s) a = Some []" using reply_string [OF assms(1)] assms(3,4) by simp
  from step_empty [OF assms(1-4)] obtain s' where s': "del_first_reply c s = Some (c\<lparr>reply := as\<rparr>, s')"
    "delivered c s [] (c\<lparr>reply := as\<rparr>) s'" "pending (c\<lparr>reply := as\<rparr>) s' = pending c s" "sent_len c = 0" by blast
  have "send_loop nw w c s = send_loop nw (w + int (length ([] :: string))) (c\<lparr>reply := as\<rparr>) s'"
    by (subst send_loop.simps) (simp add: assms(3) str s'(1) as_int_def)
  moreover have "to_send (c\<lparr>reply := as\<rparr>) s' < to_send c s" using s'(3,4) assms(3) by (simp add: to_send_def)
  ultimately show ?thesis using s'(2) assms(5) unfolding send_goes_on_def by blast
qed

lemma send_body:
  assumes "busy_ok c s" and "sending c s" and "reply c = a # as" and "reply_text s a \<noteq> []"
    and "write_call (c_fd c) (drop (nat (sent_len c)) (reply_text s a)) s = (n, s1)"
  shows "send_loop nw w c s = (if n \<le> 0 then Some (n, w, c, s1)
    else if sent_len c + n = int (length (reply_text s a))
    then do { (c, s) \<leftarrow> del_first_reply (c\<lparr>sent_len := sent_len c + n\<rparr>) s1;
              send_loop n (w + n) (c\<lparr>sent_len := 0\<rparr>) s }
    else send_loop n (w + n) (c\<lparr>sent_len := sent_len c + n\<rparr>) s1)"
proof -
  have "string_at (heap s) a = Some (reply_text s a)" using reply_string [OF assms(1)] assms(3) by simp
  moreover have "as_int (int (length (reply_text s a))) = int (length (reply_text s a))"
    using assms(2,3) by (simp add: sending_def c_limits)
  moreover have "0 \<le> sent_len c" "sent_len c < int (length (reply_text s a))"
    using assms(2-4) by (auto simp: sending_def)
  moreover from this have "take (nat (int (length (reply_text s a)) - sent_len c)) (drop (nat (sent_len c)) (reply_text s a)) =
      drop (nat (sent_len c)) (reply_text s a)" by (intro take_all) simp
  ultimately show ?thesis
    by (subst send_loop.simps) (simp add: assms(3-5) Let_def)
qed

lemma send_some:
  assumes "busy_ok c s" and "sending c s" and "reply c = a # as" and "reply_text s a \<noteq> []"
  shows "send_done w c s (send_loop nw w c s) \<or> send_goes_on w c s (send_loop nw w c s)"
proof -
  let ?t = "reply_text s a"
  let ?rest = "drop (nat (sent_len c)) ?t"
  have sl: "0 \<le> sent_len c" "sent_len c < int (length ?t)" using assms(2-4) by (auto simp: sending_def)
  note pc = pending_Cons [OF assms(3), of s]
  obtain n w1 where wc: "write_call (c_fd c) ?rest s = (n, s\<lparr>world := w1\<rparr>)"
    "wrote (c_fd c) s (take (nat n) ?rest) (s\<lparr>world := w1\<rparr>)"
    "n = min (sys (world s) (calls (world s))) (int (length ?rest))" "calls w1 = Suc (calls (world s))"
    by (rule write_call_wrote)
  have n: "n \<le> int (length ?t) - sent_len c" using wc(3) sl by simp
  let ?s = "s\<lparr>world := w1\<rparr>"
  let ?c = "c\<lparr>sent_len := sent_len c + n\<rparr>"
  note body = send_body [OF assms wc(1), of nw w]
  have front: "take (nat n) ?rest = take (nat n) (unsent c s)" using n sl pc by (simp add: unsent_def)
  have u: "int (length (take (nat n) (unsent c s))) = n" if "0 < n"
    using that n sl pc by (simp add: unsent_def)
  note wr = wc(2) [unfolded front]
  consider "n \<le> 0" | "0 < n" "sent_len c + n < int (length ?t)" | "0 < n" "sent_len c + n = int (length ?t)"
    using n by linarith
  then show ?thesis
  proof cases
    case 1
    then have "wrote (c_fd c) s [] ?s" using wr by simp
    then have "delivered c s [] c ?s" using assms(1,2) by (simp add: delivered_def)
    moreover have "sys (world s) (calls (world s)) = n" using 1 wc(3) sl by (auto simp: min_def split: if_splits)
    then have "stalled n s ?s" using 1 wc(4) by (auto simp: stalled_def)
    ultimately have "send_done w c s (send_loop nw w c s)"
      using 1 body unfolding send_done_def
      by (intro exI [of _ n] exI [of _ w] exI [of _ c] exI [of _ ?s] exI [of _ "[]"]) simp
    then show ?thesis ..
  next
    case 2
    note d = step_part [OF assms(1-3) 2 wr]
    have "send_loop nw w c s = send_loop n (w + int (length (take (nat n) (unsent c s)))) ?c ?s"
      using body 2 u by simp
    moreover have "to_send ?c ?s < to_send c s" using 2 sl pc assms(3) by (simp add: to_send_def nat_add_distrib)
    ultimately have "send_goes_on w c s (send_loop nw w c s)" using d 2(1) unfolding send_goes_on_def by fastforce
    then show ?thesis ..
  next
    case 3
    from step_rest [OF assms(1-3) 3 wr] obtain s' where
      s': "del_first_reply ?c ?s = Some (?c\<lparr>reply := as\<rparr>, s')"
      "delivered c s (take (nat n) (unsent c s)) (c\<lparr>reply := as, sent_len := 0\<rparr>) s'"
      "pending (c\<lparr>reply := as\<rparr>) s' = drop (length ?t) (pending c s)" by auto
    let ?c' = "c\<lparr>reply := as, sent_len := 0\<rparr>"
    have "send_loop nw w c s = send_loop n (w + int (length (take (nat n) (unsent c s)))) ?c' s'"
      using body 3 s'(1) u by simp
    moreover have "pending ?c' s' = drop (length ?t) (pending c s)" using s'(3) by (simp add: pending_def)
    then have "to_send ?c' s' < to_send c s" using assms(3) pc sl by (simp add: to_send_def)
    ultimately have "send_goes_on w c s (send_loop nw w c s)" using s'(2) 3(1) unfolding send_goes_on_def by fastforce
    then show ?thesis ..
  qed
qed

theorem send_loop_ends:
  assumes "busy_ok c s" and "sending c s" and "0 \<le> nw"
  shows "send_done w c s (send_loop nw w c s)"
  using assms
proof (induction "to_send c s" arbitrary: nw w c s rule: less_induct)
  case less
  note ok = less.prems
  have on: "send_done w c s (send_loop nw w c s)" if g: "send_goes_on w c s (send_loop nw w c s)"
  proof -
    from g obtain nw1 x c1 s1 where r: "send_loop nw w c s = send_loop nw1 (w + int (length x)) c1 s1"
      "delivered c s x c1 s1" "to_send c1 s1 < to_send c s" "0 \<le> nw1" unfolding send_goes_on_def by blast
    then show ?thesis using send_done_step [OF r(2), of w] less.hyps [OF r(3), of nw1 "w + int (length x)"]
      by (simp add: delivered_def)
  qed
  show ?case
  proof (cases "reply c")
    case Nil
    then have "send_loop nw w c s = Some (nw, w, c, s)" by (simp add: send_loop.simps)
    then show ?thesis using delivered_here [OF ok(1,2)] Nil ok(3) by (simp add: send_done_def)
  next
    case (Cons a as)
    show ?thesis
      using on send_empty [OF ok(1,2) Cons _ ok(3), of w] send_some [OF ok(1,2) Cons, of w nw]
      by (cases "reply_text s a = []") auto
  qed
qed

lemma FreeClient_world: "FreeClient c s = Some s' \<Longrightarrow> world s' = world s"
  by (auto simp: FreeClient_def Let_def split: bind_splits)

text \<open>
  So the handler for writable sockets always returns. What has gone out is the beginning of what was
  waiting, on the client's descriptor and no other. It stops before the end only when \<open>write\<close> takes
  nothing, and the client is freed only when \<open>write\<close> fails.
\<close>

theorem replies_sent:
  assumes "idle_ok s" and "client_at s p = Some c" and "sending c s"
  shows "\<exists>r s' sent. with_client SendReplyToClient p s = Some (r, s') \<and> idle_ok s' \<and> keyspace s' = keyspace s \<and>
    wrote (c_fd c) s sent s' \<and>
    (case client_at s' p of
       None \<Rightarrow> r = AE_ERR \<and> (\<exists>rest. unsent c s = sent @ rest) \<and> (\<exists>nw < -1. stalled nw s s')
     | Some c' \<Rightarrow> r = AE_OK \<and> sending c' s' \<and> unsent c s = sent @ unsent c' s' \<and>
         (reply c' \<noteq> [] \<longrightarrow> stalled 0 s s' \<or> stalled (-1) s s'))"
proof -
  let ?s = "s\<lparr>client_at := (client_at s)(p := None)\<rparr>"
  note out = check_out [OF assms(1,2)]
  have "sending c ?s" using assms(3) by (simp add: sending_def reply_text_def)
  from send_loop_ends [OF out(1) this, of 0 0] obtain nw w c1 s1 sent where
    l: "send_loop 0 0 c ?s = Some (nw, w, c1, s1)" "delivered c ?s sent c1 s1"
      "reply c1 = [] \<and> 0 \<le> nw \<or> stalled nw ?s s1" by (auto simp: send_done_def)
  have d: "busy_ok c1 s1" "conn_ok c1" "sending c1 s1" "keyspace s1 = keyspace s" "c_id c1 = p"
    "unsent c s = sent @ unsent c1 s1" "wrote (c_fd c) s sent s1"
    using l(2) out(2,3) by (simp_all add: delivered_def unsent_def wrote_def)
  have st: "stalled n ?s t = stalled n s t" for n t by (simp add: stalled_def)
  show ?thesis
  proof (cases "nw < -1")
    case True
    from FreeClient_ok [OF d(1)] obtain s2 where s2: "FreeClient c1 s1 = Some s2" "idle_ok s2" "p \<notin> set (clients s2)"
      "keyspace s2 = keyspace s" using d(4,5) by auto
    then have "client_at s2 p = None" by (auto simp: idle_ok_def clients_ok_def)
    then have "s2\<lparr>client_at := (client_at s2)(p := None)\<rparr> = s2" by (simp add: fun_upd_idem)
    moreover have "SendReplyToClient c ?s = Some (AE_ERR, None, s2)"
      using l(1) True s2(1) by (simp add: SendReplyToClient_def)
    moreover have "wrote (c_fd c) s sent s2" "stalled nw s s2"
      using d(7) l(3) True FreeClient_world [OF s2(1)] by (auto simp: wrote_def stalled_def)
    ultimately show ?thesis using assms(2) s2 \<open>client_at s2 p = None\<close> d(6) True
      by (intro exI [of _ AE_ERR] exI [of _ s2] exI [of _ sent]) (auto simp: with_client_def)
  next
    case False
    obtain t w2 where sys: "syscall s1 = (t, s1\<lparr>world := w2\<rparr>)" "wire w2 = wire (world s1)" "sys w2 = sys (world s1)"
      "calls (world s1) \<le> calls w2"
      by (simp add: syscall_def sys_call_def)
    have "\<exists>c2 s2. SendReplyToClient c ?s = Some (AE_OK, Some c2, s2) \<and> busy_ok c2 s2 \<and> conn_ok c2 \<and> c_id c2 = p \<and>
      keyspace s2 = keyspace s \<and> sending c2 s2 \<and> unsent c2 s2 = unsent c1 s1 \<and> reply c2 = reply c1 \<and>
      wire (world s2) = wire (world s1) \<and> sys (world s2) = sys (world s1) \<and> calls (world s1) \<le> calls (world s2)"
      using l(1) False sys d
      by (simp add: SendReplyToClient_def) (auto simp: conn_ok_def unsent_def sending_def reply_text_def pending_def)
    then obtain c2 s2 where r: "SendReplyToClient c ?s = Some (AE_OK, Some c2, s2)" "busy_ok c2 s2" "conn_ok c2" "c_id c2 = p"
      "keyspace s2 = keyspace s" "sending c2 s2" "unsent c2 s2 = unsent c1 s1" "reply c2 = reply c1"
      "wire (world s2) = wire (world s1)" "sys (world s2) = sys (world s1)" "calls (world s1) \<le> calls (world s2)" by blast
    let ?s2 = "s2\<lparr>client_at := (client_at s2)(p \<mapsto> c2)\<rparr>"
    have "with_client SendReplyToClient p s = Some (AE_OK, ?s2)" using r(1) assms(2) by (simp add: with_client_def)
    moreover have "idle_ok ?s2" using check_in [OF r(2,3)] r(4) by simp
    moreover have "sending c2 ?s2" "unsent c s = sent @ unsent c2 ?s2"
      using r(6,7) d(6) by (simp_all add: sending_def reply_text_def unsent_def)
    moreover have "wrote (c_fd c) s sent ?s2" using d(7) r(9-11) by (simp add: wrote_def)
    moreover have "stalled 0 s ?s2 \<or> stalled (-1) s ?s2" if "reply c2 \<noteq> []"
    proof -
      have "stalled nw s s1" using l(3) that r(8) st by auto
      moreover from this have "nw = 0 \<or> nw = -1" using False by (auto simp: stalled_def)
      ultimately show ?thesis using r(11) by (fastforce simp: stalled_def)
    qed
    ultimately show ?thesis using r(5)
      by (intro exI [of _ AE_OK] exI [of _ ?s2] exI [of _ sent]) auto
  qed
qed

end
