(* ===== verification/Persist_Spec.thy ===== *)
theory Persist_Spec
  imports Lifecycle
begin

declare One_nat_def [simp del]

text \<open>
  Saving and loading fit together: the bytes \<open>SaveDB\<close> writes are the encoding of the records of the
  databases, and \<open>LoadDB\<close> rebuilds the databases from them. A save that reports an error leaves
  the old file alone; what one that reports success has written is said exactly.
\<close>

section \<open>The encoding\<close>

text \<open>A decoder reads an encoding off the front and hands the rest back.\<close>

locale codec =
  fixes valid :: "'a \<Rightarrow> bool" and enc :: "'a \<Rightarrow> string" and dec :: "string \<Rightarrow> ('a \<times> string) outcome option"
  assumes reads_back: "valid x \<Longrightarrow> dec (enc x @ r) = Some (Returns (x, r))"
begin

text \<open>So no encoding is the beginning of another.\<close>

lemma unambiguous:
  assumes "valid x" and "valid y" and eq: "enc x @ r = enc y @ r'"
  shows "x = y \<and> r = r'"
proof -
  have "dec (enc x @ r) = Some (Returns (y, r'))" unfolding eq by (rule reads_back [OF assms(2)])
  with reads_back [OF assms(1), of r] show ?thesis by simp
qed

end

definition enc_string :: "string \<Rightarrow> string" where
  "enc_string v = be32 (length v) @ v"

definition short :: "string \<Rightarrow> bool" where
  "short v \<longleftrightarrow> length v < 2 ^ 32"

lemma of_byte: "(of_char (byte n) :: nat) = n mod 256"
  by (simp add: byte_def of_char_of)

lemma horner: "x = a * 256 + b \<Longrightarrow> y = x * 256 + c \<Longrightarrow> n = y * 256 + d \<Longrightarrow> a * 2 ^ 24 + b * 2 ^ 16 + c * 2 ^ 8 + d = (n :: nat)"
  by simp

lemma digits_256:
  fixes n :: nat
  assumes "n < 2 ^ 32"
  shows "n div 2 ^ 24 mod 256 * 2 ^ 24 + n div 2 ^ 16 mod 256 * 2 ^ 16 + n div 2 ^ 8 mod 256 * 2 ^ 8 + n mod 256 = n"
proof (rule horner)
  have "n div 2 ^ 24 < 256" using assms by simp
  then show "n div 2 ^ 16 = n div 2 ^ 24 mod 256 * 256 + n div 2 ^ 16 mod 256"
    using div_mult_mod_eq [of "n div 2 ^ 16" 256] by (simp add: div_mult2_eq [symmetric])
  show "n div 2 ^ 8 = n div 2 ^ 16 * 256 + n div 2 ^ 8 mod 256"
    using div_mult_mod_eq [of "n div 2 ^ 8" 256] by (simp add: div_mult2_eq [symmetric])
  show "n = n div 2 ^ 8 * 256 + n mod 256" using div_mult_mod_eq [of n 256] by simp
qed

interpretation u32: codec "\<lambda>n. n < 2 ^ 32" be32 read_u32
proof
  fix n :: nat and r
  assume "n < 2 ^ 32"
  from digits_256 [OF this] show "read_u32 (be32 n @ r) = Some (Returns (n, r))"
    unfolding be32_def read_u32_def append.simps list.case of_byte by (simp only:)
qed

lemma read_bytes_all: "v \<noteq> [] \<Longrightarrow> read_bytes (length v) (v @ r) = Some (Returns (v, r))"
  by (simp add: read_bytes_def)

interpretation sized: codec short enc_string read_value
proof
  fix v r
  assume "short v"
  then have "read_u32 (be32 (length v) @ v @ r) = Some (Returns (length v, v @ r))"
    by (intro u32.reads_back) (simp add: short_def)
  then show "read_value (enc_string v @ r) = Some (Returns (v, r))"
    using read_bytes_all [of v r] by (cases v) (simp_all add: read_value_def enc_string_def)
qed

text \<open>A record: a key and a value; the members of a set in some order.\<close>

datatype stored = Str string | Lst "string list" | St "string list"

fun value_of :: "stored \<Rightarrow> cvalue" where
  "value_of (Str v) = VString v"
| "value_of (Lst vs) = VList vs"
| "value_of (St vs) = VSet (set vs)"

definition enc_strings :: "string list \<Rightarrow> string" where
  "enc_strings vs = be32 (length vs) @ concat (map enc_string vs)"

fun enc_stored :: "stored \<Rightarrow> string" where
  "enc_stored (Str v) = enc_string v"
| "enc_stored (Lst vs) = enc_strings vs"
| "enc_stored (St vs) = enc_strings vs"

fun type_code :: "stored \<Rightarrow> int" where
  "type_code (Str _) = CUTIS_STRING"
| "type_code (Lst _) = CUTIS_LIST"
| "type_code (St _) = CUTIS_SET"

definition enc_record :: "string \<times> stored \<Rightarrow> string" where
  "enc_record r = byte (nat (type_code (snd r))) # enc_string (fst r) @ enc_stored (snd r)"

definition enc_db :: "nat \<times> (string \<times> stored) list \<Rightarrow> string" where
  "enc_db jr = (if snd jr = [] then [] else byte CUTIS_SELECT_DB # be32 (fst jr) @ concat (map enc_record (snd jr)))"

definition enc_file :: "(string \<times> stored) list list \<Rightarrow> string" where
  "enc_file dbs = CUTIS_DB_SIGNATURE @ concat (map enc_db (List.enumerate 0 dbs)) @ [byte CUTIS_EOF]"

text \<open>What fits the format: lengths of 32 bits, a key that is not empty, sets a table has room for.\<close>

fun fits_format :: "stored \<Rightarrow> bool" where
  "fits_format (Str v) = short v"
| "fits_format (Lst vs) = (length vs < 2 ^ 32 \<and> list_all short vs)"
| "fits_format (St vs) = (length vs \<le> 2 ^ 27 \<and> distinct vs \<and> list_all short vs)"

definition record_ok :: "string \<times> stored \<Rightarrow> bool" where
  "record_ok r \<longleftrightarrow> fst r \<noteq> [] \<and> short (fst r) \<and> fits_format (snd r)"

section \<open>What is written\<close>

text \<open>The records of a database, as they lie in the heap.\<close>

definition stored_at :: "heap \<Rightarrow> addr \<Rightarrow> stored" where
  "stored_at h a = (case objs h a of
      Some o' \<Rightarrow> (case optr o' of
          OString s \<Rightarrow> Str (case s of Some v \<Rightarrow> v | None \<Rightarrow> [])
        | OList l \<Rightarrow> Lst (map (obj_str h) l)
        | OSet d \<Rightarrow> St (map (obj_str h \<circ> fst) (entries d)))
    | None \<Rightarrow> Str [])"

definition records :: "heap \<Rightarrow> (string, addr) Dict \<Rightarrow> (string \<times> stored) list" where
  "records h d = map (\<lambda>(k, a). (k, stored_at h a)) (entries d)"

definition bytes_of :: "chunk list \<Rightarrow> string" where
  "bytes_of chs = concat (map chunk_bytes chs)"

lemma bytes_of_simps [simp]:
  "bytes_of [] = []" "bytes_of (ch # chs) = chunk_bytes ch @ bytes_of chs" "bytes_of (xs @ ys) = bytes_of xs @ bytes_of ys"
  by (simp_all add: bytes_of_def)

lemma bytes_of_concat: "bytes_of (concat xss) = concat (map bytes_of xss)"
  by (induction xss) simp_all

lemma save_string_bytes [simp]: "bytes_of (save_string v) = enc_string v"
  by (simp add: save_string_def enc_string_def)

lemma save_strings_bytes: "bytes_of (concat (map (save_string \<circ> f) vs)) = concat (map (enc_string \<circ> f) vs)"
  "bytes_of (concat (map (\<lambda>x. save_string (f x)) vs)) = concat (map (\<lambda>x. enc_string (f x)) vs)"
  by (induction vs) simp_all

lemma mapM_map: "(\<And>x. x \<in> set xs \<Longrightarrow> f x = Some (g x)) \<Longrightarrow> mapM f xs = Some (map g xs)"
  by (induction xs) simp_all

lemma string_at_str: "is_string (objs h) x \<Longrightarrow> string_at h x = Some (obj_str h x)"
  by (auto simp: is_string_def string_at_def obj_str_def)

lemma save_value_bytes:
  assumes "wf_ptr (objs h) p" and "p \<noteq> OString None" and "objs h a = Some o'" and "optr o' = p"
  shows "\<exists>chs. save_value h p = Some chs \<and> bytes_of chs = enc_stored (stored_at h a) \<and>
    otype p = type_code (stored_at h a) \<and> value_of (stored_at h a) = obj_value h a"
proof (cases p)
  case (OString s)
  then show ?thesis using assms by (auto simp: save_value_def stored_at_def obj_value_def )
next
  case (OList l)
  then have "mapM (string_at h) l = Some (map (obj_str h) l)"
    using assms(1) by (intro mapM_map) (simp add: string_at_str)
  then show ?thesis using OList assms(3,4)
    by (simp add: save_value_def stored_at_def obj_value_def  enc_strings_def save_strings_bytes)
next
  case (OSet d)
  have t: "table_ok h d" "\<forall>x \<in> fst ` set (entries d). is_string (objs h) x"
    using assms(1) OSet by (auto simp: set_ok_iff)
  then have "mapM (\<lambda>e. string_at h (fst e)) (entries d) = Some (map (obj_str h \<circ> fst) (entries d))"
    by (intro mapM_map) (auto simp: string_at_str)
  then show ?thesis using OSet assms(3,4) dict_iterate_ok [OF t(1)] dict_ok_tableD(2) [OF t(1)]
    by (simp add: save_value_def stored_at_def obj_value_def  enc_strings_def save_strings_bytes image_comp comp_def)
qed

text \<open>A call of \<open>fwrite\<close> that is asked to write nothing reports an error, so no chunk may be empty.\<close>

fun whole :: "chunk \<Rightarrow> bool" where
  "whole (Item x) = True"
| "whole (Bytes x) = (x \<noteq> [])"

definition writes :: "chunk list \<Rightarrow> string \<Rightarrow> bool" where
  "writes chs b \<longleftrightarrow> bytes_of chs = b \<and> list_all whole chs"

lemma writes_simps [simp]: "writes [] b \<longleftrightarrow> b = []" "writes (save_string v) (enc_string v)"
  by (auto simp: writes_def) (simp add: save_string_def)

lemma writes_append: "writes xs a \<Longrightarrow> writes ys b \<Longrightarrow> writes (xs @ ys) (a @ b)"
  by (simp add: writes_def)

lemma value_whole: "save_value h p = Some chs \<Longrightarrow> list_all whole chs"
  by (auto simp: save_value_def save_string_def list_all_iff split: optr.splits bind_splits if_splits)

lemma save_entry_writes:
  assumes "heap_ok R h" and "obj_value h a \<noteq> VNull" and "k \<noteq> []"
  shows "\<exists>chs. save_entry h (k, a) = Some chs \<and> writes chs (enc_record (k, stored_at h a))"
    and "value_of (stored_at h a) = obj_value h a"
proof -
  from value_live [OF assms(2)] obtain o' where o': "objs h a = Some o'" by blast
  then have "optr o' \<noteq> OString None" using assms(2) by (auto simp: obj_value_def)
  from save_value_bytes [OF live_wf [OF assms(1) o'] this o' refl] obtain chs where
    c: "save_value h (optr o') = Some chs" "bytes_of chs = enc_stored (stored_at h a)"
    "otype (optr o') = type_code (stored_at h a)" "value_of (stored_at h a) = obj_value h a" by blast
  then show "value_of (stored_at h a) = obj_value h a" by simp
  show "\<exists>chs. save_entry h (k, a) = Some chs \<and> writes chs (enc_record (k, stored_at h a))"
    using c value_whole [OF c(1)] o' assms(3)
    by (simp add: save_entry_def writes_def enc_record_def enc_string_def)
qed

lemma mapM_writes:
  "(\<And>x. x \<in> set xs \<Longrightarrow> \<exists>chs. f x = Some chs \<and> writes chs (g x)) \<Longrightarrow>
     \<exists>css. mapM f xs = Some css \<and> writes (concat css) (concat (map g xs))"
proof (induction xs)
  case (Cons x xs)
  then obtain chs css where "f x = Some chs" "writes chs (g x)" "mapM f xs = Some css" "writes (concat css) (concat (map g xs))"
    by fastforce
  then show ?case by (simp add: writes_append)
qed simp

lemma save_db_writes:
  assumes "heap_ok R h" and "dict_ok sdsDictType (\<lambda>k. k) d"
    and "\<forall>e \<in> set (entries d). obj_value h (snd e) \<noteq> VNull \<and> fst e \<noteq> []"
  shows "\<exists>chs. save_db h (j, d) = Some chs \<and> writes chs (enc_db (j, records h d))"
proof (cases "entries d = []")
  case True
  then have "d_used d = 0" using dict_ok_tableD(2) [OF assms(2)] by (simp add: unat_eq_0)
  then show ?thesis using True by (simp add: save_db_def enc_db_def records_def)
next
  case False
  then have u: "d_used d \<noteq> 0" using dict_ok_tableD(2) [OF assms(2)] by auto
  have "\<exists>chs. save_entry h e = Some chs \<and> writes chs (enc_record (fst e, stored_at h (snd e)))" if "e \<in> set (entries d)" for e
    using save_entry_writes(1) [OF assms(1), of "snd e" "fst e"] assms(3) that by simp
  then obtain css where
    c: "mapM (save_entry h) (entries d) = Some css"
    "writes (concat css) (concat (map (\<lambda>e. enc_record (fst e, stored_at h (snd e))) (entries d)))"
    using mapM_writes [of "entries d" "save_entry h" "\<lambda>e. enc_record (fst e, stored_at h (snd e))"] by blast
  have "map enc_record (records h d) = map (\<lambda>e. enc_record (fst e, stored_at h (snd e))) (entries d)"
    by (simp add: records_def split_def)
  then show ?thesis using u c False dict_iterate_ok [OF assms(2)]
    by (simp add: save_db_def enc_db_def writes_def) (simp add: records_def)
qed

lemma save_chunks_writes:
  assumes "heap_ok R (heap s)" and "dbs_ok s" and "\<forall>i k. addr_map s i k \<noteq> None \<longrightarrow> k \<noteq> []"
  shows "\<exists>chs. save_chunks s = Some chs \<and> writes chs (enc_file (map (records (heap s)) (dict s)))"
proof -
  have d: "\<exists>chs. save_db (heap s) jd = Some chs \<and> writes chs (enc_db (fst jd, records (heap s) (snd jd)))"
    if "jd \<in> set (List.enumerate 0 (dict s))" for jd
  proof -
    have j: "fst jd < length (dict s)" "snd jd = dict s ! fst jd" using that by (auto simp: in_set_enumerate_eq)
    note ok = dbs_okD [OF assms(2) j(1)]
    have "\<forall>e \<in> set (entries (snd jd)). obj_value (heap s) (snd e) \<noteq> VNull \<and> fst e \<noteq> []"
    proof
      fix e
      assume e: "e \<in> set (entries (snd jd))"
      then have "snd e \<in># db_refs s" using j by (auto simp: db_refs_def)
      moreover have "fst e \<in> dom (dict_map (\<lambda>k. k) (snd jd))"
        using e by (simp add: dict_map_def dom_map_of_conv_image_fst image_image split_def)
      then have "addr_map s (fst jd) (fst e) \<noteq> None" using j by (simp add: addr_map_def domIff)
      ultimately show "obj_value (heap s) (snd e) \<noteq> VNull \<and> fst e \<noteq> []" using assms(2,3) by (auto simp: dbs_ok_def)
    qed
    with save_db_writes [OF assms(1), of "snd jd" "fst jd"] ok show ?thesis by (simp add: j(2) [symmetric])
  qed
  then obtain css where
    c: "mapM (save_db (heap s)) (List.enumerate 0 (dict s)) = Some css"
    "writes (concat css) (concat (map (\<lambda>jd. enc_db (fst jd, records (heap s) (snd jd))) (List.enumerate 0 (dict s))))"
    using mapM_writes [of "List.enumerate 0 (dict s)" "save_db (heap s)" "\<lambda>jd. enc_db (fst jd, records (heap s) (snd jd))"]
    by blast
  have "map enc_db (List.enumerate 0 (map (records (heap s)) (dict s))) =
    map (\<lambda>jd. enc_db (fst jd, records (heap s) (snd jd))) (List.enumerate 0 (dict s))"
    by (simp add: enumerate_map_upt enumerate_eq_zip zip_map2 comp_def split_def)
  then show ?thesis using c by (simp add: save_chunks_def enc_file_def writes_def)
qed

section \<open>Saving\<close>

text \<open>
  What the calls of \<open>fwrite\<close> for the chunks take, from call number \<open>n\<close> of the system on, and when
  such a call counts as a success: an item must be taken whole, of single bytes one is enough.
\<close>

fun taken :: "(nat \<Rightarrow> int) \<Rightarrow> nat \<Rightarrow> chunk list \<Rightarrow> string list" where
  "taken f n [] = []"
| "taken f n (ch # chs) = take (nat (f n)) (chunk_bytes ch) # taken f (n + 2) chs"

fun accepted :: "chunk \<Rightarrow> string \<Rightarrow> bool" where
  "accepted (Item y) x \<longleftrightarrow> x = y"
| "accepted (Bytes y) x \<longleftrightarrow> x \<noteq> []"

lemma taken_whole:
  assumes "\<forall>i < length chs. int (length (chunk_bytes (chs ! i))) \<le> f (n + 2 * i)"
  shows "taken f n chs = map chunk_bytes chs"
  using assms
proof (induction chs arbitrary: n)
  case (Cons ch chs)
  have "int (length (chunk_bytes ch)) \<le> f n" using Cons.prems by fastforce
  moreover have "\<forall>i < length chs. int (length (chunk_bytes (chs ! i))) \<le> f (n + 2 + 2 * i)"
    using Cons.prems [rule_format, of "Suc _"] by simp
  ultimately show ?case using Cons.IH by simp
qed simp

lemma whole_accepted: "list_all whole chs \<Longrightarrow> list_all2 accepted chs (map chunk_bytes chs)"
proof (induction chs)
  case (Cons ch chs)
  then show ?case by (cases ch) simp_all
qed simp

lemma syscall_num: "syscall s = (sys (world s) (calls (world s)), s\<lparr>world := (world s)\<lparr>calls := calls (world s) + 1\<rparr>\<rparr>)"
  by (simp add: syscall_def sys_call_def)

text \<open>What is in the file and what is in the buffer is together what was there and what was taken.\<close>

lemma flush_runs:
  assumes "files (world s) name = Some old"
  obtains lost f s' where "flush name buf s = (lost, s')" and "f @ lost = old @ buf"
    and "files (world s') = (files (world s))(name \<mapsto> f)" and "sys (world s') = sys (world s)"
    and "calls (world s') = calls (world s) + 1" and "data_of s' = data_of s" and "dirty s' = dirty s"
    and "lost \<noteq> [] \<Longrightarrow> sys (world s) (calls (world s)) < int (length buf)"
proof -
  let ?n = "min (nat (sys (world s) (calls (world s)))) (length buf)"
  have "flush name buf s = (drop ?n buf, snd (flush name buf s))" by (simp add: flush_def syscall_num Let_def)
  moreover have "files (world (snd (flush name buf s))) = (files (world s))(name \<mapsto> old @ take ?n buf)"
    "sys (world (snd (flush name buf s))) = sys (world s)" "calls (world (snd (flush name buf s))) = calls (world s) + 1"
    "dirty (snd (flush name buf s)) = dirty s"
    using assms by (simp_all add: flush_def syscall_num set_file_def Let_def)
  moreover have "data_of (snd (flush name buf s)) = data_of s" by (rule flush_data) (rule prod.collapse [symmetric])
  moreover have "(old @ take ?n buf) @ drop ?n buf = old @ buf" by simp
  moreover have "sys (world s) (calls (world s)) < int (length buf)" if "drop ?n buf \<noteq> []" using that by auto
  ultimately show thesis using that by blast
qed

lemma fwrite_runs:
  assumes "files (world s) name = Some old"
  obtains buf' f s' where
    "fwrite name ch buf s = (accepted ch (take (nat (sys (world s) (calls (world s)))) (chunk_bytes ch)), buf', s')"
    and "f @ buf' = old @ buf @ take (nat (sys (world s) (calls (world s)))) (chunk_bytes ch)"
    and "files (world s') = (files (world s))(name \<mapsto> f)" and "sys (world s') = sys (world s)"
    and "calls (world s') = calls (world s) + 2" and "data_of s' = data_of s" and "dirty s' = dirty s"
proof -
  let ?r = "sys (world s) (calls (world s))"
  let ?x = "take (nat ?r) (chunk_bytes ch)"
  let ?s = "s\<lparr>world := (world s)\<lparr>calls := calls (world s) + 1\<rparr>\<rparr>"
  have s: "files (world ?s) name = Some old" "sys (world ?s) = sys (world s)" "calls (world ?s) = calls (world s) + 1"
    "data_of ?s = data_of s" "dirty ?s = dirty s" "files (world ?s) = files (world s)"
    using assms by (simp_all add: data_of_def)
  from flush_runs [OF s(1), of "buf @ ?x"] obtain lost f s' where
    f: "flush name (buf @ ?x) ?s = (lost, s')" "f @ lost = old @ buf @ ?x"
      "files (world s') = (files (world ?s))(name \<mapsto> f)" "sys (world s') = sys (world ?s)"
      "calls (world s') = calls (world ?s) + 1" "data_of s' = data_of ?s" "dirty s' = dirty ?s" by metis
  have x: "take (min (nat ?r) (length (chunk_bytes ch))) (chunk_bytes ch) = ?x" by (simp add: min_def)
  have "accepted ch ?x \<longleftrightarrow> (case ch of Item x \<Rightarrow> min (nat ?r) (length (chunk_bytes ch)) = length x
      | Bytes x \<Rightarrow> min (nat ?r) (length (chunk_bytes ch)) \<noteq> 0)"
    by (cases ch) auto
  then have "fwrite name ch buf s = (accepted ch ?x, lost, s')"
    using f(1) x by (simp add: fwrite_def syscall_num Let_def split: chunk.splits)
  then show thesis using that [of lost s' f] f(2-7) s(2-6) by simp
qed

lemma fwrites_runs:
  assumes "files (world s) name = Some old"
  obtains buf' f s' where
    "fwrites name chs buf s = (list_all2 accepted chs (taken (sys (world s)) (calls (world s)) chs), buf', s')"
    and "files (world s') = (files (world s))(name \<mapsto> f)" and "sys (world s') = sys (world s)"
    and "data_of s' = data_of s" and "dirty s' = dirty s"
    and "list_all2 accepted chs (taken (sys (world s)) (calls (world s)) chs) \<Longrightarrow>
      calls (world s') = calls (world s) + 2 * length chs \<and>
      f @ buf' = old @ buf @ concat (taken (sys (world s)) (calls (world s)) chs)"
  using assms
proof (induction chs arbitrary: s old buf thesis)
  case Nil
  then show ?case by (intro Nil.prems(1) [of buf s old]) (simp_all add: fun_upd_idem)
next
  case (Cons ch chs)
  let ?x = "take (nat (sys (world s) (calls (world s)))) (chunk_bytes ch)"
  from fwrite_runs [OF Cons.prems(2), of ch buf] obtain b1 f1 s1 where
    w: "fwrite name ch buf s = (accepted ch ?x, b1, s1)" "f1 @ b1 = old @ buf @ ?x"
      "files (world s1) = (files (world s))(name \<mapsto> f1)" "sys (world s1) = sys (world s)"
      "calls (world s1) = calls (world s) + 2" "data_of s1 = data_of s" "dirty s1 = dirty s" by metis
  show ?case
  proof (cases "accepted ch ?x")
    case False
    then show ?thesis using w by (intro Cons.prems(1) [of b1 s1 f1]) simp_all
  next
    case True
    have "files (world s1) name = Some f1" using w(3) by simp
    then obtain b2 f2 s2 where
      "fwrites name chs b1 s1 = (list_all2 accepted chs (taken (sys (world s1)) (calls (world s1)) chs), b2, s2)"
      "files (world s2) = (files (world s1))(name \<mapsto> f2)" "sys (world s2) = sys (world s1)"
      "data_of s2 = data_of s1" "dirty s2 = dirty s1"
      "list_all2 accepted chs (taken (sys (world s1)) (calls (world s1)) chs) \<Longrightarrow>
         calls (world s2) = calls (world s1) + 2 * length chs \<and>
         f2 @ b2 = f1 @ b1 @ concat (taken (sys (world s1)) (calls (world s1)) chs)"
      using Cons.IH [where s = s1 and buf = b1] by metis
    then show ?thesis using True w by (intro Cons.prems(1) [of b2 s2 f2]) simp_all
  qed
qed

text \<open>
  The disk has room for the chunks: the file opens, every write takes all its bytes, closing the file
  writes out whatever is still in the buffer, the temporary file is renamed. \<open>n\<close> is the number of the
  call of \<open>time\<close> that \<open>SaveDB\<close> starts with.
\<close>

definition disk_takes :: "world \<Rightarrow> chunk list \<Rightarrow> bool" where
  "disk_takes w chs \<longleftrightarrow> (let n = calls w in
     sys w (n + 2) \<noteq> 0 \<and> (\<forall>i < length chs. int (length (chunk_bytes (chs ! i))) \<le> sys w (n + 3 + 2 * i)) \<and>
     int (length (concat (map chunk_bytes chs))) \<le> sys w (n + 3 + 2 * length chs) \<and>
     sys w (n + 4 + 2 * length chs) \<noteq> -1)"

definition tmp_of :: "world \<Rightarrow> string" where
  "tmp_of w = tmp_name (sys w (calls w)) (sys w (calls w + 1))"

lemma save_chunks_data: "data_of s' = data_of s \<Longrightarrow> save_chunks s' = save_chunks s"
  by (simp add: save_chunks_def data_of_def)

text \<open>The first three calls, and the file that is open then.\<close>

definition at_call :: "CutisServer \<Rightarrow> nat \<Rightarrow> CutisServer" where
  "at_call s i = s\<lparr>world := (world s)\<lparr>calls := calls (world s) + i\<rparr>\<rparr>"

definition opened :: "CutisServer \<Rightarrow> CutisServer" where
  "opened s = set_file (tmp_of (world s)) (Some []) (at_call s 3)"

definition renamed :: "string \<Rightarrow> string \<Rightarrow> CutisServer \<Rightarrow> CutisServer" where
  "renamed filename tmp s = set_file tmp None (set_file filename (files (world s) tmp) s)"

lemma at_calls:
  "syscall s = (sys (world s) (calls (world s)), at_call s 1)"
  "syscall (at_call s 1) = (sys (world s) (calls (world s) + 1), at_call s 2)"
  "syscall (at_call s 2) = (sys (world s) (calls (world s) + 2), at_call s 3)"
  by (simp_all add: syscall_num at_call_def)

lemma at_call_simps [simp]:
  "data_of (at_call s i) = data_of s" "dirty (at_call s i) = dirty s" "sys (world (at_call s i)) = sys (world s)"
  "calls (world (at_call s i)) = calls (world s) + i" "files (world (at_call s i)) = files (world s)"
  by (simp_all add: at_call_def)

lemma opened_simps [simp]:
  "data_of (opened s) = data_of s" "dirty (opened s) = dirty s" "sys (world (opened s)) = sys (world s)"
  "calls (world (opened s)) = calls (world s) + 3"
  "files (world (opened s)) = (files (world s))(tmp_of (world s) \<mapsto> [])"
  by (simp_all add: opened_def) (simp_all add: set_file_def)

lemma set_file_files [simp]:
  "files (world (set_file name x s)) = (files (world s))(name := x)" "dirty (set_file name x s) = dirty s"
  by (simp_all add: set_file_def)

lemma SaveDB_body:
  "SaveDB filename s =
     (if sys (world s) (calls (world s) + 2) = 0 then Some (CUTIS_ERR, at_call s 3)
      else save_chunks s \<bind> (\<lambda>chs.
        let tmp = tmp_of (world s); (ok, buf, s2) = fwrites tmp chs [] (opened s); (closed, s3) = fclose tmp buf s2 in
        if \<not> ok then Some (CUTIS_ERR, set_file tmp None s3)
        else if fst (syscall s3) = -1 then Some (CUTIS_ERR, set_file tmp None (snd (syscall s3)))
        else let (now, s4) = syscall (renamed filename tmp (snd (syscall s3)))
             in Some (CUTIS_OK, s4\<lparr>dirty := 0, last_save := now\<rparr>)))"
proof -
  have c: "save_chunks (opened s) = save_chunks s" by (rule save_chunks_data) simp
  show ?thesis
    unfolding SaveDB_def at_calls(1) [of s] Let_def prod.case at_calls(2,3) tmp_of_def [symmetric]
      opened_def [symmetric] renamed_def [symmetric] c
    by (simp only: case_prod_unfold)
qed

text \<open>
  How a save that runs ends. \<open>xs\<close> is what the calls of \<open>fwrite\<close> take. When one of them fails or the
  file cannot be renamed the old file is as it was; otherwise the new file is a beginning of what was
  taken, and all of it unless closing the file failed to write out the rest.
\<close>

definition save_result :: "string \<Rightarrow> CutisServer \<Rightarrow> chunk list \<Rightarrow> int \<Rightarrow> CutisServer \<Rightarrow> bool" where
  "save_result filename s chs r s' \<longleftrightarrow>
     (let w = world s; n = calls w; xs = taken (sys w) (n + 3) chs in
      if list_all2 accepted chs xs \<and> sys w (n + 4 + 2 * length chs) \<noteq> -1
      then r = CUTIS_OK \<and> dirty s' = 0 \<and>
        (\<exists>f lost. f @ lost = concat xs \<and> (lost \<noteq> [] \<longrightarrow> sys w (n + 3 + 2 * length chs) < int (length (concat xs))) \<and>
           files (world s') = (files w)(filename \<mapsto> f, tmp_of w := None))
      else r = CUTIS_ERR \<and> dirty s' = dirty s \<and> files (world s') = (files w)(tmp_of w := None))"

theorem SaveDB_runs:
  assumes "save_chunks s = Some chs" and "sys (world s) (calls (world s) + 2) \<noteq> 0"
  shows "\<exists>r s'. SaveDB filename s = Some (r, s') \<and> data_of s' = data_of s \<and> save_result filename s chs r s'"
proof -
  let ?w = "world s" and ?n = "calls (world s)" and ?tmp = "tmp_of (world s)"
  let ?xs = "taken (sys ?w) (?n + 3) chs"
  have "files (world (opened s)) ?tmp = Some []" by simp
  from fwrites_runs [OF this, of chs "[]"] obtain buf f2 s2 where
    s2: "fwrites ?tmp chs [] (opened s) = (list_all2 accepted chs ?xs, buf, s2)"
      "files (world s2) = (files ?w)(?tmp \<mapsto> f2)" "sys (world s2) = sys ?w" "data_of s2 = data_of s" "dirty s2 = dirty s"
      "list_all2 accepted chs ?xs \<Longrightarrow> calls (world s2) = ?n + 3 + 2 * length chs \<and> f2 @ buf = concat ?xs"
    by (metis append_Nil fun_upd_upd opened_simps)
  have "files (world s2) ?tmp = Some f2" using s2(2) by simp
  from flush_runs [OF this, of buf] obtain lost f s3 where
    s3: "flush ?tmp buf s2 = (lost, s3)" "f @ lost = f2 @ buf" "files (world s3) = (files ?w)(?tmp \<mapsto> f)"
      "sys (world s3) = sys ?w" "calls (world s3) = calls (world s2) + 1" "data_of s3 = data_of s" "dirty s3 = dirty s"
      "lost \<noteq> [] \<Longrightarrow> sys ?w (calls (world s2)) < int (length buf)"
    using s2(2-5) by (metis fun_upd_upd)
  have body: "SaveDB filename s =
      (if \<not> list_all2 accepted chs ?xs then Some (CUTIS_ERR, set_file ?tmp None s3)
       else if fst (syscall s3) = -1 then Some (CUTIS_ERR, set_file ?tmp None (snd (syscall s3)))
       else let (now, s4) = syscall (renamed filename ?tmp (snd (syscall s3)))
            in Some (CUTIS_OK, s4\<lparr>dirty := 0, last_save := now\<rparr>))"
    using assms s2(1) s3(1) by (simp add: SaveDB_body fclose_def Let_def)
  show ?thesis
  proof (cases "list_all2 accepted chs ?xs")
    case False
    then show ?thesis using s3 by (simp add: body save_result_def Let_def)
  next
    case True
    with s2(6) s3(2,5) have at: "calls (world s3) = ?n + 4 + 2 * length chs" "f @ lost = concat ?xs" by simp_all
    have "lost \<noteq> [] \<Longrightarrow> sys ?w (?n + 3 + 2 * length chs) < int (length (concat ?xs))"
      using s3(8) s2(6) True by (metis add.commute le_add_same_cancel1 length_append less_le_trans of_nat_add of_nat_0_le_iff)
    note lost = this
    have q: "fst (syscall s3) = sys ?w (?n + 4 + 2 * length chs)" "data_of (snd (syscall s3)) = data_of s"
      "dirty (snd (syscall s3)) = dirty s" "files (world (snd (syscall s3))) = files (world s3)"
      using s3(4,6,7) at(1) by (simp_all add: syscall_num)
    show ?thesis
    proof (cases "sys ?w (?n + 4 + 2 * length chs) = -1")
      case True
      then show ?thesis using \<open>list_all2 accepted chs ?xs\<close> q s3(3) by (simp add: body save_result_def Let_def)
    next
      case False
      let ?s4 = "renamed filename ?tmp (snd (syscall s3))"
      have "SaveDB filename s = (let (now, s4) = syscall ?s4 in Some (CUTIS_OK, s4\<lparr>dirty := 0, last_save := now\<rparr>))"
        using False True q(1) by (simp add: body)
      moreover have "data_of ?s4 = data_of s" "files (world ?s4) = (files ?w)(filename \<mapsto> f, ?tmp := None)"
        using q(2,4) s3(3) by (simp_all add: renamed_def fun_eq_iff)
      ultimately show ?thesis using True False at(2) lost
        by (auto simp: save_result_def syscall_num Let_def)
    qed
  qed
qed

theorem SaveDB_writes:
  assumes "heap_ok R (heap s)" and "dbs_ok s" and "\<forall>i k. addr_map s i k \<noteq> None \<longrightarrow> k \<noteq> []"
    and "save_chunks s = Some chs" and "disk_takes (world s) chs"
  shows "\<exists>s'. SaveDB filename s = Some (CUTIS_OK, s') \<and> data_of s' = data_of s \<and> dirty s' = 0 \<and>
    files (world s') = (files (world s))
      (filename \<mapsto> enc_file (map (records (heap s)) (dict s)), tmp_of (world s) := None)"
proof -
  from save_chunks_writes [OF assms(1-3)] assms(4) have
    c: "bytes_of chs = enc_file (map (records (heap s)) (dict s))" "list_all whole chs" by (auto simp: writes_def)
  have xs: "taken (sys (world s)) (calls (world s) + 3) chs = map chunk_bytes chs"
    by (rule taken_whole) (use assms(5) in \<open>simp add: disk_takes_def Let_def\<close>)
  have disk: "sys (world s) (calls (world s) + 2) \<noteq> 0"
    "int (length (concat (map chunk_bytes chs))) \<le> sys (world s) (calls (world s) + 3 + 2 * length chs)"
    "sys (world s) (calls (world s) + 4 + 2 * length chs) \<noteq> -1"
    using assms(5) by (simp_all add: disk_takes_def Let_def)
  from SaveDB_runs [OF assms(4) disk(1), of filename] obtain r s' where
    s': "SaveDB filename s = Some (r, s')" "data_of s' = data_of s" "save_result filename s chs r s'" by blast
  have "r = CUTIS_OK" "dirty s' = 0" "files (world s') = (files (world s))(filename \<mapsto> bytes_of chs, tmp_of (world s) := None)"
    using s'(3) whole_accepted [OF c(2)] disk(2,3) by (auto simp: save_result_def xs bytes_of_def Let_def not_less [symmetric])
  with s'(1,2) c(1) show ?thesis by metis
qed

text \<open>However it ends: the data in memory, the other files, and what became of the old file.\<close>

theorem SaveDB_outcomes:
  assumes "SaveDB filename s = Some (r, s')" and "filename \<noteq> tmp_of (world s)"
  shows "data_of s' = data_of s \<and>
    (\<forall>f. f \<noteq> filename \<and> f \<noteq> tmp_of (world s) \<longrightarrow> files (world s') f = files (world s) f) \<and>
    (r = CUTIS_ERR \<and> dirty s' = dirty s \<and> files (world s') filename = files (world s) filename \<or>
     r = CUTIS_OK \<and> dirty s' = 0 \<and>
     (\<exists>chs f lost. let n = calls (world s); xs = taken (sys (world s)) (n + 3) chs in
        save_chunks s = Some chs \<and> list_all2 accepted chs xs \<and>
        files (world s') filename = Some f \<and> f @ lost = concat xs \<and>
        (lost \<noteq> [] \<longrightarrow> sys (world s) (n + 3 + 2 * length chs) < int (length (concat xs)))))"
proof (cases "sys (world s) (calls (world s) + 2) = 0")
  case True
  then show ?thesis using assms(1) by (auto simp: SaveDB_body)
next
  case False
  with assms(1) obtain chs where chs: "save_chunks s = Some chs" by (auto simp: SaveDB_body split: bind_splits)
  from SaveDB_runs [OF this False, of filename] assms(1) have
    r: "data_of s' = data_of s" "save_result filename s chs r s'" by auto
  show ?thesis
  proof (cases "list_all2 accepted chs (taken (sys (world s)) (calls (world s) + 3) chs) \<and>
      sys (world s) (calls (world s) + 4 + 2 * length chs) \<noteq> -1")
    case True
    with r chs assms(2) show ?thesis by (fastforce simp: save_result_def Let_def)
  next
    case False
    with r(2) have "r = CUTIS_ERR" "dirty s' = dirty s" "files (world s') = (files (world s))(tmp_of (world s) := None)"
      unfolding save_result_def Let_def by (simp_all only: if_False)
    with r(1) assms(2) show ?thesis by simp
  qed
qed

end
