(* ===== verification/Load_Spec.thy ===== *)
theory Load_Spec
  imports Persist_Spec
begin

declare One_nat_def [simp del]

text \<open>
  Loading rebuilds the databases that were saved: each record of the file becomes an object, with
  exact reference counts, bound to its key.
\<close>

section \<open>Containers under construction\<close>

lemma heap_upd_inj [simp]: "s\<lparr>heap := h\<rparr> = s\<lparr>heap := h'\<rparr> \<longleftrightarrow> h = h'"
  by (metis CutisServer.select_convs(1) CutisServer.surjective CutisServer.update_convs(1))

lemma element_created:
  assumes "serving {#a#} c s" and "objs (heap s) a = Some o'" and "CreateCutisObject (OString (Some v)) (heap s) = (x, h)"
  shows "serving ({#x#} + {#a#}) c (s\<lparr>heap := h\<rparr>)" and "objs h a = Some o'" and "obj_str h x = v"
    and "is_string (objs h) x" and "obj_value h a = obj_value (heap s) a"
    and "\<forall>b \<in># all_refs {#} c s. obj_value h b = obj_value (heap s) b"
    and "is_string (objs (heap s)) y \<Longrightarrow> is_string (objs h) y"
proof -
  have "create (OString (Some v)) s = (x, s\<lparr>heap := h\<rparr>)" using assms(3) by (simp add: create_def)
  from create_ok [OF assms(1) this] have c: "serving {#x, a#} c (s\<lparr>heap := h\<rparr>)"
    "\<forall>b \<in># all_refs {#a#} c s. obj_value h b = obj_value (heap s) b" "x \<notin># all_refs {#a#} c s"
    "objs h = (objs (heap s))(x \<mapsto> \<lparr>optr = OString (Some v), refcount = 1\<rparr>)" by auto
  show "serving ({#x#} + {#a#}) c (s\<lparr>heap := h\<rparr>)" using c(1) by (simp add: add_mset_commute)
  show "objs h a = Some o'" using c(3,4) assms(2) by (auto simp: all_refs_def)
  show "obj_str h x = v" "is_string (objs h) x" using c(4) by (simp_all add: obj_str_def is_string_def)
  show "obj_value h a = obj_value (heap s) a" "\<forall>b \<in># all_refs {#} c s. obj_value h b = obj_value (heap s) b"
    using c(2) by (simp_all add: all_refs_def)
  show "is_string (objs h) y" if "is_string (objs (heap s)) y"
    using that c(4) by (cases "x = y") (simp_all add: is_string_def)
qed

lemma element_stored:
  assumes "serving ({#x#} + {#a#}) c s" and "objs (heap s) a = Some o'" and "\<And>v. optr o' \<noteq> OString v"
    and "wf_ptr (objs (heap s)) p" and "\<And>v. p \<noteq> OString v" and "{#x#} + refs_of (optr o') = refs_of p"
    and "a \<notin># all_refs {#} c s"
  shows "\<exists>h. set_ptr a p (heap s) = Some h \<and> serving {#a#} c (s\<lparr>heap := h\<rparr>) \<and> obj_value h a = ptr_value (heap s) p \<and>
    objs h a = Some (o'\<lparr>optr := p\<rparr>) \<and> (\<forall>b \<in># all_refs {#} c s. obj_value h b = obj_value (heap s) b)"
proof -
  have "{#x#} + refs_of (optr o') = {#} + refs_of p" using assms(6) by simp
  from store_ptr_ok [OF assms(1-5) this] obtain h where h: "store_ptr a p s = Some (s\<lparr>heap := h\<rparr>)"
    "serving ({#} + {#a#}) c (s\<lparr>heap := h\<rparr>)" "obj_value h a = ptr_value (heap s) p"
    "\<forall>b. b \<noteq> a \<longrightarrow> obj_value h b = obj_value (heap s) b" "objs h = (objs (heap s))(a \<mapsto> o'\<lparr>optr := p\<rparr>)" by blast
  have "set_ptr a p (heap s) = Some h" using h(1) by (auto simp: store_ptr_def split: bind_splits)
  moreover have "\<forall>b \<in># all_refs {#} c s. obj_value h b = obj_value (heap s) b" 
    using h(4) assms(7) by (metis)
  ultimately show ?thesis using h(2,3,5) by simp
qed

lemma load_list:
  assumes "serving {#a#} c s" and "objs (heap s) a = Some o'" and "optr o' = OList l" and "obj_value (heap s) a = VList us"
    and "list_all short vs" and "a \<notin># all_refs {#} c s"
  shows "\<exists>h. load_elems (length vs) a (concat (map enc_string vs) @ r) (heap s) = Some (Returns (r, h)) \<and>
    serving {#a#} c (s\<lparr>heap := h\<rparr>) \<and> obj_value h a = VList (us @ vs) \<and>
    (\<forall>b \<in># all_refs {#} c s. obj_value h b = obj_value (heap s) b)"
  using assms
proof (induction vs arbitrary: s o' l us)
  case Nil
  then show ?case by simp
next
  case (Cons v vs)
  obtain x h1 where new: "CreateCutisObject (OString (Some v)) (heap s) = (x, h1)" by force
  note E = element_created [OF Cons.prems(1,2) new]
  let ?s1 = "s\<lparr>heap := h1\<rparr>" and ?p = "OList (l @ [x])"
  have us: "map (obj_str h1) l = us" using E(2,5) Cons.prems(3,4) by (simp add: obj_value_def)
  have "\<forall>y \<in> set l. is_string (objs (heap s)) y"
    using list_wf [OF servingD(1) [OF Cons.prems(1)] Cons.prems(2,3)] .
  then have wf: "wf_ptr (objs (heap ?s1)) ?p" using E(4,7) by simp
  have "serving ({#x#} + {#a#}) c ?s1" "objs (heap ?s1) a = Some o'" "a \<notin># all_refs {#} c ?s1"
    using E(1,2) Cons.prems(6) by simp_all
  from element_stored [OF this(1,2) _ wf _ _ this(3)] Cons.prems(3) obtain h2 where
    h2: "set_ptr a ?p h1 = Some h2" "serving {#a#} c (s\<lparr>heap := h2\<rparr>)" "obj_value h2 a = VList (us @ [v])"
    "objs h2 a = Some (o'\<lparr>optr := ?p\<rparr>)" "\<forall>b \<in># all_refs {#} c s. obj_value h2 b = obj_value h1 b"
    using us E(3) by auto
  let ?s2 = "s\<lparr>heap := h2\<rparr>"
  have "short v" using Cons.prems(5) by simp
  then have "load_elems (length (v # vs)) a (concat (map enc_string (v # vs)) @ r) (heap s) =
    load_elems (length vs) a (concat (map enc_string vs) @ r) h2"
    using sized.reads_back [of v "concat (map enc_string vs) @ r"] new E(2) Cons.prems(3) h2(1) by simp
  moreover from Cons.IH [of ?s2 "o'\<lparr>optr := ?p\<rparr>" "l @ [x]" "us @ [v]"] h2 Cons.prems(5,6) obtain h where
    "load_elems (length vs) a (concat (map enc_string vs) @ r) h2 = Some (Returns (r, h))"
    "serving {#a#} c (s\<lparr>heap := h\<rparr>)" "obj_value h a = VList ((us @ [v]) @ vs)"
    "\<forall>b \<in># all_refs {#} c s. obj_value h b = obj_value h2 b" by auto
  ultimately show ?case using h2(5) E(6) by simp
qed

lemma load_set:
  assumes "serving {#a#} c s" and "objs (heap s) a = Some o'" and "optr o' = OSet d" and "obj_value (heap s) a = VSet U"
    and "list_all short vs" and "a \<notin># all_refs {#} c s" and "distinct vs" and "U \<inter> set vs = {}" and "finite U"
    and "card U + length vs \<le> 2 ^ 27"
  shows "\<exists>h. load_elems (length vs) a (concat (map enc_string vs) @ r) (heap s) = Some (Returns (r, h)) \<and>
    serving {#a#} c (s\<lparr>heap := h\<rparr>) \<and> obj_value h a = VSet (U \<union> set vs) \<and>
    (\<forall>b \<in># all_refs {#} c s. obj_value h b = obj_value (heap s) b)"
  using assms
proof (induction vs arbitrary: s o' d U)
  case Nil
  then show ?case by simp
next
  case (Cons v vs)
  obtain x h1 where new: "CreateCutisObject (OString (Some v)) (heap s) = (x, h1)" by force
  note E = element_created [OF Cons.prems(1,2) new]
  let ?s1 = "s\<lparr>heap := h1\<rparr>"
  have U: "members_of h1 d = U" using E(2,5) Cons.prems(3,4) by (simp add: obj_value_def members_of_def)
  have "wf_ptr (objs h1) (OSet d)" using live_wf [OF servingD(1) [OF E(1)], of a o'] E(2) Cons.prems(3) by simp
  then have t: "table_ok h1 d" "\<forall>y \<in> fst ` set (entries d). is_string (objs h1) y" by (auto simp: set_ok_iff)
  have room: "unat (d_used d) < 2 ^ 27" using members_card(1) [OF t(1)] U Cons.prems(10) by simp
  have new_member: "v \<notin> U" using Cons.prems(8) by simp
  from members.DictAdd_ok [OF t(1) room, of x "()"] obtain d' where
    d': "DictAdd (set_type h1) x () d = Some (DICT_OK, d')" "table_ok h1 d'"
      "mset (entries d') = add_mset (x, ()) (mset (entries d))"
    using E(3) U new_member by (auto simp: members_of_map DictSetHashKey_def DictSetHashVal_def SetDictType_def)
  have keys: "mset (map fst (entries d')) = add_mset x (mset (map fst (entries d)))"
    using arg_cong [OF d'(3), of "image_mset fst"] by simp
  then have kset: "fst ` set (entries d') = insert x (fst ` set (entries d))"
    by (metis list.set_map set_mset_add_mset_insert set_mset_mset)
  let ?p = "OSet d'"
  have wf: "wf_ptr (objs (heap ?s1)) ?p" using d'(2) kset t(2) E(4) by (simp add: set_ok_iff)
  have val: "ptr_value h1 ?p = VSet (insert v U)"
    using kset U E(3) by (auto simp: members_of_def)
  have r: "{#x#} + refs_of (optr o') = refs_of ?p" using keys Cons.prems(3) by simp
  have "serving ({#x#} + {#a#}) c ?s1" "objs (heap ?s1) a = Some o'" "a \<notin># all_refs {#} c ?s1"
    using E(1,2) Cons.prems(6) by simp_all
  from element_stored [OF this(1,2) _ wf _ r this(3)] Cons.prems(3) obtain h2 where
    h2: "set_ptr a ?p h1 = Some h2" "serving {#a#} c (s\<lparr>heap := h2\<rparr>)" "obj_value h2 a = VSet (insert v U)"
    "objs h2 a = Some (o'\<lparr>optr := ?p\<rparr>)" "\<forall>b \<in># all_refs {#} c s. obj_value h2 b = obj_value h1 b"
    using val by auto
  let ?s2 = "s\<lparr>heap := h2\<rparr>"
  have "short v" using Cons.prems(5) by simp
  then have "load_elems (length (v # vs)) a (concat (map enc_string (v # vs)) @ r) (heap s) =
    load_elems (length vs) a (concat (map enc_string vs) @ r) h2"
    using sized.reads_back [of v "concat (map enc_string vs) @ r"] new E(2) Cons.prems(3) h2(1) d'(1)
    by (simp add: DICT_OK_def DICT_ERR_def)
  moreover from Cons.IH [of ?s2 "o'\<lparr>optr := ?p\<rparr>" d' "insert v U"] h2 Cons.prems(5-10) new_member obtain h where
    "load_elems (length vs) a (concat (map enc_string vs) @ r) h2 = Some (Returns (r, h))"
    "serving {#a#} c (s\<lparr>heap := h\<rparr>)" "obj_value h a = VSet (insert v U \<union> set vs)"
    "\<forall>b \<in># all_refs {#} c s. obj_value h b = obj_value h2 b" by auto
  ultimately show ?case using h2(5) E(6) by simp
qed

section \<open>Records\<close>

lemma type_codes: "CUTIS_STRING = 0" "CUTIS_LIST = 1" "CUTIS_SET = 2" "int (nat (type_code v)) = type_code v"
  "0 \<le> type_code v" "type_code v \<le> 2"
  by (cases v; simp add: CUTIS_STRING_def CUTIS_LIST_def CUTIS_SET_def)+

lemma load_strings_read:
  "length vs < 2 ^ 32 \<Longrightarrow> read_u32 (enc_strings vs @ r) = Some (Returns (length vs, concat (map enc_string vs) @ r))"
  using u32.reads_back [of "length vs" "concat (map enc_string vs) @ r"] by (simp add: enc_strings_def)

lemma load_object_ok:
  assumes "serving {#} c s" and "fits_format v"
  shows "\<exists>a h. load_object (nat (type_code v)) (enc_stored v @ r) (heap s) = Some (Returns (a, r, h)) \<and>
    serving {#a#} c (s\<lparr>heap := h\<rparr>) \<and> obj_value h a = value_of v \<and> a \<notin># all_refs {#} c s \<and>
    (\<forall>b \<in># all_refs {#} c s. obj_value h b = obj_value (heap s) b)"
proof (cases v)
  case (Str t)
  obtain a h where new: "CreateCutisObject (OString (Some t)) (heap s) = (a, h)" by force
  then have "create (OString (Some t)) s = (a, s\<lparr>heap := h\<rparr>)" by (simp add: create_def)
  from create_ok [OF assms(1) this] have "serving {#a#} c (s\<lparr>heap := h\<rparr>)" "obj_value h a = VString t" "a \<notin># all_refs {#} c s"
    "\<forall>b \<in># all_refs {#} c s. obj_value h b = obj_value (heap s) b" by auto
  moreover have "load_object (nat (type_code v)) (enc_stored v @ r) (heap s) = Some (Returns (a, r, h))"
    using sized.reads_back [of t r] assms(2) new by (simp add: load_object_def type_codes Str)
  ultimately show ?thesis using Str by auto
next
  case (Lst vs)
  obtain a h where new: "CreateCutisObject (OList []) (heap s) = (a, h)" by force
  then have "create (OList []) s = (a, s\<lparr>heap := h\<rparr>)" by (simp add: create_def)
  from create_ok [OF assms(1) this] have c: "serving {#a#} c (s\<lparr>heap := h\<rparr>)" "obj_value h a = VList []" "a \<notin># all_refs {#} c s"
    "\<forall>b \<in># all_refs {#} c s. obj_value h b = obj_value (heap s) b" "objs h a = Some \<lparr>optr = OList [], refcount = 1\<rparr>" by auto
  have "list_all short vs" using assms(2) Lst by simp
  from load_list [of a c "s\<lparr>heap := h\<rparr>" _ "[]" "[]" vs r] c this obtain h2 where
    h2: "load_elems (length vs) a (concat (map enc_string vs) @ r) h = Some (Returns (r, h2))"
    "serving {#a#} c (s\<lparr>heap := h2\<rparr>)" "obj_value h2 a = VList vs" "\<forall>b \<in># all_refs {#} c s. obj_value h2 b = obj_value h b"
    by auto
  have "load_object (nat (type_code v)) (enc_stored v @ r) (heap s) = Some (Returns (a, r, h2))"
    using load_strings_read [of vs r] assms(2) new h2(1) by (simp add: load_object_def type_codes Lst CreateListObject_def)
  then show ?thesis using h2 c(3,4) Lst by auto
next
  case (St vs)
  obtain a h where new: "CreateCutisObject (OSet DictCreate) (heap s) = (a, h)" by force
  then have "create (OSet DictCreate) s = (a, s\<lparr>heap := h\<rparr>)" by (simp add: create_def)
  moreover have "wf_ptr (objs (heap s)) (OSet DictCreate)" "refs_of (OSet DictCreate) = {#}"
    by (simp_all add: set_ok_iff DictCreate_def)
  moreover have "ptr_value (heap s) (OSet DictCreate) = VSet {}" by (simp add: DictCreate_def)
  ultimately have c: "serving {#a#} c (s\<lparr>heap := h\<rparr>)" "obj_value h a = VSet {}" "a \<notin># all_refs {#} c s"
    "\<forall>b \<in># all_refs {#} c s. obj_value h b = obj_value (heap s) b" "objs h a = Some \<lparr>optr = OSet DictCreate, refcount = 1\<rparr>"
    using create_ok [OF assms(1), of "OSet DictCreate" a "s\<lparr>heap := h\<rparr>"] by auto
  have "list_all short vs" "distinct vs" "length vs \<le> 2 ^ 27" using assms(2) St by simp_all
  with load_set [of a c "s\<lparr>heap := h\<rparr>" _ DictCreate "{}" vs r] c obtain h2 where
    h2: "load_elems (length vs) a (concat (map enc_string vs) @ r) h = Some (Returns (r, h2))"
    "serving {#a#} c (s\<lparr>heap := h2\<rparr>)" "obj_value h2 a = VSet (set vs)" "\<forall>b \<in># all_refs {#} c s. obj_value h2 b = obj_value h b"
    by auto
  have "load_object (nat (type_code v)) (enc_stored v @ r) (heap s) = Some (Returns (a, r, h2))"
    using load_strings_read [of vs r] assms(2) new h2(1) by (simp add: load_object_def type_codes St CreateSetObject_def)
  then show ?thesis using h2 c(3,4) St by auto
qed

text \<open>The server while it loads: \<open>K\<close> is what it has so far.\<close>

definition loading :: "CutisClient \<Rightarrow> CutisServer \<Rightarrow> keyspace \<Rightarrow> bool" where
  "loading c s K \<longleftrightarrow> serving {#} c s \<and> db_inj s \<and> keyspace s = K"

definition same_clients :: "CutisServer \<Rightarrow> CutisServer \<Rightarrow> bool" where
  "same_clients s' s \<longleftrightarrow> clients s' = clients s \<and> client_at s' = client_at s \<and> length (dict s') = length (dict s) \<and>
     db_num s' = db_num s \<and> el s' = el s"

lemma serving_other_db: "serving X c s \<Longrightarrow> i < length (dict s) \<Longrightarrow> serving X (c\<lparr>c_db := i\<rparr>) s"
  by (simp add: serving_def all_refs_def)

lemma table_count:
  assumes "serving X c s" and "i < length (dict s)"
  shows "unat (d_used (dict s ! i)) = card (dom (keyspace s i))" and "finite (dom (keyspace s i))"
proof -
  have "uint (d_used (dict s ! i)) = int (card (dom (keyspace s i)))"
    using dbsize_card [OF serving_other_db [OF assms]] by simp
  then show "unat (d_used (dict s ! i)) = card (dom (keyspace s i))" by (simp add: unat_eq_nat_uint)
  have "dom (keyspace s i) \<subseteq> fst ` set (entries (dict s ! i))"
    using assms(2) by (auto simp: keyspace_def addr_map_def dict_map_def dest!: map_of_SomeD) force
  then show "finite (dom (keyspace s i))" by (rule finite_subset) simp
qed

lemma load_record:
  assumes "loading c s K" and "j < length (dict s)" and "record_ok (k, v)" and "K j k = None" and "card (dom (K j)) < 2 ^ 27"
  shows "\<exists>s'. load_loop (Suc n) j (enc_record (k, v) @ r) s = load_loop n j r s' \<and>
    loading c s' (ks_put j k (value_of v) K) \<and> same_clients s' s"
proof -
  have L: "serving {#} c s" "db_inj s" "keyspace s = K" using assms(1) by (simp_all add: loading_def)
  have rec: "k \<noteq> []" "length k < 2 ^ 32" "fits_format v" using assms(3) by (simp_all add: record_ok_def short_def)
  from load_object_ok [OF L(1) rec(3), of r] obtain a h where
    o: "load_object (nat (type_code v)) (enc_stored v @ r) (heap s) = Some (Returns (a, r, h))"
    "serving {#a#} c (s\<lparr>heap := h\<rparr>)" "obj_value h a = value_of v" "a \<notin># all_refs {#} c s"
    "\<forall>b \<in># all_refs {#} c s. obj_value h b = obj_value (heap s) b" by blast
  let ?s1 = "s\<lparr>heap := h\<rparr>"
  have room: "room j ?s1" using table_count(1) [OF L(1) assms(2)] assms(2,5) L(3) by (simp add: room_def)
  have "obj_value (heap ?s1) a \<noteq> VNull" using o(3) by (cases v) simp_all
  moreover have "addr_map ?s1 j k = None" using assms(4) L(3) by (auto simp: keyspace_def)
  ultimately obtain d where d: "db_add k a j ?s1 = Some (DICT_OK, put_db j d ?s1)" "serving {#} c (put_db j d ?s1)"
    "addr_map (put_db j d ?s1) = (addr_map s)(j := (addr_map s j)(k \<mapsto> a))"
    using db_add_ok [of a "{#}" c ?s1 j k] o(2) room by auto
  let ?s2 = "put_db j d ?s1"
  have "keyspace ?s2 = ks_put j k (value_of v) (keyspace s)"
  proof (rule keyspace_put [OF d(3)])
    show "obj_value (heap ?s2) a = value_of v" using o(3) by (simp add: put_db_def)
    fix i k' b
    assume "addr_map s i k' = Some b"
    from addr_map_all_refs [OF servingD(3) [OF L(1)] this, of "{#}" c] o(5)
    show "obj_value (heap ?s2) b = obj_value (heap s) b" by (simp add: put_db_def)
  qed
  moreover have "db_inj ?s2"
  proof (rule db_inj_put [OF L(2) d(3)])
    fix i k'
    assume "addr_map s i k' = Some a"
    with addr_map_all_refs [OF servingD(3) [OF L(1)] this, of "{#}" c] o(4) show "(i, k') = (j, k)" by simp
  qed
  ultimately have "loading c ?s2 (ks_put j k (value_of v) K)" using d(2) L(3) by (simp add: loading_def)
  moreover have "same_clients ?s2 s" by (simp add: same_clients_def put_db_def)
  moreover have "load_loop (Suc n) j (enc_record (k, v) @ r) s = load_loop n j r ?s2"
  proof -
    have t: "(of_char (byte (nat (type_code v))) :: nat) = nat (type_code v)" "nat (type_code v) \<le> 2"
      using type_codes(6) [of v] by (simp_all add: of_byte)
    have k: "read_u32 (enc_string k @ enc_stored v @ r) = Some (Returns (length k, k @ enc_stored v @ r))"
      using u32.reads_back [OF rec(2)] by (simp add: enc_string_def)
    obtain b where b: "DictAdd sdsDictType k a (dict s ! j) = Some (DICT_OK, b)" "put_db j b ?s1 = ?s2"
      using d(1) assms(2) by (auto simp: db_add_def split: bind_splits)
    have "dict (put_db j b ?s1) ! j = dict ?s2 ! j" using b(2) by simp
    then have "b = d" using assms(2) by (simp add: put_db_def)
    with b(1) show ?thesis
      using t k read_bytes_all [OF rec(1), of "enc_stored v @ r"] o(1) assms(2)
      by (simp add: enc_record_def CUTIS_EOF_def CUTIS_SELECT_DB_def DICT_OK_def DICT_ERR_def)
  qed
  ultimately show ?thesis by blast
qed

section \<open>Databases\<close>

declare load_loop.simps [simp del]

definition bound :: "(string \<times> stored) list \<Rightarrow> string \<rightharpoonup> cvalue" where
  "bound rs = map_of (map (\<lambda>(k, v). (k, value_of v)) rs)"

lemma bound_simps [simp]: "bound [] = Map.empty" "bound ((k, v) # rs) = (bound rs)(k \<mapsto> value_of v)"
  by (simp_all add: bound_def)

lemma bound_None: "k \<notin> fst ` set rs \<Longrightarrow> bound rs k = None"
  by (force simp: bound_def map_of_eq_None_iff)

lemma same_clients_trans: "same_clients s2 s1 \<Longrightarrow> same_clients s1 s \<Longrightarrow> same_clients s2 s"
  by (simp add: same_clients_def)

lemma load_records:
  assumes "loading c s K" and "j < length (dict s)" and "list_all record_ok rs" and "distinct (map fst rs)"
    and "dom (K j) \<inter> fst ` set rs = {}" and "card (dom (K j)) + length rs \<le> 2 ^ 27"
  shows "\<exists>s'. load_loop (length rs + n) j (concat (map enc_record rs) @ r) s = load_loop n j r s' \<and>
    loading c s' (K(j := K j ++ bound rs)) \<and> same_clients s' s"
  using assms
proof (induction rs arbitrary: s K)
  case Nil
  then show ?case by (intro exI [of _ s]) (simp add: same_clients_def)
next
  case (Cons kv rs)
  obtain k v where kv: "kv = (k, v)" by force
  have "record_ok (k, v)" "K j k = None" "card (dom (K j)) < 2 ^ 27" using Cons.prems(3,5,6) kv by (auto simp: domIff)
  from load_record [OF Cons.prems(1,2) this, of "length rs + n" "concat (map enc_record rs) @ r"] obtain s1 where
    s1: "load_loop (Suc (length rs + n)) j (enc_record (k, v) @ concat (map enc_record rs) @ r) s =
      load_loop (length rs + n) j (concat (map enc_record rs) @ r) s1"
      "loading c s1 (ks_put j k (value_of v) K)" "same_clients s1 s" by blast
  let ?K = "ks_put j k (value_of v) K"
  have Kj: "?K j = (K j)(k \<mapsto> value_of v)" by (simp add: ks_put_def)
  have "serving {#} c s" "keyspace s = K" using Cons.prems(1) by (simp_all add: loading_def)
  then have fin: "finite (dom (K j))" using table_count(2) [OF _ Cons.prems(2)] by blast
  have "k \<notin> dom (K j)" using \<open>K j k = None\<close> by (simp add: domIff)
  then have "card (dom (?K j)) = Suc (card (dom (K j)))" using fin by (simp add: Kj)
  then have c: "card (dom (?K j)) + length rs \<le> 2 ^ 27" using Cons.prems(6) by simp
  have e: "dom (?K j) \<inter> fst ` set rs = {}" using Cons.prems(4,5) kv by (auto simp: Kj)
  have j: "j < length (dict s1)" using Cons.prems(2) s1(3) by (simp add: same_clients_def)
  have rs: "list_all record_ok rs" "distinct (map fst rs)" using Cons.prems(3,4) by simp_all
  from Cons.IH [OF s1(2) j rs e c] obtain s2 where
    s2: "load_loop (length rs + n) j (concat (map enc_record rs) @ r) s1 = load_loop n j r s2"
      "loading c s2 (?K(j := ?K j ++ bound rs))" "same_clients s2 s1" by blast
  have "k \<notin> dom (bound rs)" using bound_None [of k rs] Cons.prems(4) kv by (simp add: domIff)
  then have "?K(j := ?K j ++ bound rs) = K(j := K j ++ bound (kv # rs))"
    by (simp add: kv ks_put_def map_add_upd_left)
  then have "loading c s2 (K(j := K j ++ bound (kv # rs)))" using s2(2) by simp
  moreover have "load_loop (length (kv # rs) + n) j (concat (map enc_record (kv # rs)) @ r) s = load_loop n j r s2"
    using s1(1) s2(1) kv by simp
  ultimately show ?case using same_clients_trans [OF s2(3) s1(3)] by blast
qed

text \<open>The rounds a database takes, and what it binds.\<close>

definition rounds :: "(string \<times> stored) list \<Rightarrow> nat" where
  "rounds rs = (if rs = [] then 0 else Suc (length rs))"

definition db_fits :: "(string \<times> stored) list \<Rightarrow> bool" where
  "db_fits rs \<longleftrightarrow> list_all record_ok rs \<and> distinct (map fst rs) \<and> length rs \<le> 2 ^ 27"

lemma load_db:
  assumes "loading c s K" and "j < length (dict s)" and "j < 2 ^ 32" and "db_fits rs" and "K j = Map.empty"
  shows "\<exists>i s'. load_loop (rounds rs + n) i0 (enc_db (j, rs) @ r) s = load_loop n i r s' \<and>
    loading c s' (K(j := bound rs)) \<and> same_clients s' s"
proof (cases "rs = []")
  case True
  then show ?thesis using assms(1,5)
    by (intro exI [of _ i0] exI [of _ s]) (simp add: rounds_def enc_db_def same_clients_def fun_upd_idem)
next
  case False
  have "serving {#} c s" using assms(1) by (simp add: loading_def)
  then have num: "db_num s = int (length (dict s))" using servingD(3) by (simp add: dbs_ok_def)
  have f: "list_all record_ok rs" "distinct (map fst rs)" "length rs \<le> 2 ^ 27" using assms(4) by (simp_all add: db_fits_def)
  have "dom (K j) \<inter> fst ` set rs = {}" "card (dom (K j)) + length rs \<le> 2 ^ 27" using f(3) assms(5) by simp_all
  from load_records [OF assms(1,2) f(1,2) this, of n r] obtain s' where
    s': "load_loop (length rs + n) j (concat (map enc_record rs) @ r) s = load_loop n j r s'"
      "loading c s' (K(j := K j ++ bound rs))" "same_clients s' s" by blast
  have "(of_char (byte CUTIS_SELECT_DB) :: nat) = 254" by (simp add: of_byte CUTIS_SELECT_DB_def)
  then have "load_loop (rounds rs + n) i0 (enc_db (j, rs) @ r) s = load_loop (length rs + n) j (concat (map enc_record rs) @ r) s"
    using False num assms(2) u32.reads_back [OF assms(3)]
    by (simp add: rounds_def enc_db_def CUTIS_EOF_def CUTIS_SELECT_DB_def load_loop.simps)
  then show ?thesis using s' assms(5) by auto
qed

lemma load_dbs:
  assumes "loading c s K" and "k0 + length dbs \<le> length (dict s)" and "length (dict s) \<le> 2 ^ 32"
    and "list_all db_fits dbs" and "\<forall>j \<ge> k0. K j = Map.empty"
  shows "\<exists>i s'. load_loop (sum_list (map rounds dbs) + n) i0 (concat (map enc_db (List.enumerate k0 dbs)) @ r) s = load_loop n i r s' \<and>
    loading c s' (\<lambda>j. if k0 \<le> j \<and> j < k0 + length dbs then bound (dbs ! (j - k0)) else K j) \<and> same_clients s' s"
  using assms
proof (induction dbs arbitrary: k0 s K i0)
  case Nil
  have "(\<lambda>j. if k0 \<le> j \<and> j < k0 then bound ([] ! (j - k0)) else K j) = K" by (intro ext) auto
  then show ?case using Nil by (intro exI [of _ i0] exI [of _ s]) (simp add: same_clients_def)
next
  case (Cons rs dbs)
  let ?m = "sum_list (map rounds dbs) + n" and ?r = "concat (map enc_db (List.enumerate (Suc k0) dbs)) @ r"
  have "k0 < length (dict s)" "k0 < 2 ^ 32" "db_fits rs" "K k0 = Map.empty" using Cons.prems by simp_all
  from load_db [OF Cons.prems(1) this, of ?m i0 ?r] obtain i s1 where
    s1: "load_loop (rounds rs + ?m) i0 (enc_db (k0, rs) @ ?r) s = load_loop ?m i ?r s1"
      "loading c s1 (K(k0 := bound rs))" "same_clients s1 s" by blast
  have "Suc k0 + length dbs \<le> length (dict s1)" "length (dict s1) \<le> 2 ^ 32" "list_all db_fits dbs"
    "\<forall>j \<ge> Suc k0. (K(k0 := bound rs)) j = Map.empty"
    using Cons.prems s1(3) by (simp_all add: same_clients_def)
  from Cons.IH [OF s1(2) this, of i] obtain i' s2 where
    s2: "load_loop ?m i ?r s1 = load_loop n i' r s2"
      "loading c s2 (\<lambda>j. if Suc k0 \<le> j \<and> j < Suc k0 + length dbs then bound (dbs ! (j - Suc k0)) else (K(k0 := bound rs)) j)"
      "same_clients s2 s1" by blast
  have "(\<lambda>j. if Suc k0 \<le> j \<and> j < Suc k0 + length dbs then bound (dbs ! (j - Suc k0)) else (K(k0 := bound rs)) j) =
    (\<lambda>j. if k0 \<le> j \<and> j < k0 + length (rs # dbs) then bound ((rs # dbs) ! (j - k0)) else K j)"
    by (intro ext) (auto simp: nth_Cons' Suc_diff_Suc One_nat_def)
  then show ?case using s1(1) s2(1,2) same_clients_trans [OF s2(3) s1(3)]
    by (intro exI [of _ i'] exI [of _ s2]) (simp add: add.assoc)
qed

lemma rounds_bound: "rounds rs \<le> length (enc_db (j, rs))"
proof -
  have "length rs \<le> length (concat (map enc_record rs))" by (induction rs) (simp_all add: enc_record_def)
  then show ?thesis by (simp add: rounds_def enc_db_def)
qed

lemma rounds_enough: "sum_list (map rounds dbs) \<le> length (concat (map enc_db (List.enumerate k dbs)))"
proof (induction dbs arbitrary: k)
  case (Cons rs dbs)
  then show ?case using rounds_bound [of rs k] by (simp add: add_mono)
qed simp

section \<open>The whole file\<close>

theorem LoadDB_ok:
  assumes "loading c s (\<lambda>i. Map.empty)" and "length dbs \<le> length (dict s)" and "length (dict s) \<le> 2 ^ 32"
    and "list_all db_fits dbs" and "files (world s) filename = Some (enc_file dbs)"
  shows "\<exists>s'. LoadDB filename s = Some (Returns (CUTIS_OK, s')) \<and> same_clients s' s \<and>
    loading c s' (\<lambda>j. if j < length dbs then bound (dbs ! j) else Map.empty)"
proof -
  let ?body = "concat (map enc_db (List.enumerate 0 dbs))"
  let ?r = "?body @ [byte CUTIS_EOF]"
  have sig: "CUTIS_DB_SIGNATURE \<noteq> []" "length CUTIS_DB_SIGNATURE = 9" by code_simp+
  have "read_bytes 9 (enc_file dbs) = Some (Returns (CUTIS_DB_SIGNATURE, ?r))"
    using read_bytes_all [OF sig(1), of ?r] by (simp add: enc_file_def sig(2))
  then have load: "LoadDB filename s = and_then (load_loop (Suc (length ?r)) 0 ?r s) (\<lambda>s. Some (Returns (CUTIS_OK, s)))"
    using assms(5) by (simp add: LoadDB_def)
  let ?f = "sum_list (map rounds dbs)"
  obtain m where m: "Suc (length ?r) = ?f + Suc m"
    using rounds_enough [of dbs 0] by (metis le_Suc_eq le_add_diff_inverse le_trans length_append add_Suc_right le_add1)
  have "0 + length dbs \<le> length (dict s)" "\<forall>j \<ge> (0 :: nat). (Map.empty :: string \<rightharpoonup> cvalue) = Map.empty" using assms(2) by simp_all
  from load_dbs [OF assms(1) this(1) assms(3,4) this(2), of "Suc m" 0 "[byte CUTIS_EOF]"] obtain i s' where
    l: "load_loop (?f + Suc m) 0 ?r s = load_loop (Suc m) i [byte CUTIS_EOF] s'"
      "loading c s' (\<lambda>j. if 0 \<le> j \<and> j < 0 + length dbs then bound (dbs ! (j - 0)) else Map.empty)" "same_clients s' s" by blast
  have k: "loading c s' (\<lambda>j. if j < length dbs then bound (dbs ! j) else Map.empty)"
    using l(2) by (simp cong: if_cong)
  have "(of_char (byte CUTIS_EOF) :: nat) = 255" by (simp add: of_byte CUTIS_EOF_def)
  then have "load_loop (Suc m) i [byte CUTIS_EOF] s' = Some (Returns s')" by (simp add: CUTIS_EOF_def load_loop.simps)
  then show ?thesis using load k l(1,3) unfolding m by simp
qed

section \<open>Saving and loading\<close>

text \<open>The data fit the format.\<close>

fun value_fits :: "cvalue \<Rightarrow> bool" where
  "value_fits (VString v) = short v"
| "value_fits (VList vs) = (length vs < 2 ^ 32 \<and> list_all short vs)"
| "value_fits (VSet A) = (card A \<le> 2 ^ 27 \<and> (\<forall>v \<in> A. short v))"
| "value_fits VNull = False"

definition data_fits :: "keyspace \<Rightarrow> bool" where
  "data_fits K \<longleftrightarrow> (\<forall>i. card (dom (K i)) \<le> 2 ^ 27 \<and> (\<forall>k v. K i k = Some v \<longrightarrow> k \<noteq> [] \<and> short k \<and> value_fits v))"

lemma stored_fits:
  assumes "heap_ok R h" and "value_fits (obj_value h a)"
  shows "fits_format (stored_at h a)" and "value_of (stored_at h a) = obj_value h a"
proof -
  have nn: "obj_value h a \<noteq> VNull" using assms(2) by auto
  show v: "value_of (stored_at h a) = obj_value h a"
    using save_entry_writes(2) [OF assms(1) nn, of "''k''"] by simp
  show "fits_format (stored_at h a)"
  proof (cases "stored_at h a")
    case (St vs)
    from value_live [OF nn] obtain o' where o': "objs h a = Some o'" by blast
    then obtain d where d: "optr o' = OSet d" "vs = map (obj_str h \<circ> fst) (entries d)"
      using St by (auto simp: stored_at_def split: optr.splits)
    then have "table_ok h d" using live_wf [OF assms(1) o'] by (simp add: set_ok_iff)
    from dict_ok_tableD(3) [OF this] have "distinct vs" by (simp add: d(2))
    moreover from this have "card (set vs) = length vs" by (rule distinct_card)
    moreover have "value_fits (VSet (set vs))" using assms(2) v St by simp
    ultimately show ?thesis using St by (simp add: list_all_iff)
  qed (use assms(2) v [symmetric] in auto)
qed

lemma records_bound:
  assumes "serving X c s" and "i < length (dict s)" and "data_fits (keyspace s)"
  shows "db_fits (records (heap s) (dict s ! i))" and "bound (records (heap s) (dict s ! i)) = keyspace s i"
proof -
  let ?d = "dict s ! i" and ?h = "heap s"
  note ok = dbs_okD [OF servingD(3) [OF assms(1)] assms(2)]
  have at: "addr_map s i = map_of (entries ?d)"
    using assms(2) by (simp add: addr_map_def dict_map_def split_def)
  have dist: "distinct (map fst (entries ?d))" using dict_ok_tableD(3) [OF ok] by (simp add: comp_def)
  have e: "k \<noteq> [] \<and> short k \<and> fits_format (stored_at ?h a) \<and> value_of (stored_at ?h a) = obj_value ?h a"
    if "(k, a) \<in> set (entries ?d)" for k a
  proof -
    have "keyspace s i k = Some (obj_value ?h a)" using that dist by (simp add: keyspace_def at map_of_is_SomeI)
    then have "k \<noteq> []" "short k" "value_fits (obj_value ?h a)" using assms(3) by (auto simp: data_fits_def)
    with stored_fits [OF servingD(1) [OF assms(1)]] show ?thesis by blast
  qed
  have "length (entries ?d) = card (dom (keyspace s i))"
    using table_count(1) [OF assms(1,2)] dict_ok_tableD(2) [OF ok] by simp
  then have "length (records ?h ?d) \<le> 2 ^ 27" using assms(3) by (simp add: records_def data_fits_def)
  moreover have "map fst (records ?h ?d) = map fst (entries ?d)" by (simp add: records_def split_def)
  moreover have "list_all record_ok (records ?h ?d)" using e by (auto simp: records_def record_ok_def list_all_iff)
  ultimately show "db_fits (records ?h ?d)" using dist by (simp add: db_fits_def)
  have "map (\<lambda>(k, v). (k, value_of v)) (records ?h ?d) = map (\<lambda>(k, a). (k, obj_value ?h a)) (entries ?d)"
    using e by (auto simp: records_def)
  then show "bound (records ?h ?d) = keyspace s i"
    by (simp add: bound_def keyspace_def at fun_eq_iff map_of_map)
qed

text \<open>A new server of the same size that finds the file has the same databases.\<close>

theorem save_load:
  assumes "server_ok c s" and "data_fits (keyspace s)" and "save_chunks s = Some chs" and "disk_takes (world s) chs"
    and "filename \<noteq> tmp_of (world s)" and "length (dict s) \<le> 2 ^ 32"
  obtains s' where "SaveDB filename s = Some (CUTIS_OK, s')" and "keyspace s' = keyspace s" and "dirty s' = 0"
    and "\<And>t. idle_ok t \<Longrightarrow> keyspace t = (\<lambda>i. Map.empty) \<Longrightarrow> length (dict t) = length (dict s) \<Longrightarrow>
      files (world t) filename = files (world s') filename \<Longrightarrow>
      \<exists>t'. LoadDB filename t = Some (Returns (CUTIS_OK, t')) \<and> idle_ok t' \<and> keyspace t' = keyspace s"
proof -
  note S = server_okD(1) [OF assms(1)]
  let ?dbs = "map (records (heap s)) (dict s)"
  have keys: "\<forall>i k. addr_map s i k \<noteq> None \<longrightarrow> k \<noteq> []"
  proof (intro allI impI)
    fix i k
    assume "addr_map s i k \<noteq> None"
    then obtain v where "keyspace s i k = Some v" by (auto simp: keyspace_def)
    then show "k \<noteq> []" using assms(2) by (auto simp: data_fits_def)
  qed
  from SaveDB_writes [OF servingD(1,3) [OF S] keys assms(3,4), of filename] obtain s' where
    s': "SaveDB filename s = Some (CUTIS_OK, s')" "data_of s' = data_of s" "dirty s' = 0"
      "files (world s') = (files (world s))(filename \<mapsto> enc_file ?dbs, tmp_of (world s) := None)" by blast
  have saved: "files (world s') filename = Some (enc_file ?dbs)" using s'(4) assms(5) by simp
  have fits: "list_all db_fits ?dbs" using records_bound(1) [OF S _ assms(2)] by (simp add: list_all_length)
  have ks: "(\<lambda>j. if j < length ?dbs then bound (?dbs ! j) else Map.empty) = keyspace s"
    using records_bound(2) [OF S _ assms(2)] by (auto simp: fun_eq_iff keyspace_def addr_map_def)
  show thesis
  proof (rule that [OF s'(1) same_data_ok(2) [OF s'(2)] s'(3)])
    fix t
    assume t: "idle_ok t" "keyspace t = (\<lambda>i. Map.empty)" "length (dict t) = length (dict s)"
      "files (world t) filename = files (world s') filename"
    define n :: CutisClient where "n = \<lparr>c_id = 0, c_fd = 0, query_buf = [], reply = [], sent_len = 0, last_interaction = 0,
      argv = [], bulk_len = -1, c_db = 0\<rparr>"
    have refs: "all_refs {#} n u = server_refs u" for u by (simp add: all_refs_def n_def)
    have "loading n t (\<lambda>i. Map.empty)"
      using t(1,2) by (simp add: loading_def serving_def refs idle_ok_def dbs_ok_def) (simp add: n_def)
    from LoadDB_ok [OF this _ _ fits, of filename] t(3,4) saved assms(6) obtain t' where
      t': "LoadDB filename t = Some (Returns (CUTIS_OK, t'))" "same_clients t' t" "loading n t' (keyspace s)"
      unfolding ks by auto
    have "clients_ok {} t'" using t(1) t'(2) by (simp add: idle_ok_def clients_ok_def same_clients_def)
    then have "idle_ok t'" using t'(3) by (simp add: idle_ok_def loading_def serving_def refs)
    then show "\<exists>t'. LoadDB filename t = Some (Returns (CUTIS_OK, t')) \<and> idle_ok t' \<and> keyspace t' = keyspace s"
      using t'(1,3) by (auto simp: loading_def)
  qed
qed

end
