(* ===== verification/Ae_Loop.thy ===== *)
theory Ae_Loop
  imports Ae
begin

text \<open>
  What an invariant of the callbacks says of the event loop: the interface between the loop of
  \<open>event/ae.c\<close> and the program that runs in it.
\<close>

text \<open>
  \<open>ok\<close> holds of the lists of events together with the rest of the world. It has to survive the
  clock, \<open>select\<close>, every callback that is registered, and what the loop itself does to its timers.
\<close>

locale kept_world =
  fixes W :: "('p, 't, 'd, 'w) AeWorld" and ok :: "('p, 't, 'd) AeEventLoop \<Rightarrow> 'w \<Rightarrow> bool"
  assumes clock_keeps: "ok el w \<Longrightarrow> gettimeofday W w = (t, w') \<Longrightarrow> ok el w'"
    and select_keeps: "ok el w \<Longrightarrow> select W n sets tv w = (r, w') \<Longrightarrow> ok el w'"
    and file_keeps: "ok el w \<Longrightarrow> fe \<in> set (file_events el) \<Longrightarrow>
      run_file W (file_proc fe) (fe_fd fe) (fe_data fe) m el w = Some (el', w') \<Longrightarrow> ok el' w'"
    and time_keeps: "ok el w \<Longrightarrow> te \<in> set (time_events el) \<Longrightarrow>
      run_time W (time_proc te) (te_id te) (te_data te) el w = Some (r', el', w') \<Longrightarrow> ok el' w'"
    and timers_free: "ok el w \<Longrightarrow> ok (el\<lparr>time_events := tes\<rparr>) w"
    and stop_free: "ok el w \<Longrightarrow> ok (el\<lparr>ae_stop := b\<rparr>) w"
begin

lemma time_kept: "ok el w \<Longrightarrow> AeGetTime W w = (t, w') \<Longrightarrow> ok el w'"
  by (auto simp: AeGetTime_def Let_def split: prod.splits intro: clock_keeps)

lemma delete_kept: "ok el w \<Longrightarrow> ok (snd (AeDeleteTimeEvent el i)) w"
  by (auto simp: AeDeleteTimeEvent_def intro: timers_free)

text \<open>The walk over the file events only meets events that are registered.\<close>

lemma files_kept:
  assumes "dispatch_files W sets fes k el w = Some (k', el', w')" and "ok el w" and "set fes \<subseteq> set (file_events el)"
  shows "ok el' w'"
  using assms
proof (induction V \<equiv> W sets fes k el w rule: dispatch_files.induct)
  case (2 s fe fes processed el w)
  show ?case
  proof (cases "is_ready fe s")
    case True
    then obtain el1 w1 where run: "run_file W (file_proc fe) (fe_fd fe) (fe_data fe) (ready_mask fe s) el w = Some (el1, w1)"
      and rest: "dispatch_files W (fd_clr (fe_fd fe) s) (file_events el1) (processed + 1) el1 w1 = Some (k', el', w')"
      using "2.prems"(1) by (auto split: option.splits)
    have "ok el1 w1" using file_keeps [OF "2.prems"(2) _ run] "2.prems"(3) by simp
    then show ?thesis using "2.hyps"(1) [OF True run refl rest] by simp
  next
    case False
    then show ?thesis using "2.hyps"(2) [OF False] "2.prems" by simp
  qed
qed auto

lemma timers_kept:
  assumes "dispatch_timers W m tes el w = Some r" and "ok el w" and "set tes \<subseteq> set (time_events el)"
  shows "ok (fst r) (snd r)"
proof -
  let ?P = "\<lambda>V m tes el w r. V = W \<longrightarrow> ok el w \<longrightarrow> set tes \<subseteq> set (time_events el) \<longrightarrow> ok (fst r) (snd r)"
  have "?P W m tes el w r"
  proof (rule dispatch_timers.raw_induct [of ?P, OF _ assms(1)], intro impI, goal_cases)
    case (1 rec V m tes el w r)
    note rec = 1(1) and eq = 1(2) and ok = 1(4)
    show ?case
    proof (cases tes)
      case Nil
      then show ?thesis using eq ok by auto
    next
      case (Cons te tes')
      then have te: "te \<in> set (time_events el)" "set tes' \<subseteq> set (time_events el)" using 1(5) by simp_all
      obtain now w1 where t: "AeGetTime W w = (now, w1)" by (cases "AeGetTime W w")
      have w1: "ok el w1" by (rule time_kept [OF ok t])
      show ?thesis
      proof (cases "te_id te > m \<or> \<not> (fst now > when_sec te \<or> fst now = when_sec te \<and> snd now \<ge> when_ms te)")
        case True
        then have "rec W m tes' el w = Some r \<or> rec W m tes' el w1 = Some r"
          using eq Cons t 1(3) by (auto split: if_splits)
        then show ?thesis using rec ok w1 te(2) by blast
      next
        case due: False
        then obtain ret el1 w2 where run: "run_time W (time_proc te) (te_id te) (te_data te) el w1 = Some (ret, el1, w2)"
          using eq Cons t 1(3) by (auto split: bind_splits)
        have w2: "ok el1 w2" by (rule time_keeps [OF w1 te(1) run])
        obtain now2 w3 where t2: "AeGetTime W w2 = (now2, w3)" by (cases "AeGetTime W w2")
        have w3: "ok el1 w3" by (rule time_kept [OF w2 t2])
        let ?tes = "\<lambda>sec ms. upd_first (\<lambda>t. te_id t = te_id te) (\<lambda>t. t\<lparr>when_sec := sec, when_ms := ms\<rparr>) (time_events el1)"
        let ?del = "snd (AeDeleteTimeEvent el1 (te_id te))"
        have "rec W m (time_events ?del) ?del w2 = Some r \<or>
            (\<exists>sec ms. rec W m (?tes sec ms) (el1\<lparr>time_events := ?tes sec ms\<rparr>) w3 = Some r)"
          using eq due Cons t 1(3) run t2 by (auto simp: Let_def split: if_splits prod.splits)
        moreover note timers_free [OF w3] delete_kept [OF w2]
        ultimately have "\<exists>tes2 el2 w4. rec W m tes2 el2 w4 = Some r \<and> set tes2 \<subseteq> set (time_events el2) \<and> ok el2 w4"
          by fastforce
        then show ?thesis using rec by blast
      qed
    qed
  qed
  then show ?thesis using assms(2,3) by blast
qed

lemma wait_kept:
  assumes "wait_files W flags k sets el w = Some (Returns (p, el', w'))" and "ok el w"
  shows "ok el' w'"
proof (cases "k \<noteq> 0 \<or> has flags AE_TIME_EVENTS \<and> \<not> has flags AE_DONT_WAIT")
  case True
  define tv where "tv = (case (if has flags AE_TIME_EVENTS \<and> \<not> has flags AE_DONT_WAIT then AeSearchNearestTimer el else None) of
      Some te \<Rightarrow> let (now, w) = AeGetTime W w in (Some (time_left te now), w)
    | None \<Rightarrow> (if has flags AE_DONT_WAIT then Some (0, 0) else None, w))"
  have w1: "ok el (snd tv)" using assms(2)
    by (auto simp: tv_def Let_def split: option.splits prod.splits dest: time_kept)
  obtain ret eintr sets' w2 where sel: "select W (k + 1) sets (fst tv) (snd tv) = ((ret, eintr, sets'), w2)"
    by (metis prod.exhaust)
  have w2: "ok el w2" by (rule select_keeps [OF w1 sel])
  have "(if ret > 0 then map_option Returns (dispatch_files W sets' (file_events el) 0 el w2)
      else if ret < 0 \<and> \<not> eintr then Some Exit else Some (Returns (0, el, w2))) = Some (Returns (p, el', w'))"
    using assms(1) True sel unfolding wait_files_def Let_def tv_def [symmetric, unfolded Let_def]
    by (simp add: split_beta cong: if_cong)
  then show ?thesis using w2 by (auto split: if_splits dest: files_kept)
qed (use assms in \<open>auto simp: wait_files_def\<close>)

theorem process_kept:
  assumes "AeProcessEvents W flags el w = Some (Returns (n, el', w'))" and "ok el w"
  shows "ok el' w'"
proof (cases "\<not> has flags AE_TIME_EVENTS \<and> \<not> has flags AE_FILE_EVENTS")
  case True
  then show ?thesis using assms by (simp add: AeProcessEvents_def)
next
  case False
  then obtain k sets m el1 w1 where files: "wait_files W flags m sets el w = Some (Returns (k, el1, w1))"
    and rest: "(if has flags AE_TIME_EVENTS then
        do { (el, w) \<leftarrow> dispatch_timers W (time_event_next_id el1 - 1) (time_events el1) el1 w1;
             Some (Returns (k, el, w)) }
      else Some (Returns (k, el1, w1))) = Some (Returns (n, el', w'))"
    using assms(1) unfolding AeProcessEvents_def
    by (auto split: bind_splits outcome.splits cong: if_cong)
  have "ok el1 w1" by (rule wait_kept [OF files assms(2)])
  then show ?thesis using rest
    by (auto split: if_splits bind_splits dest: timers_kept)
qed

theorem turns_kept:
  assumes "main_turns n W el w = Some (Returns (el', w'))" and "ok el w"
  shows "ok el' w'"
  using assms
proof (induction n arbitrary: el w)
  case (Suc n)
  then show ?case by (auto split: if_splits option.splits outcome.splits dest: process_kept)
qed simp

theorem main_kept:
  assumes "AeMain n W el w = Some (Returns (el', w'))" and "ok el w"
  shows "ok el' w'"
  using assms turns_kept stop_free by (fastforce simp: AeMain_def)

end

end
