(* ===== verification/Serve.thy ===== *)
theory Serve
  imports System Ae_Loop
begin

text \<open>
  The event loop of \<open>Ae\<close> running the server: its callbacks are \<open>AcceptHandler\<close>,
  \<open>ReadQueryFromClient\<close>, \<open>SendReplyToClient\<close> and \<open>ServerCron\<close>, and the state of its world is the server.
\<close>

section \<open>The world of the loop\<close>

text \<open>
  \<open>alloc\<close> is the address \<open>zmalloc\<close> yields for a new client, never one that is in use; \<open>sel\<close> is
  \<open>select\<close>, which may answer differently each time. A callback works on the lists of events as they
  are when it is called, and the loop goes on with the lists it leaves.
\<close>

type_synonym select_oracle = "nat \<Rightarrow> int \<Rightarrow> fd_sets \<Rightarrow> (int \<times> int) option \<Rightarrow> int \<times> bool \<times> fd_sets"

definition run_handler :: "(CutisServer \<Rightarrow> addr) \<Rightarrow> handler \<Rightarrow> addr \<Rightarrow> CutisServer \<Rightarrow> (int \<times> CutisServer) option" where
  "run_handler alloc proc p s =
     (case proc of
        AcceptProc \<Rightarrow> (let a = alloc s in if a \<in> set (clients s) then None else Some (AcceptHandler a s))
      | ReadProc \<Rightarrow> with_client ReadQueryFromClient p s
      | SendProc \<Rightarrow> with_client SendReplyToClient p s)"

definition run_timer :: "timer \<Rightarrow> CutisServer \<Rightarrow> (int \<times> CutisServer) option" where
  "run_timer proc s = (case proc of CronProc \<Rightarrow> ServerCron s)"

definition server_world ::
  "(CutisServer \<Rightarrow> addr) \<Rightarrow> select_oracle \<Rightarrow> (handler, timer, addr, CutisServer) AeWorld"
where
  "server_world alloc sel =
     \<lparr>gettimeofday = (\<lambda>s. let (sec, s) = syscall s; (usec, s) = syscall s in ((sec, usec), s)),
      select = (\<lambda>n sets tv s. (sel (calls (world s)) n sets tv, snd (syscall s))),
      run_file = (\<lambda>proc fd p m e s.
        do { (_, s) \<leftarrow> run_handler alloc proc p (s\<lparr>el := e\<rparr>); Some (el s, s) }),
      run_time = (\<lambda>proc i d e s.
        do { (r, s) \<leftarrow> run_timer proc (s\<lparr>el := e\<rparr>); Some (r, el s, s) })\<rparr>"

section \<open>Invariants of the server under the loop\<close>

lemma run_handler_idle:
  assumes "run_handler alloc proc p s = Some (r, s')" and "idle_ok s"
  shows "idle_ok s'"
proof (cases proc)
  case AcceptProc
  then show ?thesis using assms by (auto simp: run_handler_def Let_def split: if_splits intro: AcceptHandler_idle)
next
  case ReadProc
  then show ?thesis using assms
    by (auto simp: run_handler_def intro: with_client_idle [OF _ _ ReadQueryFromClient_leaves])
next
  case SendProc
  then show ?thesis using assms
    by (auto simp: run_handler_def intro: with_client_idle [OF _ _ SendReplyToClient_leaves])
qed

lemma run_timer_idle: "run_timer proc s = Some (r, s') \<Longrightarrow> idle_ok s \<Longrightarrow> idle_ok s'"
  by (cases proc) (auto simp: run_timer_def intro: ServerCron_idle)

lemma idle_syscall_snd [simp]: "idle_ok (snd (syscall s)) = idle_ok s"
  by (cases "syscall s") (simp add: idle_syscall)

interpretation serving_loop: kept_world "server_world alloc sel" "\<lambda>e s. idle_ok s" for alloc sel
  by unfold_locales
    (auto simp: server_world_def idle_syscall split: prod.splits bind_splits dest!: run_handler_idle run_timer_idle)

section \<open>Stopping\<close>

definition interrupt_handler :: "CutisServer \<Rightarrow> CutisServer" where
  "interrupt_handler s = s\<lparr>el := AeStop (el s)\<rparr>"

text \<open>After an interrupt the loop ends where it next looks.\<close>

lemma interrupt_stops:
  "idle_ok (interrupt_handler s) = idle_ok s"
  "main_turns n W (el (interrupt_handler s)) w = Some (Returns (el (interrupt_handler s), w))"
  by (simp add: interrupt_handler_def) (cases n; simp add: interrupt_handler_def AeStop_def)

text \<open>\<open>AeMain\<close> clears the flag, so an interrupt before the loop has no effect on it.\<close>

lemma early_interrupt_lost: "AeMain n W (el (interrupt_handler s)) w = AeMain n W (el s) w"
  by (simp add: interrupt_handler_def AeMain_def AeStop_def)

section \<open>Starting to serve\<close>

text \<open>\<open>n\<close> bounds the turns of the loop: it returns when it is stopped, or after \<open>n\<close> turns.\<close>

definition StartServer ::
  "nat \<Rightarrow> (CutisServer \<Rightarrow> addr) \<Rightarrow> select_oracle \<Rightarrow> CutisServer \<Rightarrow> (int \<times> CutisServer) outcome option"
where
  "StartServer n alloc sel s =
     (let s = listen s in
      and_then (AeMain n (server_world alloc sel) (el s) s) (\<lambda>(e, s). Some (Returns (CUTIS_OK, s\<lparr>el := e\<rparr>))))"

lemma and_then_Returns:
  "and_then m f = Some (Returns y) \<longleftrightarrow> (\<exists>x. m = Some (Returns x) \<and> f x = Some (Returns y))"
  by (auto simp: and_then_def split: option.splits outcome.splits)

theorem StartServer_idle:
  assumes "StartServer n alloc sel s = Some (Returns (r, s'))" and "idle_ok s"
  shows "idle_ok s'"
proof -
  obtain e s1 where run: "AeMain n (server_world alloc sel) (el (listen s)) (listen s) = Some (Returns (e, s1))"
    and s': "s' = s1\<lparr>el := e\<rparr>"
    using assms(1) by (auto simp: StartServer_def Let_def and_then_Returns)
  have "idle_ok (listen s)" using assms(2) by (simp add: listen_def)
  with serving_loop.main_kept [OF run] show ?thesis by (simp add: s')
qed

end
