(* ===== verification/Watch.thy ===== *)
theory Watch
  imports Serve
begin

text \<open>
  What serving a client does to the lists of events of the loop: it registers a handler for writing,
  takes it away, stops the loop, or takes away everything the client has registered.
\<close>

section \<open>What the functions on a client do to the lists of events\<close>

definition watch :: "CutisServer \<Rightarrow> (handler, timer, addr) AeEventLoop \<times> (addr \<rightharpoonup> CutisClient)" where
  "watch s = (el s, client_at s)"

definition handle :: "CutisClient \<Rightarrow> addr \<times> int" where
  "handle c = (c_id c, c_fd c)"

lemma handle_simps [simp]:
  "handle (c\<lparr>reply := x\<rparr>) = handle c" "handle (c\<lparr>c_db := i\<rparr>) = handle c" "handle (take_arg i c) = handle c"
  "handle (c\<lparr>argv := av\<rparr>) = handle c" "handle (c\<lparr>query_buf := q\<rparr>) = handle c" "handle (c\<lparr>bulk_len := n\<rparr>) = handle c"
  "handle (c\<lparr>sent_len := n\<rparr>) = handle c" "handle (c\<lparr>last_interaction := t\<rparr>) = handle c" "handle (ResetClient c) = handle c"
  by (simp_all add: handle_def take_arg_def ResetClient_def FreeClientArgv_def)

lemma watch_simps [simp]:
  "watch (s\<lparr>heap := h\<rparr>) = watch s" "watch (s\<lparr>dirty := n\<rparr>) = watch s" "watch (s\<lparr>world := w\<rparr>) = watch s"
  "watch (s\<lparr>last_save := t\<rparr>) = watch s" "watch (s\<lparr>bg_saving := b\<rparr>) = watch s" "watch (put_db i d s) = watch s"
  "watch (s\<lparr>clients := cs\<rparr>) = watch s" "watch (s\<lparr>cron_loops := n\<rparr>) = watch s" "watch (s\<lparr>dict := ds\<rparr>) = watch s"
  by (simp_all add: watch_def put_db_def)

text \<open>Most functions do nothing to them.\<close>

named_theorems watches

lemma watch_create [watches]: "create p s = (a, s') \<Longrightarrow> watch s' = watch s"
  by (auto simp: create_def split: prod.splits)

lemma watch_decr [watches]: "decr a s = Some s' \<Longrightarrow> watch s' = watch s"
  by (auto simp: decr_def split: bind_splits)

lemma watch_incr [watches]: "incr a s = Some s' \<Longrightarrow> watch s' = watch s"
  by (auto simp: incr_def split: bind_splits)

lemma watch_store_ptr [watches]: "store_ptr a p s = Some s' \<Longrightarrow> watch s' = watch s"
  by (auto simp: store_ptr_def split: bind_splits)

lemma watch_db [watches]:
  "db_add k a i s = Some (r, s') \<Longrightarrow> watch s' = watch s"
  "db_replace k a i s = Some (r, s') \<Longrightarrow> watch s' = watch s"
  "db_delete k i s = Some (r, s') \<Longrightarrow> watch s' = watch s"
  "db_delete_no_free k i s = Some (r, s') \<Longrightarrow> watch s' = watch s"
  by (auto simp: db_add_def db_replace_def db_delete_def db_delete_no_free_def split: bind_splits)

lemma watch_drop_borrowed [watches]: "drop_borrowed a s = Some s' \<Longrightarrow> watch s' = watch s"
  by (auto simp: drop_borrowed_def split: bind_splits dest!: watches)

lemma watch_del_end [watches]: "del_end side a s = Some s' \<Longrightarrow> watch s' = watch s"
  by (auto simp: del_end_def split: bind_splits optr.splits dest!: watches)

lemma watch_set_add [watches]: "set_add a x s = Some (r, s') \<Longrightarrow> watch s' = watch s"
  by (auto simp: set_add_def split: bind_splits optr.splits dest!: watches)

lemma watch_times [watches]: "timesM n (del_end side a) s = Some s' \<Longrightarrow> watch s' = watch s"
  by (induction n arbitrary: s) (auto split: option.splits dest!: watches)

lemma watch_syscall [watches]: "syscall s = (x, s') \<Longrightarrow> watch s' = watch s"
  by (auto simp: syscall_def split: prod.splits)

lemma watch_syscall_snd [simp]: "watch (snd (syscall s)) = watch s"
  by (simp add: syscall_def split: prod.splits)

lemma watch_set_file [simp]: "watch (set_file name x s) = watch s"
  by (simp add: set_file_def)

lemma watch_flush [watches]: "flush name buf s = (b, s') \<Longrightarrow> watch s' = watch s"
  by (auto simp: flush_def Let_def split: prod.splits dest!: watches)

lemma watch_fclose [watches]: "fclose name buf s = (b, s') \<Longrightarrow> watch s' = watch s"
  by (auto simp: fclose_def split: prod.splits dest!: watches)

lemma watch_fwrites [watches]: "fwrites name chs buf s = (b, buf', s') \<Longrightarrow> watch s' = watch s"
  by (induction chs arbitrary: buf s)
    (auto simp: fwrite_def Let_def split: prod.splits if_splits dest!: watches)

lemma watch_SaveDB [watches]: "SaveDB name s = Some (r, s') \<Longrightarrow> watch s' = watch s"
  by (auto simp: SaveDB_def Let_def split: prod.splits if_splits bind_splits dest!: watches)

lemma watch_SaveDBBackground [watches]: "SaveDBBackground name s = (r, s') \<Longrightarrow> watch s' = watch s"
  by (auto simp: SaveDBBackground_def Let_def split: prod.splits if_splits dest!: watches)

text \<open>
  The others register a handler for writing to their own client, take it away, stop the loop, or take
  away everything of the client. \<open>R\<close> is a property of the events that all but the last keep; \<open>F\<close> holds
  once the client is gone.
\<close>

named_theorems arms

locale armed =
  fixes k :: "addr \<times> int" and R F :: "(handler, timer, addr) AeEventLoop \<times> (addr \<rightharpoonup> CutisClient) \<Rightarrow> bool"
  assumes arm: "R (e, t) \<Longrightarrow> R (snd (AeCreateFileEvent e (snd k) AE_WRITABLE SendProc (fst k)), t)"
    and stop: "R (e, t) \<Longrightarrow> R (AeStop e, t)"
    and disarm: "R (e, t) \<Longrightarrow> R (AeDeleteFileEvent e (snd k) AE_WRITABLE, t)"
    and gone: "R (e, t) \<Longrightarrow> F (AeDeleteFileEvent (AeDeleteFileEvent e (snd k) AE_READABLE) (snd k) AE_WRITABLE, t)"
begin

lemma watch_stop: "R (watch s) \<Longrightarrow> R (watch (s\<lparr>el := AeStop (el s)\<rparr>))"
  using stop by (simp add: watch_def)

lemma watch_disarm: "R (watch s) \<Longrightarrow> R (watch (s\<lparr>el := AeDeleteFileEvent (el s) (snd k) AE_WRITABLE\<rparr>))"
  using disarm by (simp add: watch_def)

lemma arm_AddReply [arms]:
  "AddReply a c s = Some (c', s') \<Longrightarrow> handle c' = handle c \<and> (handle c = k \<longrightarrow> R (watch s) \<longrightarrow> R (watch s'))"
  using arm by (auto simp: AddReply_def Let_def watch_def handle_def split: bind_splits if_splits)

lemma arm_AddReplySds [arms]:
  "AddReplySds t c s = Some (c', s') \<Longrightarrow> handle c' = handle c \<and> (handle c = k \<longrightarrow> R (watch s) \<longrightarrow> R (watch s'))"
  by (auto simp: AddReplySds_def Let_def split: bind_splits prod.splits dest!: arms)

lemma arm_reply_shared [arms]:
  "reply_shared f c s = Some (c', s') \<Longrightarrow> handle c' = handle c \<and> (handle c = k \<longrightarrow> R (watch s) \<longrightarrow> R (watch s'))"
  by (auto simp: reply_shared_def dest!: arms)

lemma arm_reply_ok_dirty [arms]:
  "reply_ok_dirty c s = Some (c', s') \<Longrightarrow> handle c' = handle c \<and> (handle c = k \<longrightarrow> R (watch s) \<longrightarrow> R (watch s'))"
  by (auto simp: reply_ok_dirty_def dest!: arms)

lemma arm_reply_bulk [arms]:
  "reply_bulk a c s = Some (c', s') \<Longrightarrow> handle c' = handle c \<and> (handle c = k \<longrightarrow> R (watch s) \<longrightarrow> R (watch s'))"
  by (auto simp: reply_bulk_def split: bind_splits dest!: arms)

lemma arm_bulks [arms]:
  "foldM (\<lambda>x (c, s). reply_bulk x c s) xs (c, s) = Some (c', s') \<Longrightarrow>
   handle c' = handle c \<and> (handle c = k \<longrightarrow> R (watch s) \<longrightarrow> R (watch s'))"
  by (induction xs arbitrary: c s) (auto split: option.splits dest!: arms)

lemma arm_sinter [arms]:
  "foldM (sinter_step ds) es ((c, s), n) = Some ((c', s'), n') \<Longrightarrow>
   handle c' = handle c \<and> (handle c = k \<longrightarrow> R (watch s) \<longrightarrow> R (watch s'))"
proof (induction es arbitrary: c s n)
  case (Cons e es)
  then show ?case
    by (auto simp: sinter_step_def split: option.splits bind_splits if_splits dest!: arms watches Cons.IH)
qed simp

definition watched :: "CutisClient \<Rightarrow> CutisServer \<Rightarrow> (CutisClient \<times> CutisServer) option \<Rightarrow> bool" where
  "watched c s r \<longleftrightarrow> (\<forall>c' s'. r = Some (c', s') \<longrightarrow>
     handle c' = handle c \<and> (handle c = k \<longrightarrow> R (watch s) \<longrightarrow> R (watch s')))"

lemma watched_strings [simp]:
  "watched c s (SetGenericCommand nx c s)" "watched c s (GetCommand c s)" "watched c s (ExistsCommand c s)"
  "watched c s (DelCommand c s)" "watched c s (IncrDecrCommand i c s)" "watched c s (RandomKeyCommand c s)"
  unfolding watched_def SetGenericCommand_def GetCommand_def ExistsCommand_def DelCommand_def IncrDecrCommand_def
    RandomKeyCommand_def Let_def
  by (auto split: frame_splits dest!: arms watches)

lemma watched_lists [simp]:
  "watched c s (PushGenericCommand side c s)" "watched c s (PopGenericCommand side c s)" "watched c s (LLenCommand c s)"
  "watched c s (LIndexCommand c s)" "watched c s (LRangeCommand c s)" "watched c s (LTrimCommand c s)" "watched c s (LSetCommand c s)"
  unfolding watched_def PushGenericCommand_def PopGenericCommand_def LLenCommand_def LIndexCommand_def LRangeCommand_def
    LTrimCommand_def LSetCommand_def Let_def
  by (auto split: frame_splits dest!: arms watches)

lemma watched_sets [simp]:
  "watched c s (SAddCommand c s)" "watched c s (SRemCommand c s)" "watched c s (SIsMemberCommand c s)"
  "watched c s (SCardCommand c s)" "watched c s (SInterCommand c s)"
  unfolding watched_def SAddCommand_def SRemCommand_def SIsMemberCommand_def SCardCommand_def SInterCommand_eq Let_def
  by (auto split: frame_splits list.splits dest!: arms watches)

lemma watched_keys [simp]:
  "watched c s (TypeCommand c s)" "watched c s (SelectCommand c s)" "watched c s (MoveCommand c s)"
  "watched c s (RenameGenericCommand nx c s)" "watched c s (KeysCommand c s)" "watched c s (DbsizeCommand c s)"
  unfolding watched_def TypeCommand_def SelectCommand_def MoveCommand_def RenameGenericCommand_def KeysCommand_def
    DbsizeCommand_def SelectDB_def Let_def
  by (auto split: frame_splits dest!: arms watches)

lemma watched_server [simp]:
  "watched c s (SaveCommand c s)" "watched c s (BgsaveCommand c s)" "watched c s (ShutDownCommand c s)"
  "watched c s (PingCommand c s)" "watched c s (EchoCommand c s)" "watched c s (LastSaveCommand c s)"
  unfolding watched_def SaveCommand_def BgsaveCommand_def ShutDownCommand_def PingCommand_def EchoCommand_def
    LastSaveCommand_def Let_def
  by (auto simp: watch_stop split: frame_splits dest!: arms watches)

lemma cmdTable_watched: "cm \<in> set cmdTable \<Longrightarrow> watched c s (cmd_proc cm c s)"
  unfolding cmdTable_def entry_def
  by (auto simp: SetCommand_def SetnxCommand_def IncrCommand_def DecrCommand_def RPushCommand_def LPushCommand_def
      RPopCommand_def LPopCommand_def RenameCommand_def RenamenxCommand_def)

end

section \<open>Serving a client\<close>

context armed
begin

definition here :: "CutisClient \<Rightarrow> CutisServer \<Rightarrow> bool" where
  "here c s \<longleftrightarrow> handle c = k \<and> R (watch s)"

lemma here_simps [simp]:
  "here (c\<lparr>argv := av\<rparr>) s = here c s" "here (c\<lparr>query_buf := q\<rparr>) s = here c s" "here (c\<lparr>bulk_len := n\<rparr>) s = here c s"
  "here (c\<lparr>sent_len := n\<rparr>) s = here c s" "here (c\<lparr>last_interaction := t\<rparr>) s = here c s" "here (ResetClient c) s = here c s"
  "here c (snd (syscall s)) = here c s"
  by (simp_all add: here_def)

lemma here_syscall: "syscall s = (x, s') \<Longrightarrow> here c s' = here c s"
  by (simp add: here_def watch_syscall)

definition stays :: "client_result \<Rightarrow> bool" where
  "stays r \<longleftrightarrow> (\<forall>n oc s. r = Some (n, oc, s) \<longrightarrow> (case oc of None \<Rightarrow> F (watch s) | Some c \<Rightarrow> here c s))"

lemma stays_simps [simp]:
  "stays None" "stays (Some (n, None, s)) = F (watch s)" "stays (Some (n, Some c, s)) = here c s"
  by (simp_all add: stays_def)

lemma stays_bind: "(\<And>x. m = Some x \<Longrightarrow> stays (f x)) \<Longrightarrow> stays (m \<bind> f)"
  by (cases m) auto

lemma FreeClient_gone: "FreeClient c s = Some s' \<Longrightarrow> here c s \<Longrightarrow> F (watch s')"
  using gone by (auto simp: FreeClient_def Let_def watch_def handle_def here_def split: bind_splits if_splits)

lemma free_stays: "here c s \<Longrightarrow> stays (FreeClient c s \<bind> (\<lambda>s. Some (n, None, s)))"
  by (intro stays_bind) (auto intro: FreeClient_gone)

lemma refuse_stays: "here c s \<Longrightarrow> stays (refuse msg c s)"
  unfolding refuse_def using arm_AddReplySds by (intro stays_bind) (force simp: here_def)

lemma run_stays: "cm \<in> set cmdTable \<Longrightarrow> here c s \<Longrightarrow> stays (run_command cm c s)"
  unfolding run_command_def using cmdTable_watched [of cm c s]
  by (intro stays_bind) (force simp: watched_def here_def)

lemma ProcessCommand_stays:
  assumes "here c s"
  shows "stays (ProcessCommand c s)"
proof -
  have table: "cm \<in> set cmdTable" if "LookupCommand name = Some cm" for name cm
    using that by (simp add: LookupCommand_def) (metis find_SomeD)
  have freed: "F (watch s')" if "FreeClient (c\<lparr>argv := av\<rparr>) s = Some s'" for av s'
    using FreeClient_gone [OF that] assms by simp
  show ?thesis
    unfolding ProcessCommand_def Let_def
    by (intro stays_bind) (auto simp: assms refuse_stays run_stays dest!: table freed
        split: option.splits intro!: stays_bind)
qed

lemma after_stays: "stays m \<Longrightarrow> stays (after_process m)"
  unfolding after_process_def by (intro stays_bind) (auto simp: stays_def split: option.splits)

lemma ParseBulkQuery_stays: "here c s \<Longrightarrow> stays (ParseBulkQuery c s)"
  unfolding ParseBulkQuery_def Let_def
  by (auto intro!: stays_bind after_stays ProcessCommand_stays)

lemma ParseNonBulkQuery_stays: "here c s \<Longrightarrow> stays (ParseNonBulkQuery c s)"
  unfolding ParseNonBulkQuery_def Let_def
  by (auto intro!: after_stays ProcessCommand_stays free_stays split: option.splits)

lemma parse_loop_stays: "here c s \<Longrightarrow> stays (parse_loop n c s)"
proof (induction n arbitrary: c s)
  case (Suc n)
  let ?m = "if bulk_len c = -1 then ParseNonBulkQuery c s else ParseBulkQuery c s"
  have m: "stays ?m" using ParseNonBulkQuery_stays ParseBulkQuery_stays Suc.prems by simp
  show ?case
  proof (cases ?m)
    case (Some x)
    then obtain r oc s1 where "?m = Some (r, oc, s1)" by (cases x) auto
    with m show ?thesis using Suc.IH [of "the oc" s1] by (cases oc) auto
  qed simp
qed simp

theorem ReadQueryFromClient_stays: "here c s \<Longrightarrow> stays (ReadQueryFromClient c s)"
  unfolding ReadQueryFromClient_def Let_def ParseQuery_def
  by (auto split: read_result.splits prod.splits simp: here_syscall simp del: parse_loop.simps
      intro!: parse_loop_stays free_stays)

lemma here_write: "write_call fd bs s = (x, s') \<Longrightarrow> here c s' = here c s"
  by (auto simp: write_call_def Let_def here_def watch_def watch_syscall dest!: watches split: prod.splits)

lemma del_first_here: "del_first_reply c s = Some (c', s') \<Longrightarrow> here c s \<Longrightarrow> here c' s'"
  by (auto simp: here_def del_first_reply_def split: list.splits bind_splits dest!: watches)

lemma send_loop_here: "send_loop nw w c s = Some (nw', w', c', s') \<Longrightarrow> here c s \<Longrightarrow> here c' s'"
  using send_loop_preserves [where P = here, of nw w c s "(nw', w', c', s')"] del_first_here
  by (auto simp: here_write)

lemma here_disarm: "here c s \<Longrightarrow> here c (s\<lparr>el := AeDeleteFileEvent (el s) (c_fd c) AE_WRITABLE\<rparr>)"
  using watch_disarm [of s] by (auto simp: here_def handle_def)

theorem SendReplyToClient_stays: "here c s \<Longrightarrow> stays (SendReplyToClient c s)"
  unfolding SendReplyToClient_def Let_def
  by (intro stays_bind)
    (auto simp: here_syscall dest!: send_loop_here intro: free_stays here_disarm split: prod.splits)

end

end
