(* ===== verification/Handlers.thy ===== *)
theory Handlers
  imports Watch
begin

text \<open>
  No event of the loop outlives its client: every registered handler of a client finds that client
  alive, with the descriptor it was registered for.
\<close>

section \<open>Every handler finds its client\<close>

text \<open>The descriptors of the clients that are there.\<close>

definition fds_of :: "(addr \<rightharpoonup> CutisClient) \<Rightarrow> addr \<rightharpoonup> int" where
  "fds_of t = (\<lambda>p. map_option c_fd (t p))"

definition all_watched :: "(addr \<rightharpoonup> int) \<Rightarrow> (handler, timer, addr) AeEventLoop \<Rightarrow> bool" where
  "all_watched L e \<longleftrightarrow> distinct (map (\<lambda>fe. (fe_fd fe, fe_mask fe)) (file_events e)) \<and>
     (\<forall>fe \<in> set (file_events e). (fe_mask fe = AE_READABLE \<or> fe_mask fe = AE_WRITABLE) \<and>
        (file_proc fe = AcceptProc \<or> L (fe_data fe) = Some (fe_fd fe)))"

lemma has_masks [simp]:
  "has AE_READABLE AE_READABLE" "has AE_WRITABLE AE_WRITABLE" "\<not> has AE_READABLE AE_WRITABLE" "\<not> has AE_WRITABLE AE_READABLE"
  by (simp_all add: has_def AE_READABLE_def AE_WRITABLE_def)

text \<open>Registering a handler of a client that is there.\<close>

lemma create_watched:
  assumes "all_watched L e" and "m = AE_READABLE \<or> m = AE_WRITABLE" and "proc = AcceptProc \<or> L p = Some fd"
  shows "all_watched L (snd (AeCreateFileEvent e fd m proc p))"
proof (cases "list_ex (\<lambda>fe. fe_fd fe = fd \<and> has (fe_mask fe) m) (file_events e)")
  case True
  then have "\<exists>fe \<in> set (file_events e). fe_fd fe = fd \<and> has (fe_mask fe) m" by (simp add: list_ex_iff)
  then obtain xs fe ys where split: "file_events e = xs @ fe # ys" "fe_fd fe = fd \<and> has (fe_mask fe) m"
    "\<forall>x \<in> set xs. \<not> (fe_fd x = fd \<and> has (fe_mask x) m)"
    by (rule split_list_first_propE) blast
  let ?fe = "fe\<lparr>file_proc := proc, fe_data := p\<rparr>"
  have "file_events (snd (AeCreateFileEvent e fd m proc p)) = xs @ ?fe # ys"
    using True split by (simp add: AeCreateFileEvent_def upd_first_split)
  then show ?thesis using assms(1,3) split(1,2) by (auto simp: all_watched_def)
next
  case False
  then have "(fd, m) \<notin> (\<lambda>fe. (fe_fd fe, fe_mask fe)) ` set (file_events e)"
    using assms(2) by (auto simp: list_ex_iff)
  then show ?thesis using assms False by (auto simp: all_watched_def AeCreateFileEvent_def)
qed

text \<open>Deleting takes exactly the entry of that descriptor and mask.\<close>

lemma delete_events:
  fixes e :: "(handler, timer, addr) AeEventLoop"
  assumes "distinct (map (\<lambda>fe. (fe_fd fe, fe_mask fe)) (file_events e))"
  shows "file_events (AeDeleteFileEvent e fd m) = filter (\<lambda>fe. (fe_fd fe, fe_mask fe) \<noteq> (fd, m)) (file_events e)"
proof -
  have "remove_first (\<lambda>fe. fe_fd fe = fd \<and> fe_mask fe = m) xs = filter (\<lambda>fe. (fe_fd fe, fe_mask fe) \<noteq> (fd, m)) xs"
    if "distinct (map (\<lambda>fe. (fe_fd fe, fe_mask fe)) xs)" for xs :: "(handler, addr) AeFileEvent list"
    using that
  proof (induction xs)
    case (Cons a xs)
    have "filter (\<lambda>fe. (fe_fd fe, fe_mask fe) \<noteq> (fd, m)) xs = xs" if "fe_fd a = fd" "fe_mask a = m"
      using Cons.prems that by (intro filter_True) (auto simp: image_iff)
    then show ?case using Cons by auto
  qed simp
  then show ?thesis using assms by (simp add: AeDeleteFileEvent_def)
qed

lemma delete_watched:
  assumes "all_watched L e"
  shows "all_watched L (AeDeleteFileEvent e fd m)"
    "file_events (AeDeleteFileEvent e fd m) = filter (\<lambda>fe. (fe_fd fe, fe_mask fe) \<noteq> (fd, m)) (file_events e)"
  using assms delete_events [of e fd m] by (auto simp: all_watched_def distinct_map_filter)

lemma gone_watched:
  assumes "all_watched L e" and "L p = Some fd"
  shows "all_watched (L(p := None)) (AeDeleteFileEvent (AeDeleteFileEvent e fd AE_READABLE) fd AE_WRITABLE)"
proof -
  let ?e = "AeDeleteFileEvent (AeDeleteFileEvent e fd AE_READABLE) fd AE_WRITABLE"
  note d1 = delete_watched [OF assms(1), of fd AE_READABLE]
  note d2 = delete_watched [OF d1(1), of fd AE_WRITABLE]
  have "fe_fd fe \<noteq> fd" if "fe \<in> set (file_events ?e)" for fe
    using that assms(1) by (auto simp: d1(2) d2(2) all_watched_def)
  then show ?thesis using d2(1) assms(2) by (auto simp: all_watched_def)
qed

interpretation client_events: armed k
    "\<lambda>(e, t). t = T \<and> all_watched ((fds_of T)(fst k \<mapsto> snd k)) e"
    "\<lambda>(e, t). t = T \<and> all_watched ((fds_of T)(fst k := None)) e" for k T
proof
  fix e t
  assume "case (e, t) of (e, t) \<Rightarrow> t = T \<and> all_watched ((fds_of T)(fst k \<mapsto> snd k)) e"
  then have t: "t = T" and e: "all_watched ((fds_of T)(fst k \<mapsto> snd k)) e" by simp_all
  show "case (snd (AeCreateFileEvent e (snd k) AE_WRITABLE SendProc (fst k)), t) of
      (e, t) \<Rightarrow> t = T \<and> all_watched ((fds_of T)(fst k \<mapsto> snd k)) e"
    using t create_watched [OF e] by simp
  show "case (AeStop e, t) of (e, t) \<Rightarrow> t = T \<and> all_watched ((fds_of T)(fst k \<mapsto> snd k)) e"
    using t e by (simp add: AeStop_def all_watched_def)
  show "case (AeDeleteFileEvent e (snd k) AE_WRITABLE, t) of
      (e, t) \<Rightarrow> t = T \<and> all_watched ((fds_of T)(fst k \<mapsto> snd k)) e"
    using t delete_watched(1) [OF e] by simp
  show "case (AeDeleteFileEvent (AeDeleteFileEvent e (snd k) AE_READABLE) (snd k) AE_WRITABLE, t) of
      (e, t) \<Rightarrow> t = T \<and> all_watched ((fds_of T)(fst k := None)) e"
    using t gone_watched [OF e, of "fst k" "snd k"] by simp
qed

section \<open>The events of the server\<close>

definition handlers_ok :: "CutisServer \<Rightarrow> bool" where
  "handlers_ok s \<longleftrightarrow> all_watched (fds_of (client_at s)) (el s)"

lemma handlers_watch: "watch s' = watch s \<Longrightarrow> handlers_ok s' = handlers_ok s"
  by (simp add: watch_def handlers_ok_def)

text \<open>A client that is taken out to be served.\<close>

lemma out_here:
  assumes "idle_ok s" and "client_at s p = Some c" and "handlers_ok s"
  shows "client_events.here (p, c_fd c) ((client_at s)(p := None)) c (s\<lparr>client_at := (client_at s)(p := None)\<rparr>)"
proof -
  have "c_id c = p" using assms(1,2) by (auto simp: idle_ok_def clients_ok_def)
  moreover have "(fds_of ((client_at s)(p := None)))(p \<mapsto> c_fd c) = fds_of (client_at s)"
    using assms(2) by (auto simp: fds_of_def)
  ultimately show ?thesis using assms(3)
    unfolding client_events.here_def by (simp add: handle_def watch_def handlers_ok_def)
qed

lemma gone_handlers:
  assumes "case watch s of (e, t) \<Rightarrow> t = T(p := None) \<and> all_watched ((fds_of (T(p := None)))(p := None)) e"
  shows "handlers_ok s \<and> client_at s p = None"
proof -
  have "(fds_of (T(p := None)))(p := None) = fds_of (T(p := None))" by (auto simp: fds_of_def)
  then show ?thesis using assms by (simp add: watch_def handlers_ok_def)
qed

lemma with_client_handlers:
  assumes "with_client f p s = Some (r, s')" and "idle_ok s" and "handlers_ok s"
    and "\<And>k T c s. client_events.here k T c s \<Longrightarrow> client_events.stays k T (f c s)"
  shows "handlers_ok s'"
proof -
  let ?T = "(client_at s)(p := None)"
  obtain c oc s1 where f: "client_at s p = Some c" "f c (s\<lparr>client_at := ?T\<rparr>) = Some (r, oc, s1)"
    "s' = s1\<lparr>client_at := (client_at s1)(p := oc)\<rparr>"
    using assms(1) by (auto simp: with_client_def split: bind_splits)
  have stays: "client_events.stays (p, c_fd c) ?T (Some (r, oc, s1))"
    using assms(4) [OF out_here [OF assms(2) f(1) assms(3)]] f(2) by simp
  show ?thesis
  proof (cases oc)
    case None
    note F = stays [unfolded None client_events.stays_simps, unfolded fst_conv]
    have "handlers_ok s1 \<and> client_at s1 p = None" by (rule gone_handlers [OF F])
    then show ?thesis using f(3) None by (simp add: fun_upd_idem)
  next
    case (Some c1)
    have "client_events.here (p, c_fd c) ?T c1 s1" using stays unfolding Some client_events.stays_simps .
    then have c1: "c_fd c1 = c_fd c" "client_at s1 = ?T" "all_watched ((fds_of ?T)(p \<mapsto> c_fd c)) (el s1)"
      unfolding client_events.here_def by (simp_all add: handle_def watch_def)
    moreover have "(fds_of ?T)(p \<mapsto> c_fd c) = fds_of (?T(p \<mapsto> c1))" using c1(1) by (auto simp: fds_of_def)
    ultimately show ?thesis using f(3) Some by (simp add: handlers_ok_def)
  qed
qed

lemma listen_handlers: "handlers_ok s \<Longrightarrow> handlers_ok (listen s)"
  by (auto simp: handlers_ok_def listen_def intro: create_watched)

lemma accept_handlers:
  assumes "AcceptHandler p s = (r, s')" and "p \<notin> set (clients s)" and "idle_ok s" and "handlers_ok s"
  shows "handlers_ok s'"
proof -
  obtain fd s1 where s1: "syscall s = (fd, s1)" by force
  have w1: "watch s1 = watch s" by (rule watch_syscall [OF s1])
  show ?thesis
  proof (cases "fd = -1")
    case True
    then show ?thesis using assms(1,4) s1 handlers_watch [OF w1] by (simp add: AcceptHandler_def)
  next
    case False
    obtain now s2 where s2: "syscall s1 = (now, s2)" by force
    have w2: "watch s2 = watch s" using watch_syscall [OF s2] w1 by simp
    have none: "client_at s p = None" using assms(2,3) by (auto simp: idle_ok_def clients_ok_def)
    obtain c where c: "c_fd c = fd" "s' = s2\<lparr>el := snd (AeCreateFileEvent (el s2) fd AE_READABLE ReadProc p),
        clients := clients s2 @ [p], client_at := (client_at s2)(p \<mapsto> c)\<rparr>"
    proof
      let ?c = "\<lparr>c_id = p, c_fd = fd, query_buf = [], reply = [], sent_len = 0, last_interaction = now,
               argv = [], bulk_len = -1, c_db = 0\<rparr>"
      show "c_fd (snd (SelectDB ?c 0 s2)) = fd" by (simp add: SelectDB_def)
      show "s' = s2\<lparr>el := snd (AeCreateFileEvent (el s2) fd AE_READABLE ReadProc p), clients := clients s2 @ [p],
          client_at := (client_at s2)(p \<mapsto> snd (SelectDB ?c 0 s2))\<rparr>"
        using assms(1) s1 s2 False by (simp add: AcceptHandler_def CreateClient_def Let_def)
    qed
    have L: "fds_of ((client_at s)(p \<mapsto> c)) = (fds_of (client_at s))(p \<mapsto> fd)" using c(1) by (auto simp: fds_of_def)
    have "fds_of (client_at s) p = None" using none by (simp add: fds_of_def)
    then have "all_watched ((fds_of (client_at s))(p \<mapsto> fd)) (el s)"
      using assms(4) by (auto simp: handlers_ok_def all_watched_def)
    then show ?thesis using w2 L create_watched [where proc = ReadProc]
      by (simp add: handlers_ok_def c(2) watch_def)
  qed
qed

lemma close_handlers:
  assumes "close_if_idle now p s = Some s'" and "idle_ok s" and "handlers_ok s"
  shows "handlers_ok s'"
proof -
  obtain c where c: "client_at s p = Some c" and run: "s' = s \<or> FreeClient c (s\<lparr>client_at := (client_at s)(p := None)\<rparr>) = Some s'"
    using assms(1) by (auto simp: close_if_idle_def split: bind_splits if_splits)
  from run show ?thesis
  proof
    assume "FreeClient c (s\<lparr>client_at := (client_at s)(p := None)\<rparr>) = Some s'"
    note F = client_events.FreeClient_gone [OF this out_here [OF assms(2) c assms(3)], unfolded fst_conv]
    show ?thesis using gone_handlers [OF F] by simp
  qed (use assms(3) in simp)
qed

lemma timeout_handlers:
  assumes "CloseTimeoutClients s = Some s'" and "idle_ok s" and "handlers_ok s"
  shows "handlers_ok s'"
proof -
  have closed: "foldM (close_if_idle now) ps s1 = Some s2 \<Longrightarrow> idle_ok s1 \<Longrightarrow> handlers_ok s1 \<Longrightarrow> handlers_ok s2" for now ps s1 s2
    by (induction ps arbitrary: s1)
      (auto split: bind_splits option.splits dest: close_if_idle_ok close_handlers)
  obtain now s1 where sys: "syscall s = (now, s1)" by force
  show ?thesis
    using closed [of now "clients s1" s1 s'] assms idle_syscall [OF sys] handlers_watch [OF watch_syscall [OF sys]]
    by (simp add: CloseTimeoutClients_def sys)
qed

lemma watch_check_save: "watch (check_save s) = watch s"
proof -
  obtain now s1 where sys: "syscall s = (now, s1)" by force
  obtain r s2 where bg: "SaveDBBackground CUTIS_DB_NAME s1 = (r, s2)" by force
  show ?thesis using watch_syscall [OF sys] watch_SaveDBBackground [OF bg] by (simp add: check_save_def sys bg)
qed

lemma watch_check_background: "check_background s = Some s' \<Longrightarrow> watch s' = watch s"
  by (auto simp: check_background_def Let_def split: prod.splits if_splits dest!: watches)

lemma cron_handlers:
  assumes "ServerCron s = Some (r, s')" and "idle_ok s" and "handlers_ok s"
  shows "handlers_ok s'"
proof -
  let ?s0 = "s\<lparr>cron_loops := cron_loops s + 1\<rparr>"
  from assms(1) obtain ds s1 where c: "mapM resize_db (dict ?s0) = Some ds"
    "(if cron_loops s smod 10 = 0 then CloseTimeoutClients (?s0\<lparr>dict := ds\<rparr>) else Some (?s0\<lparr>dict := ds\<rparr>)) = Some s1"
    "(if bg_saving s1 then check_background s1 else Some (check_save s1)) = Some s'"
    by (auto simp: ServerCron_def Let_def split: bind_splits)
  have "idle_ok (?s0\<lparr>dict := ds\<rparr>)" by (rule resize_all_ok [OF _ c(1)]) (simp add: assms(2))
  moreover have "handlers_ok (?s0\<lparr>dict := ds\<rparr>)" using assms(3) handlers_watch [of "?s0\<lparr>dict := ds\<rparr>" s] by simp
  moreover from c(2) consider "CloseTimeoutClients (?s0\<lparr>dict := ds\<rparr>) = Some s1" | "s1 = ?s0\<lparr>dict := ds\<rparr>"
    by (metis option.inject)
  ultimately have "handlers_ok s1" by (metis timeout_handlers)
  moreover have "watch s' = watch s1" using c(3) watch_check_save watch_check_background by (metis option.inject)
  ultimately show ?thesis using handlers_watch by blast
qed

lemma run_handler_handlers:
  assumes "run_handler alloc proc p s = Some (r, s')" and "idle_ok s" and "handlers_ok s"
  shows "handlers_ok s'"
proof (cases proc)
  case AcceptProc
  then show ?thesis using assms by (auto simp: run_handler_def Let_def split: if_splits intro: accept_handlers)
next
  case ReadProc
  then show ?thesis using assms with_client_handlers [OF _ assms(2,3) client_events.ReadQueryFromClient_stays]
    by (auto simp: run_handler_def)
next
  case SendProc
  then show ?thesis using assms with_client_handlers [OF _ assms(2,3) client_events.SendReplyToClient_stays]
    by (auto simp: run_handler_def)
qed

lemma handlers_upd [simp]:
  "handlers_ok (s\<lparr>el := (el s)\<lparr>time_events := tes\<rparr>\<rparr>) = handlers_ok s"
  by (simp add: handlers_ok_def all_watched_def)

interpretation handled_loop: kept_world "server_world alloc sel" "\<lambda>e s. idle_ok s \<and> handlers_ok (s\<lparr>el := e\<rparr>)" for alloc sel
proof
  fix e s t s'
  assume ok: "idle_ok s \<and> handlers_ok (s\<lparr>el := e\<rparr>)"
  have sys: "idle_ok (snd (syscall s1)) = idle_ok s1"
    "handlers_ok ((snd (syscall s1))\<lparr>el := e\<rparr>) = handlers_ok (s1\<lparr>el := e\<rparr>)" for s1
    using watch_syscall_snd [of s1] by (simp_all add: handlers_ok_def watch_def)
  show "idle_ok s' \<and> handlers_ok (s'\<lparr>el := e\<rparr>)" if "gettimeofday (server_world alloc sel) s = (t, s')"
    using that ok sys [of s] sys [of "snd (syscall s)"] by (auto simp: server_world_def split_beta)
  show "idle_ok s' \<and> handlers_ok (s'\<lparr>el := e\<rparr>)" if "select (server_world alloc sel) n sets tv s = (r, s')" for n sets tv r
    using that ok sys [of s] by (auto simp: server_world_def)
  show "idle_ok s' \<and> handlers_ok (s'\<lparr>el := e'\<rparr>)"
    if "run_file (server_world alloc sel) (file_proc fe) (fe_fd fe) (fe_data fe) m e s = Some (e', s')" for fe m e'
    using that ok run_handler_idle run_handler_handlers by (fastforce simp: server_world_def split: bind_splits)
  show "idle_ok s' \<and> handlers_ok (s'\<lparr>el := e'\<rparr>)"
    if "run_time (server_world alloc sel) (time_proc te) (te_id te) (te_data te) e s = Some (r', e', s')" for te r' e'
    using that ok run_timer_idle cron_handlers
    by (fastforce simp: server_world_def run_timer_def split: bind_splits timer.splits)
  show "idle_ok s \<and> handlers_ok (s\<lparr>el := e\<lparr>time_events := tes\<rparr>\<rparr>)" for tes
    using ok by (simp add: handlers_ok_def all_watched_def)
  show "idle_ok s \<and> handlers_ok (s\<lparr>el := e\<lparr>ae_stop := b\<rparr>\<rparr>)" for b
    using ok by (simp add: handlers_ok_def all_watched_def)
qed

text \<open>After any number of turns, every handler of a client still finds the client, with its descriptor.\<close>

theorem StartServer_handlers:
  assumes "StartServer n alloc sel s = Some (Returns (r, s'))" and "idle_ok s" and "handlers_ok s"
  shows "handlers_ok s'"
proof -
  obtain e s1 where run: "AeMain n (server_world alloc sel) (el (listen s)) (listen s) = Some (Returns (e, s1))"
    and s': "s' = s1\<lparr>el := e\<rparr>"
    using assms(1) by (auto simp: StartServer_def Let_def and_then_Returns)
  have "idle_ok (listen s) \<and> handlers_ok ((listen s)\<lparr>el := el (listen s)\<rparr>)"
    using assms(2) listen_handlers [OF assms(3)] by (simp add: listen_def)
  with handled_loop.main_kept [OF run] show ?thesis by (simp add: s')
qed

text \<open>So no callback is called with a client that is gone.\<close>

lemma handler_finds_client:
  assumes "handlers_ok s" and "fe \<in> set (file_events (el s))" and "file_proc fe \<noteq> AcceptProc"
  shows "\<exists>c. client_at s (fe_data fe) = Some c \<and> c_fd c = fe_fd fe"
  using assms by (auto simp: handlers_ok_def all_watched_def fds_of_def)

end
