(* ===== verification/Program.thy ===== *)
theory Program
  imports Load_Spec Handlers
begin

declare One_nat_def [simp del] load_loop.simps [simp del]

text \<open>
  The whole program (\<open>cutis.c\<close>): configuration, start, loading whatever the file holds, the event loop,
  cleaning up.
\<close>

section \<open>Loading any file\<close>

text \<open>When loading gets through, the server is in order, whatever the bytes were.\<close>

definition container :: "heap \<Rightarrow> addr \<Rightarrow> bool" where
  "container h a \<longleftrightarrow> (\<exists>o'. objs h a = Some o' \<and> (\<forall>v. optr o' \<noteq> OString v))"

lemma container_nonnull: "container h a \<Longrightarrow> obj_value h a \<noteq> VNull"
proof -
  assume "container h a"
  then obtain o' where "objs h a = Some o'" "\<And>v. optr o' \<noteq> OString v" by (auto simp: container_def)
  then show ?thesis by (cases "optr o'") (auto simp: obj_value_def)
qed

lemma load_elems_keeps:
  assumes "serving {#a#} c s" and "container (heap s) a" and "a \<notin># all_refs {#} c s"
    and "load_elems n a r (heap s) = Some (Returns (r', h))"
  shows "serving {#a#} c (s\<lparr>heap := h\<rparr>) \<and> container h a \<and>
    (\<forall>b \<in># all_refs {#} c s. obj_value h b = obj_value (heap s) b)"
  using assms
proof (induction n arbitrary: s r)
  case 0
  then have "h = heap s" by simp
  then show ?case using 0 by simp
next
  case (Suc n)
  from Suc.prems(2) obtain o' where o': "objs (heap s) a = Some o'" "\<And>v. optr o' \<noteq> OString v" by (auto simp: container_def)
  from Suc.prems(4) obtain v r1 where v: "read_value r = Some (Returns (v, r1))" by (auto simp: and_then_Returns)
  obtain x h1 where new: "CreateCutisObject (OString (Some v)) (heap s) = (x, h1)" by force
  note E = element_created [OF Suc.prems(1) o'(1) new]
  let ?s1 = "s\<lparr>heap := h1\<rparr>"
  note run = Suc.prems(4) [simplified, unfolded v and_then_simps prod.case new E(2) option.case Let_def]
  have wf1: "wf_ptr (objs h1) (optr o')" using live_wf [OF servingD(1) [OF E(1)], of a o'] E(2) by simp
  obtain p where p: "set_ptr a p h1 \<noteq> None" "wf_ptr (objs h1) p" "\<And>v. p \<noteq> OString v" "{#x#} + refs_of (optr o') = refs_of p"
    "\<And>h2. set_ptr a p h1 = Some h2 \<Longrightarrow> load_elems n a r1 h2 = Some (Returns (r', h))"
  proof (cases "optr o'")
    case (OString t)
    then show ?thesis using o'(2) by blast
  next
    case (OList l)
    have "wf_ptr (objs h1) (OList (l @ [x]))" using wf1 E(4) OList by simp
    then show ?thesis using that [of "OList (l @ [x])"] run OList by (auto split: option.splits)
  next
    case (OSet d)
    have t: "table_ok h1 d" "\<forall>y \<in> fst ` set (entries d). is_string (objs h1) y" using wf1 OSet by (auto simp: set_ok_iff)
    from run OSet obtain ret d' where add: "DictAdd (set_type h1) x () d = Some (ret, d')" "ret \<noteq> DICT_ERR"
      "set_ptr a (OSet d') h1 \<noteq> None" "\<And>h2. set_ptr a (OSet d') h1 = Some h2 \<Longrightarrow> load_elems n a r1 h2 = Some (Returns (r', h))"
      by (auto split: option.splits if_splits)
    then have "unat (d_used d) \<noteq> 2 ^ 27" using full_table [OF t(1), of "set_type h1" x "()"] by auto
    then have "unat (d_used d) < 2 ^ 27" using dict_ok_tableD(4) [OF t(1)] by simp
    from members.DictAdd_ok [OF t(1) this, of x "()"] add(1,2) have
      d': "table_ok h1 d'" "mset (entries d') = add_mset (x, ()) (mset (entries d))"
      by (auto simp: DictSetHashKey_def DictSetHashVal_def SetDictType_def split: if_splits)
    have keys: "mset (map fst (entries d')) = add_mset x (mset (map fst (entries d)))"
      using arg_cong [OF d'(2), of "image_mset fst"] by simp
    then have kset: "fst ` set (entries d') = insert x (fst ` set (entries d))"
      by (metis list.set_map set_mset_add_mset_insert set_mset_mset)
    have "wf_ptr (objs h1) (OSet d')" using d'(1) kset t(2) E(4) by (simp add: set_ok_iff)
    then show ?thesis using that [of "OSet d'"] add(3,4) keys OSet by auto
  qed
  have "serving ({#x#} + {#a#}) c ?s1" "objs (heap ?s1) a = Some o'" "wf_ptr (objs (heap ?s1)) p" "a \<notin># all_refs {#} c ?s1"
    using E(1,2) p(2) Suc.prems(3) by simp_all
  from element_stored [OF this(1,2) o'(2) this(3) p(3,4) this(4)] obtain h2 where
    h2: "set_ptr a p h1 = Some h2" "serving {#a#} c (s\<lparr>heap := h2\<rparr>)" "objs h2 a = Some (o'\<lparr>optr := p\<rparr>)"
    "\<forall>b \<in># all_refs {#} c s. obj_value h2 b = obj_value h1 b" by auto
  have "container h2 a" using h2(3) p(3) by (simp add: container_def)
  with Suc.IH [of "s\<lparr>heap := h2\<rparr>" r1] h2(2) Suc.prems(3) p(5) [OF h2(1)] have
    "serving {#a#} c (s\<lparr>heap := h\<rparr>)" "container h a" "\<forall>b \<in># all_refs {#} c s. obj_value h b = obj_value h2 b" by simp_all
  then show ?case using h2(4) E(6) by simp
qed

lemma load_object_keeps:
  assumes "serving {#} c s" and "load_object ty r (heap s) = Some (Returns (a, r', h))"
  shows "serving {#a#} c (s\<lparr>heap := h\<rparr>) \<and> obj_value h a \<noteq> VNull \<and> a \<notin># all_refs {#} c s \<and>
    (\<forall>b \<in># all_refs {#} c s. obj_value h b = obj_value (heap s) b)"
proof (cases "int ty = CUTIS_STRING")
  case True
  with assms(2) obtain v where new: "CreateCutisObject (OString (Some v)) (heap s) = (a, h)"
    by (auto simp: load_object_def and_then_Returns case_prod_unfold Let_def)
  then have "create (OString (Some v)) s = (a, s\<lparr>heap := h\<rparr>)" by (simp add: create_def)
  from create_ok [OF assms(1) this] show ?thesis by auto
next
  case False
  define p :: optr where "p = (if int ty = CUTIS_LIST then OList [] else OSet DictCreate)"
  obtain a1 h1 where new: "CreateCutisObject p (heap s) = (a1, h1)" by force
  have "(if int ty = CUTIS_LIST then CreateListObject (heap s) else CreateSetObject (heap s)) = (a1, h1)"
    using new by (auto simp: p_def CreateListObject_def CreateSetObject_def split: if_splits)
  with False assms(2) obtain n r1 where l: "load_elems n a r1 h1 = Some (Returns (r', h))" "a1 = a"
    by (auto simp: load_object_def and_then_Returns split: if_splits)
  have "create p s = (a, s\<lparr>heap := h1\<rparr>)" using new l(2) by (simp add: create_def)
  moreover have "refs_of p = {#}" "wf_ptr (objs (heap s)) p" by (simp_all add: p_def set_ok_iff DictCreate_def)
  ultimately have c: "serving {#a#} c (s\<lparr>heap := h1\<rparr>)" "a \<notin># all_refs {#} c s"
    "\<forall>b \<in># all_refs {#} c s. obj_value h1 b = obj_value (heap s) b" "objs h1 a = Some \<lparr>optr = p, refcount = 1\<rparr>"
    using create_ok [OF assms(1), of p a "s\<lparr>heap := h1\<rparr>"] by auto
  have "container (heap (s\<lparr>heap := h1\<rparr>)) a" using c(4) by (simp add: container_def p_def)
  with load_elems_keeps [of a c "s\<lparr>heap := h1\<rparr>" n r1 r' h] c l(1) have
    "serving {#a#} c (s\<lparr>heap := h\<rparr>)" "container h a" "\<forall>b \<in># all_refs {#} c s. obj_value h b = obj_value h1 b" by simp_all
  then show ?thesis using c(2,3) container_nonnull by simp
qed

definition in_order :: "CutisClient \<Rightarrow> CutisServer \<Rightarrow> bool" where
  "in_order c s \<longleftrightarrow> loading c s (keyspace s)"

lemma db_add_fails:
  assumes "serving X c s" and "i < length (dict s)" and "db_add k a i s = Some (ret, s')" and "ret \<noteq> DICT_ERR"
  shows "room i s" and "addr_map s i k = None"
proof -
  show r: "room i s" using full_add [OF assms(1,2), of k a] assms(3) by auto
  show "addr_map s i k = None" by (rule ccontr) (use db_add_refused [OF assms(1) r, of k a] assms(3,4) in auto)
qed

lemma record_keeps:
  assumes "in_order c s" and "load_object ty r (heap s) = Some (Returns (a, r', h))" and "i < length (dict s)"
    and "db_add k a i (s\<lparr>heap := h\<rparr>) = Some (ret, s')" and "ret \<noteq> DICT_ERR"
  shows "in_order c s' \<and> same_clients s' s"
proof -
  have L: "serving {#} c s" "db_inj s" using assms(1) by (simp_all add: in_order_def loading_def)
  from load_object_keeps [OF L(1) assms(2)] have
    o: "serving {#a#} c (s\<lparr>heap := h\<rparr>)" "obj_value h a \<noteq> VNull" "a \<notin># all_refs {#} c s" by simp_all
  have i: "i < length (dict (s\<lparr>heap := h\<rparr>))" using assms(3) by simp
  note f = db_add_fails [OF o(1) i assms(4,5)]
  from db_add_ok [OF _ f(1) _ f(2), of a "{#}" c] o(1,2) assms(4) obtain d where
    d: "s' = put_db i d (s\<lparr>heap := h\<rparr>)" "serving {#} c s'" "addr_map s' = (addr_map s)(i := (addr_map s i)(k \<mapsto> a))"
    by auto
  have "db_inj s'"
  proof (rule db_inj_put [OF L(2) d(3)])
    fix j k'
    assume "addr_map s j k' = Some a"
    with addr_map_all_refs [OF servingD(3) [OF L(1)] this, of "{#}" c] o(3) show "(j, k') = (i, k)" by simp
  qed
  then show ?thesis using d(1,2) by (simp add: in_order_def loading_def same_clients_def put_db_def)
qed

lemma load_loop_keeps:
  "load_loop n i r s = Some (Returns s') \<Longrightarrow> in_order c s \<Longrightarrow> in_order c s' \<and> same_clients s' s"
proof (induction n arbitrary: i r s)
  case 0
  then show ?case by (simp add: load_loop.simps)
next
  case (Suc n)
  from Suc.prems(1) obtain t r0 where r: "r = t # r0" by (cases r) (auto simp: load_loop.simps)
  let ?t = "of_char t :: nat"
  consider (eof) "?t = CUTIS_EOF" | (db) "?t \<noteq> CUTIS_EOF" "?t = CUTIS_SELECT_DB"
    | (rec) "?t \<noteq> CUTIS_EOF" "?t \<noteq> CUTIS_SELECT_DB" by blast
  then show ?case
  proof cases
    case eof
    then show ?thesis using Suc.prems r by (simp add: load_loop.simps same_clients_def)
  next
    case db
    with Suc.prems(1) r obtain j r1 where "load_loop n j r1 s = Some (Returns s')"
      by (auto simp: load_loop.simps and_then_Returns split: if_splits)
    from Suc.IH [OF this Suc.prems(2)] show ?thesis .
  next
    case rec
    with Suc.prems(1) r obtain key r2 a r3 h where
      o: "load_object ?t r2 (heap s) = Some (Returns (a, r3, h))" and
      body: "(case nth_opt (dict s) i of None \<Rightarrow> None
        | Some d \<Rightarrow> (case DictAdd sdsDictType key a d of None \<Rightarrow> None
            | Some (ret, d) \<Rightarrow> if ret = DICT_ERR then Some Exit else load_loop n i r3 (put_db i d (s\<lparr>heap := h\<rparr>)))) =
        Some (Returns s')"
      by (auto simp: load_loop.simps and_then_Returns Let_def)
    from body obtain d where d: "nth_opt (dict s) i = Some d" by (cases "nth_opt (dict s) i") simp_all
    with body obtain ret d1 where "DictAdd sdsDictType key a d = Some (ret, d1)" by (cases "DictAdd sdsDictType key a d") auto
    with o d body have l: "load_object ?t r2 (heap s) = Some (Returns (a, r3, h))" "nth_opt (dict s) i = Some d"
        "DictAdd sdsDictType key a d = Some (ret, d1)" "ret \<noteq> DICT_ERR"
        "load_loop n i r3 (put_db i d1 (s\<lparr>heap := h\<rparr>)) = Some (Returns s')"
      by (auto split: if_splits)
    have i: "i < length (dict s)" using l(2) by (simp add: nth_opt_def split: if_splits)
    have "db_add key a i (s\<lparr>heap := h\<rparr>) = Some (ret, put_db i d1 (s\<lparr>heap := h\<rparr>))"
      using l(2,3) by (simp add: db_add_def)
    from record_keeps [OF Suc.prems(2) l(1) i this l(4)] have
      "in_order c (put_db i d1 (s\<lparr>heap := h\<rparr>))" "same_clients (put_db i d1 (s\<lparr>heap := h\<rparr>)) s" by simp_all
    with Suc.IH [OF l(5) this(1)] show ?thesis using same_clients_trans by blast
  qed
qed

lemma idle_in_order:
  "idle_ok s \<longleftrightarrow> in_order (\<lparr>c_id = 0, c_fd = 0, query_buf = [], reply = [], sent_len = 0, last_interaction = 0,
      argv = [], bulk_len = -1, c_db = 0\<rparr>) s \<and> clients_ok {} s"
  by (auto simp: idle_ok_def in_order_def loading_def serving_def all_refs_def dbs_ok_def)

theorem LoadDB_keeps:
  assumes "idle_ok s" and "LoadDB filename s = Some (Returns (r, s'))"
  shows "idle_ok s' \<and> same_clients s' s"
proof -
  have "s' = s \<or> (\<exists>n r. load_loop n 0 r s = Some (Returns s'))"
    using assms(2) by (auto simp: LoadDB_def and_then_Returns split: option.splits if_splits)
  then show ?thesis
  proof
    assume "\<exists>n r. load_loop n 0 r s = Some (Returns s')"
    then obtain n r where l: "load_loop n 0 r s = Some (Returns s')" by blast
    note i = assms(1) [unfolded idle_in_order]
    note k = load_loop_keeps [OF l i [THEN conjunct1]]
    have "clients_ok {} s'" using i(1) k by (simp add: clients_ok_def same_clients_def)
    then show ?thesis using k by (simp add: idle_in_order)
  qed (use assms(1) in \<open>simp add: same_clients_def\<close>)
qed

section \<open>The main function\<close>

text \<open>
  \<open>args\<close> are the arguments of the program, its name first. A missing or faulty configuration file, too
  many arguments, a port that cannot be bound, a broken data file end the program before the event
  loop; otherwise this is the server that enters the loop.
\<close>

definition configure :: "string list \<Rightarrow> CutisServer \<Rightarrow> CutisServer outcome" where
  "configure args s =
     (let s = InitServerConfig s in
      if length args = 2 then
        (case LoadServerConfig (args ! 1) (ResetServerSaveParams s) of
           (r, Some s) \<Rightarrow> if r = CUTIS_ERR then Exit else Returns s
         | (_, None) \<Rightarrow> Exit)
      else if length args > 2 then Exit
      else Returns s)"

definition boot :: "string list \<Rightarrow> CutisServer \<Rightarrow> CutisServer outcome option" where
  "boot args s =
     and_then (Some (configure args s)) (\<lambda>s.
     and_then (Some (InitServer s)) (\<lambda>s.
     and_then (LoadDB CUTIS_DB_NAME s) (\<lambda>(r, s).
       Some (Returns s))))"

lemma syscall_db_num: "syscall s = (x, s') \<Longrightarrow> db_num s' = db_num s"
  by (auto simp: syscall_def split: prod.splits)

lemma directive_db_num: "config_directive av s = Some s' \<Longrightarrow> 0 < db_num s \<Longrightarrow> 0 < db_num s'"
  unfolding config_directive_def Let_def
  by (auto simp: AppendServerSaveParams_def split: if_splits prod.splits dest!: syscall_db_num)

lemma config_db_num_pos: "config_loop r s = Some s' \<Longrightarrow> 0 < db_num s \<Longrightarrow> 0 < db_num s'"
proof (induction r s rule: config_loop.induct)
  case (1 r s)
  show ?case
  proof (cases "r = []")
    case True
    then show ?thesis using "1.prems" by (simp add: config_loop.simps)
  next
    case False
    let ?line = "strip (strchr_in blanks) (cstr (fst (fgets r)))"
    show ?thesis
    proof (cases "?line = [] \<or> hd ?line = CHR ''#''")
      case True
      then show ?thesis using "1.IH"(1) [OF False refl refl True] "1.prems" False
        by (subst (asm) config_loop.simps) (simp add: Let_def)
    next
      case ok: False
      then obtain s1 where s1: "config_directive (Sds.fields (CHR '' '') ?line) s = Some s1"
        "config_loop (snd (fgets r)) s1 = Some s'"
        using "1.prems"(1) False by (subst (asm) config_loop.simps) (auto simp: Let_def split: option.splits)
      from "1.IH"(2) [OF False refl refl ok s1] directive_db_num [OF s1(1) "1.prems"(2)] show ?thesis .
    qed
  qed
qed

lemma configure_db_num: "configure args s = Returns s' \<Longrightarrow> 0 < db_num s'"
  using config_db_num_pos config_db_num [of s]
  by (auto simp: configure_def Let_def LoadServerConfig_def ResetServerSaveParams_def
      split: if_splits option.splits prod.splits)

text \<open>At the start there is a timer and no file event.\<close>

lemma InitServer_handlers:
  assumes "InitServer s = Returns s'"
  shows "handlers_ok s'"
proof -
  have "file_events (el s') = []" using assms
    by (auto simp: InitServer_def Let_def syscall_def AeCreateEventLoop_def AeCreateTimeEvent_def split: prod.splits if_splits)
  then show ?thesis by (simp add: handlers_ok_def all_watched_def)
qed

theorem boot_ok:
  assumes "boot args s = Some (Returns s')"
  shows "idle_ok s' \<and> handlers_ok s'"
proof -
  from assms obtain s1 s2 r where b: "configure args s = Returns s1" "InitServer s1 = Returns s2"
    "LoadDB CUTIS_DB_NAME s2 = Some (Returns (r, s'))"
    by (auto simp: boot_def and_then_Returns)
  from LoadDB_keeps [OF InitServer_idle [OF b(2) configure_db_num [OF b(1)]] b(3)]
  show ?thesis using InitServer_handlers [OF b(2)] by (simp add: same_clients_def handlers_ok_def)
qed

section \<open>From start to end\<close>

definition main ::
  "nat \<Rightarrow> (CutisServer \<Rightarrow> addr) \<Rightarrow> select_oracle \<Rightarrow> string list \<Rightarrow> CutisServer \<Rightarrow> CutisServer outcome option"
where
  "main n alloc sel args s =
     and_then (boot args s) (\<lambda>s.
     and_then (StartServer n alloc sel s) (\<lambda>(r, s).
       map_option Returns (CleanServer s)))"

definition cleaned :: "CutisServer \<Rightarrow> bool" where
  "cleaned s \<longleftrightarrow> objs (heap s) = Map.empty \<and> free_objs (heap s) = [] \<and> clients s = [] \<and> dict s = [] \<and>
     save_params s = [] \<and> file_events (el s) = [] \<and> time_events (el s) = []"

text \<open>
  Whatever the arguments, the files, the clients and the clock do: when the loop has come to an end, the
  server is in order, cleaning up succeeds and nothing is left.
\<close>

theorem main_cleans:
  assumes "boot args s = Some (Returns s0)" and "StartServer n alloc sel s0 = Some (Returns (r, s1))"
  shows "idle_ok s1 \<and> handlers_ok s1 \<and>
    (\<exists>s2. main n alloc sel args s = Some (Returns s2) \<and> CleanServer s1 = Some s2 \<and> cleaned s2)"
proof -
  note b = boot_ok [OF assms(1)]
  have "idle_ok s1" "handlers_ok s1"
    using StartServer_idle [OF assms(2)] StartServer_handlers [OF assms(2)] b by simp_all
  with CleanServer_ok [OF this(1)] assms show ?thesis unfolding main_def cleaned_def by fastforce
qed

end
