(* ===== verification/Anet.thy ===== *)
theory Anet
  imports Libc
begin

text \<open>
  The wrappers of the socket calls (\<open>net/anet.c\<close>). The operating system is an oracle that answers each
  call, and the model keeps the calls made with their arguments, the descriptors that are open, the
  last error number and the caller's buffer for error messages. \<open>anetRead\<close> and \<open>anetWrite\<close> are loops
  over an oracle for \<open>read\<close> and \<open>write\<close>.
\<close>

section \<open>The operating system\<close>

definition ANET_OK :: int where "ANET_OK = 0"
definition ANET_ERR :: int where "ANET_ERR = -1"
definition ANET_ERR_LEN :: nat where "ANET_ERR_LEN = 256"
definition ANET_CONNECT_NONE :: int where "ANET_CONNECT_NONE = 0"
definition ANET_CONNECT_NONBLOCK :: int where "ANET_CONNECT_NONBLOCK = 1"

text \<open>Their values on Linux.\<close>

definition EAGAIN :: int where "EAGAIN = 11"
definition EINPROGRESS :: int where "EINPROGRESS = 115"
definition O_NONBLOCK :: int where "O_NONBLOCK = 2048"

type_synonym ip4 = "32 word"
type_synonym in_port = "16 word"

text \<open>Addresses and ports are kept in host order; \<open>htons\<close> and \<open>ntohs\<close> are their transport form.\<close>

datatype os_op =
    Socket
  | SetReuseAddr int
  | SetNoDelay int
  | SetKeepAlive int
  | GetFlags int
  | SetFlags int int
  | Connect int ip4 in_port
  | Bind int ip4 in_port
  | Listen int int
  | Accept int
  | Close int

text \<open>
  \<open>os_answer i op\<close> is what call number \<open>i\<close> yields, \<open>os_errno i\<close> the error number it leaves,
  \<open>os_peer i\<close> the other end it reports; \<open>os_aton\<close> and \<open>os_host\<close> are \<open>inet_aton\<close> and
  \<open>gethostbyname\<close>, \<open>os_err\<close> the buffer for messages, nothing for a NULL pointer.
\<close>

record os =
  os_answer :: "nat \<Rightarrow> os_op \<Rightarrow> int"
  os_errno :: "nat \<Rightarrow> int"
  os_peer :: "nat \<Rightarrow> ip4 \<times> in_port"
  os_aton :: "string \<Rightarrow> ip4 option"
  os_host :: "string \<Rightarrow> ip4 option"
  os_strerror :: "int \<Rightarrow> string"
  os_ops :: "os_op list"
  os_open :: "int list"
  os_last :: int
  os_err :: "string option"

fun descriptors :: "os_op \<Rightarrow> int \<Rightarrow> int list \<Rightarrow> int list" where
  "descriptors Socket r fds = (if r = -1 then fds else r # fds)"
| "descriptors (Accept s) r fds = (if r = -1 then fds else r # fds)"
| "descriptors (Close s) r fds = remove1 s fds"
| "descriptors _ r fds = fds"

definition os_call :: "os_op \<Rightarrow> os \<Rightarrow> int \<times> os" where
  "os_call op n =
     (let i = length (os_ops n); r = os_answer n i op in
      (r, n\<lparr>os_ops := os_ops n @ [op], os_open := descriptors op r (os_open n),
           os_last := (if r = -1 then os_errno n i else os_last n)\<rparr>))"

definition os_close :: "int \<Rightarrow> os \<Rightarrow> os" where
  "os_close s n = snd (os_call (Close s) n)"

definition strerror :: "os \<Rightarrow> string" where
  "strerror n = os_strerror n (os_last n)"

text \<open>The message is cut to the size of the buffer, which holds a terminator as well.\<close>

definition anetSetError :: "string \<Rightarrow> os \<Rightarrow> os" where
  "anetSetError msg n = n\<lparr>os_err := map_option (\<lambda>_. take (ANET_ERR_LEN - 1) msg) (os_err n)\<rparr>"

text \<open>\<open>inet_ntoa\<close>\<close>

definition inet_ntoa :: "ip4 \<Rightarrow> string" where
  "inet_ntoa a =
     show_nat (unat (drop_bit 24 a)) @ ''.'' @ show_nat (unat (drop_bit 16 a AND 255)) @ ''.'' @
     show_nat (unat (drop_bit 8 a AND 255)) @ ''.'' @ show_nat (unat (a AND 255))"

section \<open>Options\<close>

definition anetNonBlock :: "int \<Rightarrow> os \<Rightarrow> int \<times> os" where
  "anetNonBlock fd n =
     (let (flags, n) = os_call (GetFlags fd) n in
      if flags = -1 then (ANET_ERR, anetSetError (''fcntl(F_GETFL): '' @ strerror n @ [LF]) n)
      else
        (let (r, n) = os_call (SetFlags fd (flags OR O_NONBLOCK)) n in
         if r = -1 then (ANET_ERR, anetSetError (''fcntl(F_SETFL, O_NONBLOCK): '' @ strerror n @ [LF]) n)
         else (ANET_OK, n)))"

definition anetTcpNoDelay :: "int \<Rightarrow> os \<Rightarrow> int \<times> os" where
  "anetTcpNoDelay fd n =
     (let (r, n) = os_call (SetNoDelay fd) n in
      if r = -1 then (ANET_ERR, anetSetError (''setsockopt TCO_NODELAY: '' @ strerror n @ [LF]) n)
      else (ANET_OK, n))"

definition anetTcpKeepAlive :: "int \<Rightarrow> os \<Rightarrow> int \<times> os" where
  "anetTcpKeepAlive fd n =
     (let (r, n) = os_call (SetKeepAlive fd) n in
      if r = -1 then (ANET_ERR, anetSetError (''setsockopt SO_KEEPALIVE: '' @ strerror n @ [LF]) n)
      else (ANET_OK, n))"

section \<open>Resolving and connecting\<close>

definition lookup_host :: "string \<Rightarrow> os \<Rightarrow> ip4 option" where
  "lookup_host name n = (case os_aton n name of Some a \<Rightarrow> Some a | None \<Rightarrow> os_host n name)"

text \<open>The text is what is copied to \<open>ip_buf\<close>.\<close>

definition anetResolve :: "string \<Rightarrow> os \<Rightarrow> int \<times> string option \<times> os" where
  "anetResolve host n =
     (case lookup_host host n of
        None \<Rightarrow> (ANET_ERR, None, anetSetError (''can't resolve: '' @ host @ [LF]) n)
      | Some a \<Rightarrow> (ANET_OK, Some (inet_ntoa a), n))"

definition anetTcpGenericConnect :: "string \<Rightarrow> int \<Rightarrow> int \<Rightarrow> os \<Rightarrow> int \<times> os" where
  "anetTcpGenericConnect addr port flags n =
     (let (s, n) = os_call Socket n in
      if s = -1 then (ANET_ERR, anetSetError (''creating socket: '' @ strerror n @ [LF]) n)
      else
        (let n = snd (os_call (SetReuseAddr s) n) in
         case lookup_host addr n of
           None \<Rightarrow> (ANET_ERR, os_close s (anetSetError (''can't resolve: '' @ addr @ [LF]) n))
         | Some a \<Rightarrow>
             (let (r, n) = (if flags AND ANET_CONNECT_NONBLOCK \<noteq> 0 then anetNonBlock s n else (ANET_OK, n)) in
              if r \<noteq> ANET_OK then (ANET_ERR, n)
              else
                (let (r, n) = os_call (Connect s a (word_of_int port)) n in
                 if r = -1 then
                   (if os_last n = EINPROGRESS \<and> flags AND ANET_CONNECT_NONBLOCK \<noteq> 0 then (s, n)
                    else (ANET_ERR, os_close s (anetSetError (''connect: '' @ strerror n @ [LF]) n)))
                 else (s, n)))))"

definition anetTcpConnect :: "string \<Rightarrow> int \<Rightarrow> os \<Rightarrow> int \<times> os" where
  "anetTcpConnect addr port = anetTcpGenericConnect addr port ANET_CONNECT_NONE"

definition anetTcpNonBlockConnect :: "string \<Rightarrow> int \<Rightarrow> os \<Rightarrow> int \<times> os" where
  "anetTcpNonBlockConnect addr port = anetTcpGenericConnect addr port ANET_CONNECT_NONBLOCK"

section \<open>Serving\<close>

text \<open>Without an address the socket is bound to every one (\<open>INADDR_ANY\<close>).\<close>

definition bind_to :: "string option \<Rightarrow> os \<Rightarrow> ip4 option" where
  "bind_to bind_addr n = (case bind_addr of None \<Rightarrow> Some 0 | Some b \<Rightarrow> os_aton n b)"

definition anetTcpServer :: "int \<Rightarrow> string option \<Rightarrow> os \<Rightarrow> int \<times> os" where
  "anetTcpServer port bind_addr n =
     (let (s, n) = os_call Socket n in
      if s = -1 then (ANET_ERR, anetSetError (''socket: '' @ strerror n @ [LF]) n)
      else
        (let (r, n) = os_call (SetReuseAddr s) n in
         if r = -1 then (ANET_ERR, anetSetError (''setsockopt SO_REUSEADDR: '' @ strerror n @ [LF]) n)
         else
           (case bind_to bind_addr n of
              None \<Rightarrow> (ANET_ERR, os_close s (anetSetError (''Invalid bind address'' @ [LF]) n))
            | Some a \<Rightarrow>
                (let (r, n) = os_call (Bind s a (word_of_int port)) n in
                 if r = -1 then (ANET_ERR, os_close s (anetSetError (''bind: '' @ strerror n @ [LF]) n))
                 else
                   (let (r, n) = os_call (Listen s 32) n in
                    if r = -1 then (ANET_ERR, os_close s (anetSetError (''listen: '' @ strerror n @ [LF]) n))
                    else (s, n))))))"

text \<open>
  As long as \<open>accept\<close> says \<open>EAGAIN\<close> it is called again, for ever if need be. The text and number are
  what is stored through \<open>ip\<close> and \<open>port\<close>.
\<close>

partial_function (option) anetAccept :: "int \<Rightarrow> os \<Rightarrow> (int \<times> (string \<times> nat) option \<times> os) option" where
  "anetAccept sock n =
     (let (ip, port) = os_peer n (length (os_ops n)); (fd, n) = os_call (Accept sock) n in
      if fd = -1 then
        (if os_last n = EAGAIN then anetAccept sock n
         else Some (ANET_ERR, None, anetSetError (''accept: '' @ strerror n @ [LF]) n))
      else Some (fd, Some (inet_ntoa ip, unat port), n))"

section \<open>Reading and writing\<close>

text \<open>
  \<open>rd i k\<close> is what the \<open>i\<close>th \<open>read\<close> of at most \<open>k\<close> bytes yields, nothing for an error. The result is
  the value of the function and the contents of the buffer.
\<close>

partial_function (option) read_loop ::
  "(nat \<Rightarrow> int \<Rightarrow> string option) \<Rightarrow> int \<Rightarrow> nat \<Rightarrow> string \<Rightarrow> (int \<times> string) option"
where
  "read_loop rd want i got =
     (if int (length got) = want then Some (int (length got), got)
      else (case rd i (want - int (length got)) of
              None \<Rightarrow> Some (-1, got)
            | Some bs \<Rightarrow>
                if bs = [] then Some (int (length got), got)
                else read_loop rd want (Suc i) (got @ bs)))"

definition anetRead :: "(nat \<Rightarrow> int \<Rightarrow> string option) \<Rightarrow> int \<Rightarrow> (int \<times> string) option" where
  "anetRead rd want = read_loop rd want 0 []"

text \<open>
  \<open>wr i bs\<close> is what the \<open>i\<close>th \<open>write\<close> of \<open>bs\<close> yields; the result is the value of the function and the
  bytes that were written.
\<close>

partial_function (option) write_loop ::
  "(nat \<Rightarrow> string \<Rightarrow> int) \<Rightarrow> string \<Rightarrow> int \<Rightarrow> nat \<Rightarrow> string \<Rightarrow> (int \<times> string) option"
where
  "write_loop wr buf want i sent =
     (if int (length sent) = want then Some (int (length sent), sent)
      else
        (let rest = take (nat (want - int (length sent))) (drop (length sent) buf);
             k = wr i rest
         in if k = 0 then Some (int (length sent), sent)
            else if k = -1 then Some (-1, sent)
            else write_loop wr buf want (Suc i) (sent @ take (nat k) rest)))"

definition anetWrite :: "(nat \<Rightarrow> string \<Rightarrow> int) \<Rightarrow> string \<Rightarrow> int \<Rightarrow> (int \<times> string) option" where
  "anetWrite wr buf want = write_loop wr buf want 0 []"

section \<open>Descriptors\<close>

lemma call_simps:
  "os_call op n = (r, n') \<Longrightarrow>
     r = os_answer n (length (os_ops n)) op \<and> os_ops n' = os_ops n @ [op] \<and>
     os_open n' = descriptors op r (os_open n) \<and> os_answer n' = os_answer n \<and> os_errno n' = os_errno n \<and>
     os_last n' = (if r = -1 then os_errno n (length (os_ops n)) else os_last n)"
  by (auto simp: os_call_def Let_def)

lemma os_close_simps [simp]:
  "os_open (os_close s n) = remove1 s (os_open n)" "os_ops (os_close s n) = os_ops n @ [Close s]"
  by (simp_all add: os_close_def os_call_def Let_def)

lemma set_error_simps [simp]:
  "os_open (anetSetError m n) = os_open n" "os_ops (anetSetError m n) = os_ops n"
  by (simp_all add: anetSetError_def)

lemma reuse_simps [simp]:
  "os_open (snd (os_call (SetReuseAddr s) n)) = os_open n"
  "os_ops (snd (os_call (SetReuseAddr s) n)) = os_ops n @ [SetReuseAddr s]"
  by (simp_all add: os_call_def Let_def)

lemma nonblock_fds: "anetNonBlock fd n = (r, n') \<Longrightarrow> os_open n' = os_open n"
  by (auto simp: anetNonBlock_def Let_def split: prod.splits if_splits dest!: call_simps)

text \<open>
  A listening socket: when it succeeds, the calls made are those and the socket is the one new open
  descriptor; when it fails, everything opened is closed again, except after a failing \<open>setsockopt\<close>.
\<close>

theorem anetTcpServer_fds:
  assumes "anetTcpServer port b n = (r, n')"
  shows "r \<noteq> ANET_ERR \<and> os_open n' = r # os_open n \<and>
      (\<exists>a. bind_to b n = Some a \<and>
        os_ops n' = os_ops n @ [Socket, SetReuseAddr r, Bind r a (word_of_int port), Listen r 32]) \<or>
    r = ANET_ERR \<and> (os_open n' = os_open n \<or>
      (\<exists>s. os_open n' = s # os_open n \<and> os_ops n' = os_ops n @ [Socket, SetReuseAddr s]))"
  using assms unfolding anetTcpServer_def Let_def
  by (auto simp: ANET_ERR_def bind_to_def os_call_def Let_def split: prod.splits if_splits option.splits)

text \<open>Connecting is the same, except after a failure to make the socket non-blocking.\<close>

theorem anetTcpGenericConnect_fds:
  assumes "anetTcpGenericConnect addr port flags n = (r, n')"
  shows "r \<noteq> ANET_ERR \<and> os_open n' = r # os_open n \<or>
    r = ANET_ERR \<and> (os_open n' = os_open n \<or>
      flags AND ANET_CONNECT_NONBLOCK \<noteq> 0 \<and> (\<exists>s. os_open n' = s # os_open n))"
  using assms unfolding anetTcpGenericConnect_def Let_def
  by (auto simp: ANET_ERR_def split: prod.splits if_splits option.splits dest!: nonblock_fds call_simps)

theorem anetTcpConnect_fds:
  assumes "anetTcpConnect addr port n = (r, n')"
  shows "if r = ANET_ERR then os_open n' = os_open n else os_open n' = r # os_open n"
  using anetTcpGenericConnect_fds [of addr port ANET_CONNECT_NONE n r n'] assms
  by (auto simp: anetTcpConnect_def ANET_CONNECT_NONE_def)

text \<open>That failure leaves the socket open.\<close>

lemma connect_leaks:
  assumes "os_answer n (length (os_ops n)) Socket = s" and "s \<noteq> -1" and "lookup_host addr n = Some a"
    and "os_answer n (length (os_ops n) + 2) (GetFlags s) = -1"
  shows "\<exists>n'. anetTcpNonBlockConnect addr port n = (ANET_ERR, n') \<and> os_open n' = s # os_open n"
proof -
  have 1: "os_call Socket n = (s, snd (os_call Socket n))" using assms(1) by (simp add: os_call_def Let_def)
  let ?n = "snd (os_call (SetReuseAddr s) (snd (os_call Socket n)))"
  have 2: "lookup_host addr ?n = Some a" using assms(3)
    by (simp add: lookup_host_def os_call_def Let_def cong: option.case_cong)
  have "fst (anetNonBlock s ?n) = ANET_ERR" using assms(4) by (simp add: anetNonBlock_def os_call_def Let_def ANET_ERR_def)
  then obtain n' where 3: "anetNonBlock s ?n = (ANET_ERR, n')" by (metis prod.collapse)
  have "os_open n' = s # os_open n" using nonblock_fds [OF 3] assms(1,2) by (simp add: os_call_def Let_def)
  moreover have "anetTcpNonBlockConnect addr port n = (ANET_ERR, n')"
    unfolding anetTcpNonBlockConnect_def anetTcpGenericConnect_def Let_def
    by (subst 1) (simp only: prod.case fst_conv assms(2) if_False 2 option.case 3,
      simp add: 3 ANET_CONNECT_NONBLOCK_def ANET_OK_def ANET_ERR_def)
  ultimately show ?thesis by simp
qed

text \<open>\<open>anetAccept\<close> returns with the first answer that is not \<open>EAGAIN\<close>.\<close>

definition again :: "int \<Rightarrow> os \<Rightarrow> nat \<Rightarrow> bool" where
  "again sock n i \<longleftrightarrow>
     os_answer n (length (os_ops n) + i) (Accept sock) = -1 \<and> os_errno n (length (os_ops n) + i) = EAGAIN"

theorem anetAccept_returns:
  assumes "\<forall>i < k. again sock n i" and "\<not> again sock n k"
  shows "\<exists>r from n'. anetAccept sock n = Some (r, from, n') \<and>
    r = os_answer n (length (os_ops n) + k) (Accept sock) \<and>
    os_ops n' = os_ops n @ replicate (Suc k) (Accept sock) \<and>
    (if r = ANET_ERR then from = None \<and> os_open n' = os_open n
     else os_open n' = r # os_open n \<and>
       from = (let (ip, port) = os_peer n (length (os_ops n) + k) in Some (inet_ntoa ip, unat port)))"
  using assms
proof (induction k arbitrary: n)
  case 0
  then show ?case by (subst (1) anetAccept.simps)
      (auto simp: os_call_def again_def Let_def ANET_ERR_def split: prod.splits)
next
  case (Suc k)
  let ?n = "snd (os_call (Accept sock) n)"
  have n: "length (os_ops ?n) = Suc (length (os_ops n))" "os_ops ?n = os_ops n @ [Accept sock]"
    "os_answer ?n = os_answer n" "os_errno ?n = os_errno n" "os_peer ?n = os_peer n"
    by (simp_all add: os_call_def Let_def)
  have "again sock n 0" using Suc.prems(1) by blast
  then have "anetAccept sock n = anetAccept sock ?n" "os_open ?n = os_open n"
    by (subst anetAccept.simps, simp_all add: os_call_def again_def Let_def split: prod.splits)
  moreover have "again sock ?n i = again sock n (Suc i)" for i by (simp add: again_def n)
  ultimately show ?case using Suc.IH [of ?n] Suc.prems by (auto simp: n cong: if_cong)
qed

section \<open>Bytes\<close>

text \<open>The bytes of the first \<open>k\<close> reads.\<close>

fun received :: "(nat \<Rightarrow> int \<Rightarrow> string option) \<Rightarrow> int \<Rightarrow> nat \<Rightarrow> string" where
  "received rd want 0 = []"
| "received rd want (Suc k) =
     (let got = received rd want k in
      got @ (case rd k (want - int (length got)) of None \<Rightarrow> [] | Some bs \<Rightarrow> bs))"

text \<open>\<open>read\<close> yields no more bytes than it was asked for.\<close>

definition reader_ok :: "(nat \<Rightarrow> int \<Rightarrow> string option) \<Rightarrow> bool" where
  "reader_ok rd \<longleftrightarrow> (\<forall>i k bs. 0 \<le> k \<longrightarrow> rd i k = Some bs \<longrightarrow> int (length bs) \<le> k)"

text \<open>
  Reading ended after \<open>k\<close> reads that each yielded something while something was still wanted: because
  nothing is wanted any more, or because the next one is an error or the end.
\<close>

definition read_ended :: "(nat \<Rightarrow> int \<Rightarrow> string option) \<Rightarrow> int \<Rightarrow> nat \<Rightarrow> int \<times> string \<Rightarrow> bool" where
  "read_ended rd want k res \<longleftrightarrow>
     (let got = received rd want k; rest = want - int (length got) in
      snd res = got \<and> int (length got) \<le> want \<and>
      (\<forall>i < k. let rest = want - int (length (received rd want i)) in
         rest \<noteq> 0 \<and> rd i rest \<noteq> None \<and> rd i rest \<noteq> Some []) \<and>
      (if rest = 0 then fst res = want
       else case rd k rest of None \<Rightarrow> fst res = -1 | Some bs \<Rightarrow> bs = [] \<and> fst res = int (length got)))"

lemma read_loop_ends:
  assumes "reader_ok rd" and "received rd want i = got" and "int (length got) \<le> want"
    and "\<forall>j < i. let rest = want - int (length (received rd want j)) in
      rest \<noteq> 0 \<and> rd j rest \<noteq> None \<and> rd j rest \<noteq> Some []"
  shows "\<exists>k res. read_loop rd want i got = Some res \<and> read_ended rd want k res"
  using assms(2-4)
proof (induction "nat (want - int (length got))" arbitrary: i got rule: less_induct)
  case less
  let ?rest = "want - int (length got)"
  consider (full) "int (length got) = want" | (none) "int (length got) \<noteq> want" "rd i ?rest = None"
    | (eof) "int (length got) \<noteq> want" "rd i ?rest = Some []"
    | (more) b bs where "int (length got) \<noteq> want" "rd i ?rest = Some (b # bs)"
    by (cases "rd i ?rest") (auto simp: neq_Nil_conv, metis list.exhaust)
  then show ?case
  proof cases
    case more
    have "int (length (b # bs)) \<le> ?rest"
      using assms(1) [unfolded reader_ok_def, rule_format, of ?rest i "b # bs"] more(2) less.prems(2) by simp
    moreover have r: "received rd want (Suc i) = got @ b # bs" using less.prems(1) more by simp
    moreover have "nat (want - int (length (got @ b # bs))) < nat ?rest" using more less.prems(2) by simp
    moreover have "\<forall>j < Suc i. let rest = want - int (length (received rd want j)) in
        rest \<noteq> 0 \<and> rd j rest \<noteq> None \<and> rd j rest \<noteq> Some []"
      using less.prems(1,3) more by (auto simp: less_Suc_eq Let_def)
    ultimately obtain k res where "read_loop rd want (Suc i) (got @ b # bs) = Some res" "read_ended rd want k res"
      using less.hyps [of "got @ b # bs" "Suc i"] by auto
    moreover have "read_loop rd want i got = read_loop rd want (Suc i) (got @ b # bs)"
      using more by (simp add: read_loop.simps [of rd want i got])
    ultimately show ?thesis by metis
  next
    case full
    with less.prems show ?thesis
      by (intro exI [of _ i] exI [of _ "(want, got)"]) (simp add: read_loop.simps [of rd want i got] read_ended_def Let_def)
  next
    case none
    with less.prems show ?thesis
      by (intro exI [of _ i] exI [of _ "(-1, got)"]) (simp add: read_loop.simps [of rd want i got] read_ended_def Let_def)
  next
    case eof
    with less.prems show ?thesis
      by (intro exI [of _ i] exI [of _ "(int (length got), got)"]) (simp add: read_loop.simps [of rd want i got] read_ended_def Let_def)
  qed
qed

theorem anetRead_ends:
  assumes "reader_ok rd" and "0 \<le> want"
  shows "\<exists>k res. anetRead rd want = Some res \<and> read_ended rd want k res"
  unfolding anetRead_def by (rule read_loop_ends) (use assms in simp_all)

text \<open>What a write is given when \<open>sent\<close> has been written, and what the first \<open>k\<close> writes have written.\<close>

definition unwritten :: "string \<Rightarrow> int \<Rightarrow> string \<Rightarrow> string" where
  "unwritten buf want sent = take (nat (want - int (length sent))) (drop (length sent) buf)"

fun written :: "(nat \<Rightarrow> string \<Rightarrow> int) \<Rightarrow> string \<Rightarrow> int \<Rightarrow> nat \<Rightarrow> string" where
  "written wr buf want 0 = []"
| "written wr buf want (Suc k) =
     (let sent = written wr buf want k; rest = unwritten buf want sent in sent @ take (nat (wr k rest)) rest)"

text \<open>
  Writing ended after \<open>k\<close> writes that each took something while something was left: because all of it
  is written, or because the next one takes nothing or fails. What is written is a beginning of the buffer.
\<close>

definition write_ended :: "(nat \<Rightarrow> string \<Rightarrow> int) \<Rightarrow> string \<Rightarrow> int \<Rightarrow> nat \<Rightarrow> int \<times> string \<Rightarrow> bool" where
  "write_ended wr buf want k res \<longleftrightarrow>
     (let sent = written wr buf want k; next = wr k (unwritten buf want sent) in
      snd res = sent \<and> sent = take (length sent) buf \<and> int (length sent) \<le> want \<and>
      (\<forall>i < k. let sent = written wr buf want i in
         int (length sent) \<noteq> want \<and> 0 < wr i (unwritten buf want sent)) \<and>
      (if int (length sent) = want then fst res = want
       else next = 0 \<and> fst res = int (length sent) \<or> next = -1 \<and> fst res = -1))"

text \<open>\<open>write\<close> takes no more than it is given and yields nothing below \<open>-1\<close>.\<close>

definition writer_ok :: "(nat \<Rightarrow> string \<Rightarrow> int) \<Rightarrow> bool" where
  "writer_ok wr \<longleftrightarrow> (\<forall>i bs. -1 \<le> wr i bs \<and> wr i bs \<le> int (length bs))"

lemma unwritten_take:
  assumes "take (length sent) buf = sent" and "0 \<le> k" and "k \<le> int (length (unwritten buf want sent))"
    and "int (length sent) \<le> want" and "want \<le> int (length buf)"
  shows "let s = sent @ take (nat k) (unwritten buf want sent) in
    take (length s) buf = s \<and> length s = length sent + nat k \<and> int (length s) \<le> want"
proof -
  have rest: "length (unwritten buf want sent) = nat (want - int (length sent))"
    using assms(4,5) by (simp add: unwritten_def)
  have len: "length (sent @ take (nat k) (unwritten buf want sent)) = length sent + nat k" using assms(2,3) by simp
  have "take (nat k) (unwritten buf want sent) = take (nat k) (drop (length sent) buf)"
  proof -
    have "nat k \<le> nat (want - int (length sent))" using assms(3) unfolding rest by linarith
    then show ?thesis by (simp add: unwritten_def take_take min_absorb1)
  qed
  then show ?thesis unfolding Let_def len using assms rest by (simp add: take_add)
qed

lemma write_loop_ends:
  assumes "writer_ok wr" and "0 \<le> want" and "want \<le> int (length buf)" and "written wr buf want i = sent"
    and "take (length sent) buf = sent" and "int (length sent) \<le> want"
    and "\<forall>j < i. let sent = written wr buf want j in int (length sent) \<noteq> want \<and> 0 < wr j (unwritten buf want sent)"
  shows "\<exists>k res. write_loop wr buf want i sent = Some res \<and> write_ended wr buf want k res"
  using assms(4-7)
proof (induction "nat (want - int (length sent))" arbitrary: i sent rule: less_induct)
  case less
  let ?rest = "unwritten buf want sent"
  let ?k = "wr i ?rest"
  note step = write_loop.simps [of wr buf want i sent, folded unwritten_def]
  have k: "-1 \<le> ?k" "?k \<le> int (length ?rest)" using assms(1) unfolding writer_ok_def by blast+
  consider (stop) "int (length sent) = want \<or> ?k = 0 \<or> ?k = -1" | (more) "int (length sent) \<noteq> want" "0 < ?k"
    using k(1) by linarith
  then show ?case
  proof cases
    case stop
    show ?thesis
    proof (cases "int (length sent) = want")
      case True
      with less.prems show ?thesis
        by (intro exI [of _ i] exI [of _ "(want, sent)"]) (simp add: step write_ended_def Let_def)
    next
      case False
      with stop less.prems show ?thesis
        by (intro exI [of _ i] exI [of _ "if ?k = 0 then (int (length sent), sent) else (-1, sent)"])
          (auto simp: step write_ended_def Let_def)
    qed
  next
    case more
    let ?s = "sent @ take (nat ?k) ?rest"
    have s: "take (length ?s) buf = ?s" "length ?s = length sent + nat ?k" "int (length ?s) \<le> want"
      using unwritten_take [of sent buf ?k want] less.prems(2,3) more(2) k(2) assms(3) by (simp_all add: Let_def)
    moreover have "written wr buf want (Suc i) = ?s" using less.prems(1) by (simp add: Let_def)
    moreover have "nat (want - int (length ?s)) < nat (want - int (length sent))"
      using s(2) more less.prems(3) by (simp add: nat_less_eq_zless)
    moreover have "\<forall>j < Suc i. let sent = written wr buf want j in
        int (length sent) \<noteq> want \<and> 0 < wr j (unwritten buf want sent)"
      using less.prems(1,4) more by (auto simp: less_Suc_eq Let_def)
    ultimately have "\<exists>k res. write_loop wr buf want (Suc i) ?s = Some res \<and> write_ended wr buf want k res"
      using less.hyps by blast
    moreover have "write_loop wr buf want i sent = write_loop wr buf want (Suc i) ?s"
      using more by (simp add: step Let_def)
    ultimately show ?thesis by metis
  qed
qed

theorem anetWrite_ends:
  assumes "writer_ok wr" and "0 \<le> want" and "want \<le> int (length buf)"
  shows "\<exists>k res. anetWrite wr buf want = Some res \<and> write_ended wr buf want k res"
  unfolding anetWrite_def by (rule write_loop_ends [OF assms]) (use assms in simp_all)

end
