(* ===== verification/Dict_Stats.thy ===== *)
theory Dict_Stats
  imports Dict
begin

text \<open>
  The statistics \<open>DictPrintStats\<close> of \<open>data_struct/dict.c\<close> collects and prints. The counters are 32-bit in the
  code; none exceeds the number of slots or entries, which are 32-bit themselves. The lines printed are
  modelled by the numbers in them; the averages and percentages are given as the two numbers divided.
\<close>

definition DICT_STATS_VEC_LEN :: nat where "DICT_STATS_VEC_LEN = 50"

record dict_stats =
  st_slots :: nat
  st_max :: nat
  st_total :: nat
  st_vector :: "nat list"

definition stats_chain :: "('k, 'v) chain \<Rightarrow> dict_stats \<Rightarrow> dict_stats" where
  "stats_chain he st =
     (if he = [] then st\<lparr>st_vector := (st_vector st)[0 := st_vector st ! 0 + 1]\<rparr>
      else
        (let chain_len = length he;
             chain_index = (if chain_len < DICT_STATS_VEC_LEN then chain_len else DICT_STATS_VEC_LEN - 1)
         in st\<lparr>st_slots := st_slots st + 1, st_max := max (st_max st) chain_len,
               st_total := st_total st + chain_len,
               st_vector := (st_vector st)[chain_index := st_vector st ! chain_index + 1]\<rparr>))"

definition dict_stats_of :: "('k, 'v) Dict \<Rightarrow> dict_stats" where
  "dict_stats_of d =
     fold stats_chain (d_table d) \<lparr>st_slots = 0, st_max = 0, st_total = 0, st_vector = replicate DICT_STATS_VEC_LEN 0\<rparr>"

datatype stats_line =
    NoStats
  | StatsHeading
  | TableSize nat
  | Elements nat
  | Slots nat
  | MaxChain nat
  | AvgCounted nat nat
  | AvgComputed nat nat
  | DistributionHeading
  | ChainLength bool nat nat nat

text \<open>The last loop leaves out the last entry of the vector.\<close>

definition DictPrintStats :: "('k, 'v) Dict \<Rightarrow> stats_line list" where
  "DictPrintStats d =
     (if d_used d = 0 then [NoStats]
      else
        (let st = dict_stats_of d in
         [StatsHeading, TableSize (unat (d_size d)), Elements (unat (d_used d)), Slots (st_slots st), MaxChain (st_max st),
          AvgCounted (st_total st) (st_slots st), AvgComputed (unat (d_used d)) (st_slots st), DistributionHeading] @
         map (\<lambda>i. ChainLength (i = DICT_STATS_VEC_LEN - 1) i (st_vector st ! i) (unat (d_size d)))
           (filter (\<lambda>i. st_vector st ! i \<noteq> 0) [0..<DICT_STATS_VEC_LEN - 1])))"

text \<open>What the numbers are.\<close>

definition chains_of_length :: "nat \<Rightarrow> ('k, 'v) chain list \<Rightarrow> nat" where
  "chains_of_length i tbl = length (filter (\<lambda>c. min (length c) (DICT_STATS_VEC_LEN - 1) = i) tbl)"

lemma stats_fold:
  assumes "length (st_vector st) = DICT_STATS_VEC_LEN"
  shows "let st' = fold stats_chain tbl st in
    length (st_vector st') = DICT_STATS_VEC_LEN \<and>
    st_slots st' = st_slots st + length (filter (\<lambda>c. c \<noteq> []) tbl) \<and>
    st_max st' = fold max (map length tbl) (st_max st) \<and>
    st_total st' = st_total st + length (concat tbl) \<and>
    (\<forall>i < DICT_STATS_VEC_LEN. st_vector st' ! i = st_vector st ! i + chains_of_length i tbl)"
  using assms
proof (induction tbl arbitrary: st)
  case Nil
  then show ?case by (simp add: chains_of_length_def)
next
  case (Cons c tbl)
  have "length (st_vector (stats_chain c st)) = DICT_STATS_VEC_LEN" using Cons.prems
    by (simp add: stats_chain_def Let_def)
  note IH = Cons.IH [OF this]
  have "st_vector (stats_chain c st) ! i =
      st_vector st ! i + (if min (length c) (DICT_STATS_VEC_LEN - 1) = i then 1 else 0)" if "i < DICT_STATS_VEC_LEN" for i
    using that Cons.prems by (auto simp: stats_chain_def Let_def nth_list_update DICT_STATS_VEC_LEN_def)
  then show ?case using IH
    by (auto simp: Let_def chains_of_length_def stats_chain_def max.commute)
qed

theorem DictPrintStats_ok:
  assumes "dict_ok ty canon d"
  shows "st_total (dict_stats_of d) = unat (d_used d)"
    "st_slots (dict_stats_of d) + st_vector (dict_stats_of d) ! 0 = length (d_table d)"
    "i < DICT_STATS_VEC_LEN \<Longrightarrow> st_vector (dict_stats_of d) ! i = chains_of_length i (d_table d)"
    "c \<in> set (d_table d) \<Longrightarrow> length c \<le> st_max (dict_stats_of d)"
proof -
  let ?st = "\<lparr>st_slots = 0, st_max = 0, st_total = 0, st_vector = replicate DICT_STATS_VEC_LEN 0\<rparr>"
  note f = stats_fold [of ?st "d_table d", folded dict_stats_of_def, unfolded Let_def]
  show "st_total (dict_stats_of d) = unat (d_used d)" using f assms by (simp add: dict_ok_def entries_def)
  show v: "i < DICT_STATS_VEC_LEN \<Longrightarrow> st_vector (dict_stats_of d) ! i = chains_of_length i (d_table d)" for i
    using f by simp
  have "chains_of_length 0 (d_table d) = length (filter (\<lambda>c. \<not> c \<noteq> []) (d_table d))"
    unfolding chains_of_length_def DICT_STATS_VEC_LEN_def by (rule arg_cong [where f = length], rule filter_cong) (auto simp: min_def split: if_splits)
  then show "st_slots (dict_stats_of d) + st_vector (dict_stats_of d) ! 0 = length (d_table d)"
    using f v [of 0] sum_length_filter_compl [of "\<lambda>c. c \<noteq> []" "d_table d"] by (simp add: DICT_STATS_VEC_LEN_def)
  have "x \<in> set xs \<Longrightarrow> x \<le> fold max xs m" for x m and xs :: "nat list"
    using Max.set_eq_fold [of m xs] by (metis List.finite_set Max_ge list.set_intros(2))
  then show "c \<in> set (d_table d) \<Longrightarrow> length c \<le> st_max (dict_stats_of d)" using f by simp
qed

end
