(* ===== verification/Log.thy ===== *)
theory Log
  imports Server
begin

text \<open>
  Logging (\<open>utils/log.c\<close>). The message is the formatted text. The other parts of the model leave the
  calls out: nothing the server does depends on what was logged.
\<close>

text \<open>The mark in front of a line; a level that has none reads outside the string.\<close>

definition log_line :: "int \<Rightarrow> string \<Rightarrow> string option" where
  "log_line level msg =
     do { guard (0 \<le> level);
          mark \<leftarrow> nth_opt ''.-*'' (nat level);
          Some (mark # CHR '' '' # msg @ [LF]) }"

text \<open>
  The text written to the standard output, and the server. \<open>fopen\<close> creates the file even when the line
  is then left out; 0 is its NULL.
\<close>

definition CutisLog :: "int \<Rightarrow> string \<Rightarrow> CutisServer \<Rightarrow> (string \<times> CutisServer) option" where
  "CutisLog level msg s =
     (case log_file s of
        None \<Rightarrow> if level \<ge> verbosity s then map_option (\<lambda>l. (l, s)) (log_line level msg) else Some ([], s)
      | Some name \<Rightarrow>
          (let (r, s) = syscall s in
           if r = 0 then Some ([], s)
           else
             (let old = (case files (world s) name of None \<Rightarrow> [] | Some t \<Rightarrow> t) in
              if level \<ge> verbosity s
              then map_option (\<lambda>l. ([], set_file name (Some (old @ l)) s)) (log_line level msg)
              else Some ([], set_file name (Some old) s))))"

text \<open>Only levels from the configured one on are written, and only to the place configured.\<close>

theorem CutisLog_ok:
  assumes "CutisLog level msg s = Some (out, s')"
  shows "(level < verbosity s \<longrightarrow> out = [] \<and> (\<forall>f t. files (world s) f = Some t \<longrightarrow> files (world s') f = Some t)) \<and>
    (\<forall>f. log_file s \<noteq> Some f \<longrightarrow> files (world s') f = files (world s) f) \<and>
    heap s' = heap s \<and> dict s' = dict s"
  using assms
  by (auto simp: CutisLog_def set_file_def syscall_def sys_call_def Let_def split: option.splits if_splits prod.splits)

text \<open>The three levels of the server always have a mark.\<close>

theorem CutisLog_returns:
  assumes "level \<in> {CUTIS_DEBUG, CUTIS_NOTICE, CUTIS_WARNING}"
  shows "CutisLog level msg s \<noteq> None"
  using assms
  by (auto simp: CutisLog_def log_line_def nth_opt_def CUTIS_DEBUG_def CUTIS_NOTICE_def CUTIS_WARNING_def Let_def
      split: option.splits prod.splits)

end
