(* ===== verification/Session.thy ===== *)
theory Session
  imports Program Sample
begin

text \<open>
  A concrete run of the whole program: one client connects, sends SET and GET in one packet, and takes the
  replies in small pieces. The concrete instances of the properties of the program are taken from it.
\<close>

declare dispatch_timers.simps [code] send_loop.simps [code]

text \<open>
  Call number 0 opens the listening socket 3, call number 7 accepts the connection 5; every other call
  yields 7. The first \<open>select\<close> reports the listening socket, the later ones all that is asked for of
  the connection.
\<close>

definition session_bytes :: string where
  "session_bytes = request set_entry [''set'', ''k'', ''v''] @ request get_entry [''get'', ''k'']"

definition session_world :: world where
  "session_world = quiet_world\<lparr>sys := \<lambda>n. if n = 0 then 3 else if n = 7 then 5 else 7,
     reads := \<lambda>_. Data session_bytes\<rparr>"

definition session_select :: select_oracle where
  "session_select i n sets tv =
     (case sets of (r, w, e) \<Rightarrow>
        (1, False, (if i < 7 then [3] else filter (\<lambda>fd. fd \<noteq> 3) r, w, e)))"

definition session_alloc :: "CutisServer \<Rightarrow> addr" where
  "session_alloc s = Suc (fold max (clients s) 0)"

definition result_of :: "'a outcome option \<Rightarrow> 'a option" where
  "result_of m = (case m of Some (Returns x) \<Rightarrow> Some x | _ \<Rightarrow> None)"

lemma result_of: "result_of m \<noteq> None \<Longrightarrow> m = Some (Returns (the (result_of m)))"
  by (auto simp: result_of_def split: option.splits outcome.splits)

abbreviation session_program :: CutisServer where
  "session_program \<equiv> in_world session_world blank_server"

definition booted :: CutisServer where
  "booted = the (result_of (boot [''cutis''] session_program))"

text \<open>The server after one turn of the loop (connected), two (served), three (replies sent).\<close>

definition turn :: "nat \<Rightarrow> int \<times> CutisServer" where
  "turn n = the (result_of (StartServer n session_alloc session_select booted))"

abbreviation at_turn :: "nat \<Rightarrow> CutisServer" where
  "at_turn n \<equiv> snd (turn n)"

definition peer :: "nat \<Rightarrow> CutisClient" where
  "peer n = the (client_at (at_turn n) 1)"

lemma session_boots: "boot [''cutis''] session_program = Some (Returns booted)"
  unfolding booted_def by (rule result_of) code_simp

lemma session_turns:
  "StartServer 1 session_alloc session_select booted = Some (Returns (fst (turn 1), at_turn 1))"
  "StartServer 2 session_alloc session_select booted = Some (Returns (fst (turn 2), at_turn 2))"
  "StartServer 3 session_alloc session_select booted = Some (Returns (fst (turn 3), at_turn 3))"
  unfolding turn_def prod.collapse by (rule result_of, code_simp)+

lemma session_ok: "n \<in> {1, 2, 3} \<Longrightarrow> idle_ok (at_turn n)"
  using main_cleans [OF session_boots] session_turns by fast

text \<open>The client between the turns: what it has asked for, and what it will be sent.\<close>

lemma connected:
  "client_at (at_turn 1) 1 = Some (peer 1)" "bulk_len (peer 1) = -1" "argv (peer 1) = []" "query_buf (peer 1) = []"
  "c_db (peer 1) = 0" "reply (peer 1) = []" "reads (world (at_turn 1)) (calls (world (at_turn 1))) = Data session_bytes"
  unfolding peer_def by (rule option.collapse [symmetric], code_simp)+ code_simp+

lemma served:
  "client_at (at_turn 2) 1 = Some (peer 2)" "sending (peer 2) (at_turn 2)" "pending (peer 2) (at_turn 2) \<noteq> []"
  unfolding peer_def by (rule option.collapse [symmetric], code_simp) code_simp+

lemma session_watched:
  "map (\<lambda>fe. (fe_fd fe, file_proc fe, fe_data fe)) (file_events (el (at_turn 2))) =
     [(5, SendProc, 1), (5, ReadProc, 1), (3, AcceptProc, 0)]"
  by code_simp

end
