(* ===== verification/Instances.thy ===== *)
theory Instances
  imports Session Anet
begin

declare One_nat_def [simp del]

text \<open>
  Concrete states for the instances of the properties: the client of the session while it is being
  served, disks and operating systems that give way or refuse.
\<close>

text \<open>The client of the session while it is served.\<close>

definition peerless :: CutisServer where
  "peerless = (at_turn 1)\<lparr>client_at := (client_at (at_turn 1))(1 := None)\<rparr>"

definition asking :: "string \<Rightarrow> CutisClient" where
  "asking q = (peer 1)\<lparr>query_buf := q\<rparr>"

lemma asking_ok [simp]: "busy_ok (asking q) peerless"
  using check_out(1) [OF session_ok connected(1)] by (simp add: peerless_def asking_def)

lemma asking_fields [simp]:
  "bulk_len (asking q) = -1" "argv (asking q) = []" "query_buf (asking q) = q" "(asking q)\<lparr>query_buf := q'\<rparr> = asking q'"
  by (simp_all add: asking_def connected)

lemma get_k_ok [simp]: "request_ok get_entry [''get'', ''k'']"
  by code_simp

lemma get_k_bytes: "request get_entry [''get'', ''k''] = ''get k'' @ crlf" "length (request_line get_entry [''get'', ''k'']) = 5"
  by code_simp+

lemma session_room: "room (c_db (peer 1)) (at_turn 1)"
proof -
  have "0 < length (dict (at_turn 1))" "d_used (dict (at_turn 1) ! 0) = 0" by code_simp+
  then show ?thesis by (simp add: room_def connected)
qed

lemma session_short: "length session_bytes \<le> CUTIS_QUERY_BUF_LEN"
  by code_simp

lemma lookups:
  "LookupCommand ''gets'' = None" "LookupCommand ''get'' = Some get_entry"
  "\<not> strcmp_eq ''gets'' ''quit''" "\<not> strcmp_eq ''get'' ''quit''"
  "map tolower ''GETS'' = ''gets''" "map tolower ''GET'' = ''get''"
proof -
  have "list_all (\<lambda>e. \<not> strcmp_eq (cmd_name e) ''gets'') cmdTable" by code_simp
  then show "LookupCommand ''gets'' = None" by (auto simp: LookupCommand_def find_None_iff list_all_iff)
  have "cmd_name get_entry = ''get''" by (simp add: get_entry_def)
  with Lookup_table [OF table_entries(2)] show "LookupCommand ''get'' = Some get_entry" by simp
qed code_simp+

lemma Lookup_mem: "LookupCommand name = Some cm \<Longrightarrow> cm \<in> set cmdTable"
  using find_SomeD [of "\<lambda>e. strcmp_eq (cmd_name e) name" cmdTable cm] by (simp add: LookupCommand_def)

text \<open>What the sample server is saved as, a disk that takes every chunk of it at once, and one that takes 7 bytes.\<close>

definition sample_chunks :: "chunk list" where
  "sample_chunks = the (save_chunks server)"

definition big_disk :: world where
  "big_disk = quiet_world\<lparr>sys := \<lambda>_. 1 + int (length (concat (map chunk_bytes sample_chunks)))\<rparr>"

lemma sample_keys: "addr_map server i k \<noteq> None \<Longrightarrow> k \<noteq> []"
proof -
  assume "addr_map server i k \<noteq> None"
  then have "keyspace server i k \<noteq> None" unfolding keyspace_def by auto
  then obtain v where "stock i k = Some v" by auto
  then show "k \<noteq> []" by (cases "i = 0") (auto split: if_splits)
qed

lemma save_chunks_world: "save_chunks (in_world w s) = save_chunks s"
  by (simp add: save_chunks_def in_world_def)

lemma sample_saves:
  "save_chunks (in_world w server) = Some sample_chunks" "disk_takes big_disk sample_chunks"
  "CUTIS_DB_NAME \<noteq> tmp_of w" "length (dict (in_world w server)) = 16"
proof -
  note S = servingD [OF server_okD(1) [OF sample_simps(1)]]
  from save_chunks_writes [OF S(1,3)] sample_keys obtain chs where "save_chunks server = Some chs" by blast
  then show "save_chunks (in_world w server) = Some sample_chunks"
    unfolding save_chunks_world sample_chunks_def by simp
  have le: "length (chunk_bytes (chs ! i)) \<le> length (concat (map chunk_bytes chs))" if "i < length chs" for i chs
    using that by (induction chs arbitrary: i) (auto simp: nth_Cons' intro: trans_le_add2)
  then show "disk_takes big_disk sample_chunks"
    using le [of _ sample_chunks] by (fastforce simp: disk_takes_def big_disk_def Let_def)
  show "CUTIS_DB_NAME \<noteq> tmp_of w"
    by (simp add: tmp_of_def tmp_name_def CUTIS_DB_NAME_def)
  show "length (dict (in_world w server)) = 16"
    using small_sample(6) by (simp add: small_def in_world_def)
qed

lemma stock_fits: "data_fits stock"
proof -
  have "card (dom (stock i)) \<le> 2 ^ 27" for i
  proof (cases "i = 0")
    case True
    have "dom (stock 0) = {''k'', ''l'', ''m'', ''n''}" by auto
    then show ?thesis using True by simp
  qed simp
  moreover have "k \<noteq> [] \<and> short k \<and> value_fits v" if "stock i k = Some v" for i k v
    using that by (cases "i = 0") (auto simp: short_def split: if_splits)
  ultimately show ?thesis by (simp add: data_fits_def)
qed

lemma started_idle:
  "idle_ok (in_world w started)" "length (dict (in_world w started)) = 16"
  "keyspace (in_world w started) = (\<lambda>i. Map.empty)"
  using InitServer_idle [OF started_Returns] InitServer_ok [OF started_Returns, of "caller []"]
  by (simp_all add: config_db_num in_world_def keyspace_def caller_def)

lemma small_disk: "\<exists>s'. SaveDB CUTIS_DB_NAME (in_world quiet_world server) = Some (CUTIS_ERR, s')"
proof -
  let ?s = "in_world quiet_world server"
  obtain dbs where "mapM (save_db (heap ?s)) (List.enumerate 0 (dict ?s)) = Some dbs"
    using sample_saves(1) [of quiet_world] by (auto simp: save_chunks_def split: bind_splits)
  then obtain cs where cs: "save_chunks ?s = Some (Item CUTIS_DB_SIGNATURE # cs)" by (simp add: save_chunks_def)
  have w: "world ?s = quiet_world" by (simp add: in_world_def)
  have short: "\<not> list_all2 accepted (Item CUTIS_DB_SIGNATURE # cs) (taken (sys quiet_world) n (Item CUTIS_DB_SIGNATURE # cs))" for n
    by (simp add: quiet_world_def CUTIS_DB_SIGNATURE_def)
  have "sys (world ?s) (calls (world ?s) + 2) \<noteq> 0" by (simp add: w) (simp add: quiet_world_def)
  from SaveDB_runs [OF cs this, of CUTIS_DB_NAME] obtain r s' where
    r: "SaveDB CUTIS_DB_NAME ?s = Some (r, s')" "save_result CUTIS_DB_NAME ?s (Item CUTIS_DB_SIGNATURE # cs) r s'" by blast
  from r(2) short have "r = CUTIS_ERR" unfolding save_result_def Let_def w by (simp only: if_False simp_thms)
  with r(1) show ?thesis by blast
qed

text \<open>
  A disk that is full: every \<open>fwrite\<close> takes all its bytes into the buffer, but none is ever written
  out, not when the file is closed either. The calls of \<open>fwrite\<close> have odd numbers.
\<close>

definition full_disk :: world where
  "full_disk = quiet_world\<lparr>sys := \<lambda>i. if odd i \<and> i \<noteq> 3 + 2 * length sample_chunks
     then 1 + int (length (concat (map chunk_bytes sample_chunks))) else if i = 2 then 1 else 0\<rparr>"

lemma flush_nothing:
  assumes "sys (world s) (calls (world s)) \<le> 0" and "files (world s) name \<noteq> None"
  shows "\<exists>s'. flush name buf s = (buf, s') \<and> files (world s') = files (world s) \<and> sys (world s') = sys (world s) \<and>
    calls (world s') = calls (world s) + 1"
  using assms by (auto simp: flush_def syscall_num set_file_def fun_upd_idem Let_def)

lemma fwrites_buffered:
  assumes "\<forall>i < length chs. sys (world s) (calls (world s) + 2 * i + 1) \<le> 0" and "files (world s) name \<noteq> None"
    and "fwrites name chs buf s = (ok, buf', s')"
  shows "files (world s') = files (world s)"
  using assms
proof (induction chs arbitrary: s buf)
  case (Cons ch chs)
  let ?s = "s\<lparr>world := (world s)\<lparr>calls := calls (world s) + 1\<rparr>\<rparr>"
  let ?r = "min (nat (sys (world s) (calls (world s)))) (length (chunk_bytes ch))"
  have "sys (world ?s) (calls (world ?s)) \<le> 0" using Cons.prems(1) by force
  from flush_nothing [OF this, of name "buf @ take ?r (chunk_bytes ch)"] Cons.prems(2) obtain s1 where
    s1: "flush name (buf @ take ?r (chunk_bytes ch)) ?s = (buf @ take ?r (chunk_bytes ch), s1)"
      "files (world s1) = files (world s)" "sys (world s1) = sys (world s)" "calls (world s1) = calls (world s) + 2" by auto
  have "\<forall>i < length chs. sys (world s1) (calls (world s1) + 2 * i + 1) \<le> 0"
  proof (intro allI impI)
    fix i
    assume "i < length chs"
    with Cons.prems(1) [rule_format, of "Suc i"] show "sys (world s1) (calls (world s1) + 2 * i + 1) \<le> 0"
      using s1(3,4) by (simp add: ac_simps)
  qed
  note IH = Cons.IH [OF this]
  obtain b where w: "fwrite name ch buf s = (b, buf @ take ?r (chunk_bytes ch), s1)"
    using s1(1) by (simp add: fwrite_def syscall_num Let_def)
  show ?case
  proof (cases b)
    case True
    then show ?thesis using IH s1(2) w Cons.prems(2,3) by auto
  next
    case False
    then show ?thesis using s1(2) w Cons.prems(3) by simp
  qed
qed simp

text \<open>There the save reports success and has put an empty file in the place of the old one.\<close>

lemma full_disk_loses:
  "\<exists>s'. SaveDB CUTIS_DB_NAME (in_world full_disk server) = Some (CUTIS_OK, s') \<and> files (world s') CUTIS_DB_NAME = Some []"
proof -
  let ?s = "in_world full_disk server"
  let ?big = "1 + int (length (concat (map chunk_bytes sample_chunks)))"
  note S = servingD [OF server_okD(1) [OF sample_simps(1)]]
  have chs: "save_chunks ?s = Some sample_chunks" by (rule sample_saves(1))
  from save_chunks_writes [OF S(1,3)] sample_keys sample_saves(1) [unfolded save_chunks_world] have wh: "list_all whole sample_chunks"
    by (auto simp: writes_def)
  have w: "world ?s = full_disk" "calls full_disk = 0" "files full_disk = Map.empty"
    by (simp_all add: in_world_def full_disk_def quiet_world_def)
  have odd: "sys full_disk (3 + 2 * i) = ?big" if "i < length sample_chunks" for i
    using that by (simp add: full_disk_def)
  have even: "sys full_disk (4 + 2 * i) = 0" for i by (simp add: full_disk_def)
  have "length (chunk_bytes (chs ! i)) \<le> length (concat (map chunk_bytes chs))" if "i < length chs" for i chs
    using that by (induction chs arbitrary: i) (auto simp: nth_Cons' intro: trans_le_add2)
  then have xs: "taken (sys full_disk) 3 sample_chunks = map chunk_bytes sample_chunks"
    by (intro taken_whole) (fastforce simp: odd)
  let ?o = "opened ?s"
  have o: "sys (world ?o) = sys full_disk" "calls (world ?o) = 3" "files (world ?o) = [tmp_of full_disk \<mapsto> []]"
    using w by simp_all
  have "files (world ?o) (tmp_of full_disk) = Some []" using o(3) by simp
  from fwrites_runs [OF this, of sample_chunks "[]"] obtain buf s2 where
    "fwrites (tmp_of full_disk) sample_chunks [] ?o =
       (list_all2 accepted sample_chunks (taken (sys (world ?o)) (calls (world ?o)) sample_chunks), buf, s2)"
    "sys (world s2) = sys (world ?o)"
    "list_all2 accepted sample_chunks (taken (sys (world ?o)) (calls (world ?o)) sample_chunks) \<Longrightarrow>
       calls (world s2) = calls (world ?o) + 2 * length sample_chunks" by metis
  then have s2: "fwrites (tmp_of full_disk) sample_chunks [] ?o = (True, buf, s2)" "sys (world s2) = sys full_disk"
      "calls (world s2) = 3 + 2 * length sample_chunks"
    unfolding o(1,2) xs using whole_accepted [OF wh] by simp_all
  have f2: "files (world s2) = [tmp_of full_disk \<mapsto> []]"
  proof (subst fwrites_buffered [OF _ _ s2(1)])
    have "3 + 2 * i + 1 = 4 + 2 * i" for i :: nat by simp
    then show "\<forall>i < length sample_chunks. sys (world ?o) (calls (world ?o) + 2 * i + 1) \<le> 0"
      unfolding o(1,2) by (simp only: even order_refl) simp
  qed (simp_all add: o(3) w(3))
  have "sys (world s2) (calls (world s2)) = 0" using s2(2,3) by (simp add: full_disk_def)
  with flush_nothing [of s2 "tmp_of full_disk" buf] f2 s2(2,3) obtain s3 where
    s3: "flush (tmp_of full_disk) buf s2 = (buf, s3)" "files (world s3) = [tmp_of full_disk \<mapsto> []]"
      "sys (world s3) = sys full_disk" "calls (world s3) = 4 + 2 * length sample_chunks" by auto
  have r: "fst (syscall s3) \<noteq> -1" using s3(3,4) even by (simp add: syscall_num)
  have "sys full_disk 2 \<noteq> 0" by (simp add: full_disk_def)
  then have "SaveDB CUTIS_DB_NAME ?s = (let (now, s4) = syscall (renamed CUTIS_DB_NAME (tmp_of full_disk) (snd (syscall s3)))
      in Some (CUTIS_OK, s4\<lparr>dirty := 0, last_save := now\<rparr>))"
    using chs s2(1) s3(1) r w by (simp add: SaveDB_body fclose_def numeral_eq_Suc)
  then show ?thesis using s3(2) sample_saves(3) by (simp add: syscall_num renamed_def)
qed

text \<open>An operating system that answers 4 to everything.\<close>

definition calm_os :: os where
  "calm_os = \<lparr>os_answer = \<lambda>_ _. 4, os_errno = \<lambda>_. 0, os_peer = \<lambda>_. (0, 0), os_aton = \<lambda>_. None, os_host = \<lambda>_. None,
     os_strerror = \<lambda>_. [], os_ops = [], os_open = [], os_last = 0, os_err = None\<rparr>"

lemma calm_os_serves: "fst (anetTcpServer 6380 None calm_os) = 4"
  by (simp add: anetTcpServer_def os_call_def bind_to_def calm_os_def Let_def)

end
