(* ===== verification/Spec2Isabelle.thy ===== *)
theory Spec2Isabelle
  imports Zmalloc Adlist Ae String_Util Sds Persist Server_Spec Key_Commands Sample Program Anet Dict_Stats Log Session Instances
begin

text \<open>
  Cutis is a small key-value server in C, an early relative of Redis: one process, one event loop,
  sixteen numbered databases whose keys are strings and whose values are strings, lists of strings
  or sets of strings. This development models it function by function and proves what the parts
  promise each other and what the commands do.

  \<^bold>\<open>The program.\<close> A client's bytes arrive in \<open>ReadQueryFromClient\<close> (\<open>src/server/client.c\<close>), are split
  into requests by \<open>ParseQuery\<close> and dispatched by \<open>ProcessCommand\<close> (\<open>src/commands/command.c\<close>) through the
  command table. Commands work on the hash tables of \<open>src/data_struct/dict.c\<close>, whose values are counted
  objects (\<open>src/commands/object.c\<close>) made of dynamic strings (\<open>sds.c\<close>), linked lists (\<open>adlist.c\<close>) and further
  hash tables. Replies are queued as references to objects and written by \<open>SendReplyToClient\<close>. The
  event loop (\<open>src/event/ae.c\<close>) also runs \<open>ServerCron\<close> (\<open>src/server/server.c\<close>), which resizes tables,
  closes idle clients and starts background saves.

  \<^bold>\<open>The theories.\<close>
  \<^item> \<open>Prelude\<close>, \<open>Libc\<close>: lists, options and folds shared by all; the C library's character and number
    functions with their limits (\<open>atoi\<close> and \<open>strtoll\<close> saturate, \<open>atoi\<close> then truncates to 32 bits).
  \<^item> \<open>Sds\<close>, \<open>Adlist\<close>, \<open>Dict\<close>, \<open>String_Util\<close>, \<open>Zmalloc\<close>: the data structures at the level of memory: raw buffers
    with checked writes, nodes with links, tables of chains with 32-bit sizes and masks, a matcher with two
    moving pointers, a counter of allocated bytes. Each ends with an abstraction (content, list, map, meaning
    of a pattern, live blocks) and the lemmas that the operations implement it.
  \<^item> \<open>Dict_Stats\<close>: the statistics of \<open>DictPrintStats\<close>, and that they count what the table holds.
  \<^item> \<open>Ae\<close>, \<open>Ae_Loop\<close>: the event loop over parameters for \<open>select\<close>, the clock and the handlers; the locale
    \<open>kept_world\<close>, what an invariant of the callbacks says of the loop.
  \<^item> \<open>Anet\<close>, \<open>Log\<close>: the wrappers of the socket calls over an operating system that answers each call, with the
    descriptors they open and close; the log.
  \<^item> \<open>Object\<close>: the store of objects and its invariant \<open>heap_ok\<close>: every count is exactly the number of
    references. The locale \<open>refcounted\<close> is the contract the other parts use.
  \<^item> \<open>Server_State\<close>, \<open>Command\<close>, \<open>Client\<close>, \<open>Persist\<close>, \<open>Server\<close>: the record of the server, the commands, the protocol,
    the file format, the server functions, each as a function on explicit state.
  \<^item> \<open>Keyspace\<close>: databases as maps from keys to values (\<open>keyspace\<close>), the invariant of a server with a client
    being served (\<open>server_ok\<close>) and the form of all command theorems: \<open>does c s K t n r\<close> says that the run \<open>r\<close> of a
    command returns, keeps \<open>server_ok\<close>, leaves the databases \<open>K\<close>, appends the text \<open>t\<close> to what the client will be
    sent, and adds \<open>n\<close> to the counter of unsaved changes.
  \<^item> \<open>String_Commands\<close>, \<open>List_Commands\<close>, \<open>Set_Commands\<close>, \<open>Key_Commands\<close>: one such theorem per command.
  \<^item> \<open>Command_Invariant\<close>, \<open>Frame\<close>: whatever a client asks for, a run of a command that is defined keeps the
    invariant, and it does not touch the connection, the table of clients or the configuration.
  \<^item> \<open>System\<close>: the invariant \<open>idle_ok\<close> of the server between two events, kept by every handler.
  \<^item> \<open>Protocol\<close>: requests written down and parsed again, whole or in pieces, and refused.
  \<^item> \<open>Lifecycle\<close>: from the start to the end; replies go out in order and without loss, cleaning up leaves no object.
  \<^item> \<open>Persist_Spec\<close>, \<open>Load_Spec\<close>: the records of the data file as codecs; saving writes the encoding of the
    databases when the disk takes everything, and otherwise what the result says of the old file and the new one;
    loading rebuilds the databases.
  \<^item> \<open>Serve\<close>: the callbacks put into the event loop, \<open>StartServer\<close> and the interrupt handler.
  \<^item> \<open>Watch\<close>, \<open>Handlers\<close>: what each function does to the lists of events; no event outlives its client.
  \<^item> \<open>Program\<close>: \<open>main\<close> of \<open>cutis.c\<close>: loading any file keeps the invariant, and the whole run ends clean.
  \<^item> \<open>Server_Spec\<close>, \<open>Sample\<close>, \<open>Session\<close>, \<open>Instances\<close>: starting the server; a small filled server, a run of the
    whole program with a client, and the states in which the properties are applied.

  \<^bold>\<open>Conventions.\<close> An option result of None is undefined behaviour or a crash of the C program (a freed object,
  a write outside an allocation, a null pointer, signed overflow); errors the program handles are values.
  Above the data structures a dynamic string is its content, a linked list the list of its values: the
  lemmas of \<open>Sds\<close> and \<open>Adlist\<close> justify it. System calls, time, \<open>random()\<close> and the bytes a read yields come from
  the \<open>world\<close> of the server state, one entry per call, over which all theorems quantify; the world also keeps
  the files and the bytes that went out on each descriptor. A stream of the C library has a buffer, and bytes an
  \<open>fwrite\<close> takes reach the file when the system lets them, at the latest when the stream is closed. The array that
  \<open>SINTER\<close> allocates is a table of slots that is gone after \<open>zfree\<close>; \<open>named_sets\<close> is what it ends up with. Addresses of objects
  are natural numbers, reference counts and the counter of changes unbounded integers; table sizes, list
  lengths and hashes are 32-bit words.

  \<^bold>\<open>Bounds and fuel.\<close> Tables have at most \<open>2 ^ 27\<close> slots, since the source computes their size in bytes in an
  \<open>int\<close>; \<open>sdssplitlen\<close> counts in \<open>int\<close>s, every one checked (\<open>c_int\<close>), and strings below \<open>2 ^ 30\<close> bytes stay within
  them. \<open>room\<close> is the hypothesis that a database has not reached that. Releasing an object recurses at most
  twice, because containers hold strings only; \<open>decr_exact\<close> shows that this is enough. \<open>parse_loop\<close> may take as
  many rounds as the query buffer has bytes, plus one, and \<open>parse_query_loops\<close> shows that this is the loop of the
  code, which has no bound; \<open>load_loop\<close> may take as many as the file. Loops that need not end are partial
  functions: \<open>send_loop\<close>, \<open>read_loop\<close>, \<open>write_loop\<close> and \<open>iterate_from\<close>, which are shown to end, \<open>anetAccept\<close> and
  \<open>random_slot\<close>, which end unless the system answers \<open>EAGAIN\<close> or the random source misses for ever. The event loop
  runs until it is stopped; \<open>AeMain\<close> and what calls it have a bound \<open>n\<close> on the turns, over which the theorems
  quantify.

  \<^bold>\<open>Not modelled.\<close> The calls of the log inside the server, which change nothing in it; running out of memory
  (\<open>CutisOom\<close>, \<open>sdsOOMAbort\<close> and \<open>_DictPanic\<close> print and abort); functions that only hand back memory whose address
  the model does not keep, such as those that release an iterator; \<open>signal\<close> itself; the process of a background save after
  it was forked, except for the file it writes. The server calls the socket functions through the \<open>world\<close>, by their
  results. The client library and the test scripts are in other languages.
\<close>

section \<open>The whole program\<close>

text \<open>C1: whatever the arguments, the files, the clients and the clock do, when the event loop has
  come to its end the server satisfies its invariant (exact reference counts, sound tables, one entry of
  the table for every client), cleaning up succeeds, and no object, client, database or event is left.\<close>

theorem program_cleans_up:
  assumes "boot args s = Some (Returns s0)" and "StartServer n alloc sel s0 = Some (Returns (r, s1))"
  shows "idle_ok s1 \<and> (\<exists>s2. main n alloc sel args s = Some (Returns s2) \<and> CleanServer s1 = Some s2 \<and> cleaned s2)"
  using main_cleans [OF assms] by blast

lemma program_cleans_up_witness:
  "\<exists>s2. main 3 session_alloc session_select [''cutis''] session_program = Some (Returns s2) \<and> cleaned s2"
  using program_cleans_up [OF session_boots session_turns(3)] by blast

text \<open>C2: after any number of turns of the loop, every handler registered for a client finds that
  client alive, under the address and with the descriptor it was registered for.\<close>

theorem handlers_find_clients:
  assumes "boot args s = Some (Returns s0)" and "StartServer n alloc sel s0 = Some (Returns (r, s1))"
    and "fe \<in> set (file_events (el s1))" and "file_proc fe \<noteq> AcceptProc"
  shows "\<exists>c. client_at s1 (fe_data fe) = Some c \<and> c_id c = fe_data fe \<and> c_fd c = fe_fd fe"
proof -
  note ok = main_cleans [OF assms(1,2)]
  then obtain c where "client_at s1 (fe_data fe) = Some c" "c_fd c = fe_fd fe"
    using handler_finds_client [OF _ assms(3,4)] by blast
  then show ?thesis using ok by (auto simp: idle_ok_def clients_ok_def)
qed

lemma handlers_find_clients_witness:
  "\<exists>fe \<in> set (file_events (el (at_turn 2))). file_proc fe = SendProc \<and>
     (\<exists>c. client_at (at_turn 2) (fe_data fe) = Some c \<and> c_fd c = 5)"
proof -
  from session_watched obtain fe where fe: "fe \<in> set (file_events (el (at_turn 2)))" "file_proc fe = SendProc" "fe_fd fe = 5"
    by (cases "file_events (el (at_turn 2))") auto
  then show ?thesis using handlers_find_clients [OF session_boots session_turns(2) fe(1)] by auto
qed

text \<open>C8: every command of the table keeps the invariant of the server, the identity, the connection
  and the query buffer of its client, and the configuration and the table of clients, on every branch.\<close>

theorem commands_well_typed:
  assumes "cm \<in> set cmdTable" and "server_ok c s" and "cmd_proc cm c s = Some (c', s')"
  shows "server_ok c' s' \<and> conn c' = conn c \<and> config s' = config s"
  using cmdTable_kept [OF assms(1,2)] cmdTable_framed [OF assms(1), of c s] assms(3) by (simp add: framed_def)

lemma commands_well_typed_witness:
  "\<exists>c' s'. cmd_proc get_entry (client [''get'', ''k'']) server = Some (c', s') \<and> server_ok c' s' \<and> config s' = config server"
proof -
  obtain c' s' where r: "cmd_proc get_entry (client [''get'', ''k'']) server = Some (c', s')"
    using GetCommand_does [of "client [''get'', ''k'']" server "''k''"] by (auto simp: does_def get_entry_def)
  then show ?thesis using commands_well_typed [OF table_entries(2) _ r] by simp
qed

section \<open>Requests\<close>

text \<open>C6: a request written down the way the protocol has it, with anything behind it in the buffer, runs
  exactly its command on exactly its arguments; then the rest is parsed.\<close>

theorem request_is_run:
  assumes "busy_ok c s" and "bulk_len c = -1" and "argv c = []" and "cm \<in> set cmdTable" and "request_ok cm ws"
    and "query_buf c = request cm ws @ rest"
  shows "ParseQuery c s = run_request cm ws rest c s"
  by (rule request_runs [OF assms])

lemma request_is_run_witness:
  "ParseQuery (asking (request get_entry [''get'', ''k''] @ ''x'')) peerless =
     run_request get_entry [''get'', ''k''] ''x'' (asking (request get_entry [''get'', ''k''] @ ''x'')) peerless"
  by (rule request_is_run [OF asking_ok asking_fields(1,2) table_entries(2) get_k_ok asking_fields(3)])

text \<open>C7: a request that arrives in two pieces, split anywhere, is served as if it had come in one.\<close>

theorem request_split:
  assumes "busy_ok c s" and "bulk_len c = -1" and "argv c = []" and "cm \<in> set cmdTable" and "request_ok cm ws"
    and "x @ y = request cm ws @ rest" and "length x < length (request cm ws)" and "length (request_line cm ws) + 2 \<le> 1024"
  shows "\<exists>c1. ParseQuery (c\<lparr>query_buf := x\<rparr>) s = Some (CUTIS_OK, Some c1, s) \<and>
    ParseQuery (c1\<lparr>query_buf := query_buf c1 @ y\<rparr>) s = ParseQuery (c\<lparr>query_buf := x @ y\<rparr>) s"
  by (rule request_in_pieces [OF assms])

lemma request_split_witness:
  "\<exists>c1. ParseQuery ((asking [])\<lparr>query_buf := ''ge''\<rparr>) peerless = Some (CUTIS_OK, Some c1, peerless) \<and>
    ParseQuery (c1\<lparr>query_buf := query_buf c1 @ ''t k'' @ crlf\<rparr>) peerless =
    ParseQuery ((asking [])\<lparr>query_buf := ''ge'' @ ''t k'' @ crlf\<rparr>) peerless"
  using request_split [where x = "''ge''" and y = "''t k'' @ crlf" and rest = "[]",
      OF asking_ok asking_fields(1,2) table_entries(2) get_k_ok] by (simp add: get_k_bytes)

text \<open>C9: splitting the query buffer into requests always comes to an end; \<open>ParseQuery\<close> satisfies the
  equation of the loop in the code, which has no bound.\<close>

theorem parse_query_loops:
  assumes "busy_ok c s" and "conn_ok c"
  shows "ParseQuery c s = parse_round c s \<bind> (\<lambda>(res, oc, s). case oc of
       Some c \<Rightarrow> if res = CUTIS_AGAIN then ParseQuery c s else Some (res, Some c, s)
     | None \<Rightarrow> Some (res, None, s)) \<and>
    (\<forall>c' s'. parse_round c s = Some (CUTIS_AGAIN, Some c', s') \<longrightarrow>
       busy_ok c' s' \<and> conn_ok c' \<and> length (query_buf c') < length (query_buf c))"
  using ParseQuery_round [OF assms] round_leaves [OF assms] round_shrinks [OF assms(2)] by auto

lemma parse_query_loops_witness:
  "ParseQuery (asking session_bytes) peerless =
     parse_round (asking session_bytes) peerless \<bind> (\<lambda>(res, oc, s). case oc of
       Some c \<Rightarrow> if res = CUTIS_AGAIN then ParseQuery c s else Some (res, Some c, s)
     | None \<Rightarrow> Some (res, None, s))"
  using parse_query_loops [OF asking_ok, of session_bytes] by (simp add: conn_ok_def)

text \<open>C3: a client that sends SET and GET of a key in one packet is answered +OK and that very value, and the
  key is bound.\<close>

theorem set_then_get:
  assumes "idle_ok s" and "client_at s p = Some c" and "bulk_len c = -1" and "argv c = []" and "query_buf c = []"
    and "wire_word k" and "room (c_db c) s" and "data = request set_entry [''set'', k, v] @ request get_entry [''get'', k]"
    and "length data \<le> CUTIS_QUERY_BUF_LEN" and "reads (world s) (calls (world s)) = Data data"
  shows "\<exists>c' s'. with_client ReadQueryFromClient p s = Some (CUTIS_OK, s') \<and> idle_ok s' \<and> client_at s' p = Some c' \<and>
    keyspace s' = ks_put (c_db c) k (VString v) (keyspace s) \<and>
    pending c' s' = pending c s @ ''+OK'' @ crlf @ bulk v \<and> dirty s' = dirty s + 1"
  by (rule set_get_served [OF assms])

lemma set_then_get_witness:
  "\<exists>c' s'. with_client ReadQueryFromClient 1 (at_turn 1) = Some (CUTIS_OK, s') \<and> client_at s' 1 = Some c' \<and>
     keyspace s' 0 ''k'' = Some (VString ''v'') \<and> pending c' s' = ''+OK'' @ crlf @ bulk ''v''"
proof -
  have p: "pending (peer 1) (at_turn 1) = []" by (simp add: pending_def connected del: One_nat_def)
  have "wire_word ''k''" by code_simp
  moreover have "1 \<in> {1, 2, 3 :: nat}" by simp
  ultimately obtain c' s' where "with_client ReadQueryFromClient 1 (at_turn 1) = Some (CUTIS_OK, s')"
    "client_at s' 1 = Some c'" "keyspace s' = ks_put (c_db (peer 1)) ''k'' (VString ''v'') (keyspace (at_turn 1))"
    "pending c' s' = pending (peer 1) (at_turn 1) @ ''+OK'' @ crlf @ bulk ''v''"
    using set_then_get [OF session_ok connected(1-4) _ session_room refl _ connected(7) [unfolded session_bytes_def]]
      session_short [unfolded session_bytes_def] by blast
  then show ?thesis unfolding p connected(5) append.left_neutral by (intro exI conjI) (simp_all add: ks_put_def)
qed

text \<open>C11: a command nobody knows, a wrong number of arguments and a bulk count out of range are each
  answered by their error line; nothing else changes, and the client is ready for its next request.\<close>

theorem requests_refused:
  assumes "server_ok c s" and "arg 0 c = Some w" and "name = map tolower w" and "\<not> strcmp_eq name ''quit''"
  shows "(LookupCommand name = None \<longrightarrow> refused ''unknown command'' c s (ProcessCommand c s)) \<and>
    (\<forall>cm. LookupCommand name = Some cm \<longrightarrow>
      (let wrong = (arity cm > 0 \<and> arity cm \<noteq> int (argc c)) \<or> int (argc c) < - arity cm in
       (wrong \<longrightarrow> refused ''wrong number of arguments'' c s (ProcessCommand c s)) \<and>
       (\<forall>a. \<not> wrong \<and> name = cmd_name cm \<and> is_bulk cm \<and> bulk_len c = -1 \<and> 1 < argc c \<and> arg (argc c - 1) c = Some a \<and>
          (atoi (cstr a) < 0 \<or> CUTIS_MAX_STRING_LENGTH < atoi (cstr a)) \<longrightarrow>
        refused ''invalid bulk write count'' c s (ProcessCommand c s))))"
proof (intro conjI allI impI)
  note name = assms(3) [symmetric]
  show "refused ''unknown command'' c s (ProcessCommand c s)" if "LookupCommand name = None"
    by (rule unknown_refused [OF assms(1,2) name assms(4) that])
  fix cm
  assume cm: "LookupCommand name = Some cm"
  let ?wrong = "(arity cm > 0 \<and> arity cm \<noteq> int (argc c)) \<or> int (argc c) < - arity cm"
  have bulk: "refused ''invalid bulk write count'' c s (ProcessCommand c s)"
    if "\<not> ?wrong \<and> name = cmd_name cm \<and> is_bulk cm \<and> bulk_len c = -1 \<and> 1 < argc c \<and> arg (argc c - 1) c = Some a \<and>
      (atoi (cstr a) < 0 \<or> CUTIS_MAX_STRING_LENGTH < atoi (cstr a))" for a
    using that bulk_count_refused [OF assms(1) Lookup_mem [OF cm] assms(2), of a] name by simp
  show "let wrong = ?wrong in
       (wrong \<longrightarrow> refused ''wrong number of arguments'' c s (ProcessCommand c s)) \<and>
       (\<forall>a. \<not> wrong \<and> name = cmd_name cm \<and> is_bulk cm \<and> bulk_len c = -1 \<and> 1 < argc c \<and> arg (argc c - 1) c = Some a \<and>
          (atoi (cstr a) < 0 \<or> CUTIS_MAX_STRING_LENGTH < atoi (cstr a)) \<longrightarrow>
        refused ''invalid bulk write count'' c s (ProcessCommand c s))"
    unfolding Let_def using arity_refused [OF assms(1,2) name assms(4) cm] bulk by blast
qed

lemma requests_refused_witness:
  "refused ''unknown command'' (client [''GETS'']) server (ProcessCommand (client [''GETS'']) server) \<and>
   refused ''wrong number of arguments'' (client [''GET'']) server (ProcessCommand (client [''GET'']) server)"
  using requests_refused [of "client [''GETS'']" server "''GETS''" "''gets''"]
    requests_refused [of "client [''GET'']" server "''GET''" "''get''"] lookups
  by (simp add: get_entry_def)

text \<open>C10: however little the socket takes at a time, serving a client that is ready for writing comes to
  an end, and what has gone out on its descriptor, and on no other, is exactly the beginning of what was pending;
  the rest is still pending. Something is left only when a write took nothing or would block, and only a failing
  write loses the client (\<open>stalled nw\<close>: one of the calls made here yielded \<open>nw\<close>).\<close>

theorem replies_delivered:
  assumes "idle_ok s" and "client_at s p = Some c" and "sending c s"
  shows "\<exists>r s' sent. with_client SendReplyToClient p s = Some (r, s') \<and> idle_ok s' \<and> keyspace s' = keyspace s \<and>
    wire (world s') = (wire (world s))(c_fd c := wire (world s) (c_fd c) @ sent) \<and>
    (case client_at s' p of
       None \<Rightarrow> r = AE_ERR \<and> (\<exists>rest. unsent c s = sent @ rest) \<and> (\<exists>nw < -1. stalled nw s s')
     | Some c' \<Rightarrow> r = AE_OK \<and> sending c' s' \<and> unsent c s = sent @ unsent c' s' \<and>
         (reply c' \<noteq> [] \<longrightarrow> stalled 0 s s' \<or> stalled (-1) s s'))"
  using replies_sent [OF assms] by (elim exE conjE, intro exI conjI) (assumption | erule wrote_wire)+

lemma replies_delivered_witness:
  "\<exists>r s' sent. with_client SendReplyToClient 1 (at_turn 2) = Some (r, s') \<and> keyspace s' = keyspace (at_turn 2) \<and>
     wire (world s') (c_fd (peer 2)) = wire (world (at_turn 2)) (c_fd (peer 2)) @ sent"
proof -
  from replies_delivered [OF session_ok served(1,2)] obtain r s' sent where
    r: "with_client SendReplyToClient 1 (at_turn 2) = Some (r, s')" "keyspace s' = keyspace (at_turn 2)"
    and w: "wire (world s') = (wire (world (at_turn 2)))(c_fd (peer 2) := wire (world (at_turn 2)) (c_fd (peer 2)) @ sent)"
    by blast
  show ?thesis by (intro exI [of _ r] exI [of _ s'] exI [of _ sent] conjI r) (simp only: w fun_upd_same)
qed

section \<open>The data file\<close>

text \<open>C4: what is saved is what is loaded. When the values fit the format and the disk takes every chunk
  and whatever is left in the buffer when the file is closed, saving succeeds, and any server that starts with that file ends up with the same databases.\<close>

theorem save_then_load:
  assumes "server_ok c s" and "data_fits (keyspace s)" and "save_chunks s = Some chs" and "disk_takes (world s) chs"
    and "filename \<noteq> tmp_of (world s)" and "length (dict s) \<le> 2 ^ 32"
  shows "\<exists>s'. SaveDB filename s = Some (CUTIS_OK, s') \<and> keyspace s' = keyspace s \<and> dirty s' = 0 \<and>
    (\<forall>t. idle_ok t \<and> keyspace t = (\<lambda>i. Map.empty) \<and> length (dict t) = length (dict s) \<and>
        files (world t) filename = files (world s') filename \<longrightarrow>
      (\<exists>t'. LoadDB filename t = Some (Returns (CUTIS_OK, t')) \<and> idle_ok t' \<and> keyspace t' = keyspace s))"
  by (rule save_load [OF assms]) blast

lemma save_then_load_witness:
  "\<exists>s' t'. SaveDB CUTIS_DB_NAME (in_world big_disk server) = Some (CUTIS_OK, s') \<and>
     LoadDB CUTIS_DB_NAME (in_world (big_disk\<lparr>files := files (world s')\<rparr>) started) = Some (Returns (CUTIS_OK, t')) \<and>
     keyspace t' = stock"
proof -
  let ?s = "in_world big_disk server"
  have "server_ok (fst sample) ?s" "data_fits (keyspace ?s)" "disk_takes (world ?s) sample_chunks"
    "CUTIS_DB_NAME \<noteq> tmp_of (world ?s)" "length (dict ?s) \<le> 2 ^ 32"
    using stock_fits sample_saves by simp_all
  from save_then_load [OF this(1,2) sample_saves(1) this(3-5)] obtain s' where
    s': "SaveDB CUTIS_DB_NAME ?s = Some (CUTIS_OK, s')"
    "\<And>t. idle_ok t \<Longrightarrow> keyspace t = (\<lambda>i. Map.empty) \<Longrightarrow> length (dict t) = length (dict ?s) \<Longrightarrow>
      files (world t) CUTIS_DB_NAME = files (world s') CUTIS_DB_NAME \<Longrightarrow>
      \<exists>t'. LoadDB CUTIS_DB_NAME t = Some (Returns (CUTIS_OK, t')) \<and> keyspace t' = keyspace ?s"
    by blast
  let ?t = "in_world (big_disk\<lparr>files := files (world s')\<rparr>) started"
  have "\<exists>t'. LoadDB CUTIS_DB_NAME ?t = Some (Returns (CUTIS_OK, t')) \<and> keyspace t' = keyspace ?s"
    by (rule s'(2)) (simp_all add: started_idle sample_saves(4))
  then show ?thesis using s'(1) by auto
qed

text \<open>C5: however saving ends, the data in memory and all other files stay. Either it reports an error,
  and the old file and the count of changes stay too; or it reports success, every \<open>fwrite\<close> counted as one
  (\<open>xs\<close> is what the calls took, \<open>accepted\<close> says when that counts: an item taken whole, of single bytes at least
  one), and the new file holds all that was taken, except for a rest that closing the file could not write out.
  So the old file is safe from a failing \<open>fwrite\<close> or \<open>rename\<close>, but not from a key or value taken in part or from
  \<open>fclose\<close>, whose result the code does not look at: on a full disk it installs an empty file.\<close>

theorem save_outcomes:
  assumes "SaveDB filename s = Some (r, s')" and "filename \<noteq> tmp_of (world s)"
  shows "data_of s' = data_of s \<and>
    (\<forall>f. f \<noteq> filename \<and> f \<noteq> tmp_of (world s) \<longrightarrow> files (world s') f = files (world s) f) \<and>
    (r = CUTIS_ERR \<and> dirty s' = dirty s \<and> files (world s') filename = files (world s) filename \<or>
     r = CUTIS_OK \<and> dirty s' = 0 \<and>
     (\<exists>chs f lost. let n = calls (world s); xs = taken (sys (world s)) (n + 3) chs in
        save_chunks s = Some chs \<and> list_all2 accepted chs xs \<and>
        files (world s') filename = Some f \<and> f @ lost = concat xs \<and>
        (lost \<noteq> [] \<longrightarrow> sys (world s) (n + 3 + 2 * length chs) < int (length (concat xs)))))"
  by (rule SaveDB_outcomes [OF assms])

lemma save_outcomes_witness:
  "(\<exists>s'. SaveDB CUTIS_DB_NAME (in_world quiet_world server) = Some (CUTIS_ERR, s') \<and>
     files (world s') CUTIS_DB_NAME = None \<and> keyspace s' = stock) \<and>
   (\<exists>s'. SaveDB CUTIS_DB_NAME (in_world full_disk server) = Some (CUTIS_OK, s') \<and>
     files (world s') CUTIS_DB_NAME = Some [] \<and> dirty s' = 0 \<and> keyspace s' = stock)"
proof -
  have ks: "keyspace s' = stock" if "data_of s' = data_of (in_world w server)" for s' w
    using same_data_ok(2) [OF that] by simp
  obtain s1 where s1: "SaveDB CUTIS_DB_NAME (in_world quiet_world server) = Some (CUTIS_ERR, s1)" using small_disk by auto
  from save_outcomes [OF this] sample_saves(3) have
    "data_of s1 = data_of (in_world quiet_world server)"
    "files (world s1) CUTIS_DB_NAME = files quiet_world CUTIS_DB_NAME" by (auto simp: CUTIS_OK_def CUTIS_ERR_def)
  moreover obtain s2 where s2: "SaveDB CUTIS_DB_NAME (in_world full_disk server) = Some (CUTIS_OK, s2)"
    "files (world s2) CUTIS_DB_NAME = Some []" using full_disk_loses by auto
  moreover from save_outcomes [OF s2(1)] sample_saves(3) have
    "data_of s2 = data_of (in_world full_disk server)" "dirty s2 = 0" by (auto simp: CUTIS_OK_def CUTIS_ERR_def)
  ultimately show ?thesis using s1 ks by (auto simp: quiet_world_def)
qed

section \<open>Sockets\<close>

text \<open>C37: a listening socket that was opened is bound to the address and port asked for and is the one
  new open descriptor; every failure closes what it had opened, except a failing setsockopt.\<close>

theorem listening_socket:
  assumes "anetTcpServer pt b n = (r, n')"
  shows "r \<noteq> ANET_ERR \<and> os_open n' = r # os_open n \<and>
      (\<exists>a. bind_to b n = Some a \<and>
        os_ops n' = os_ops n @ [Socket, SetReuseAddr r, Bind r a (word_of_int pt), Listen r 32]) \<or>
    r = ANET_ERR \<and> (os_open n' = os_open n \<or>
      (\<exists>s. os_open n' = s # os_open n \<and> os_ops n' = os_ops n @ [Socket, SetReuseAddr s]))"
  by (rule anetTcpServer_fds [OF assms])

lemma listening_socket_witness:
  "os_open (snd (anetTcpServer 6380 None calm_os)) = [4]"
proof -
  obtain r n' where r: "anetTcpServer 6380 None calm_os = (r, n')" by force
  have "r = 4" "os_open calm_os = []" using calm_os_serves r by (simp_all add: calm_os_def)
  then show ?thesis using listening_socket [OF r] by (simp add: r ANET_ERR_def)
qed

text \<open>C38: the loops of anetRead and anetWrite end after some number \<open>k\<close> of calls that each moved
  something while something was left, and then for one of three reasons: all that was asked for is done, the next
  call moves nothing, or it fails. What has been read is what these calls yielded, in order; what has been written
  is the beginning of the buffer that they took.\<close>

theorem whole_transfers:
  assumes "reader_ok inp" and "writer_ok wr" and "0 \<le> want" and "want \<le> int (length buf)"
  shows "(\<exists>k res. anetRead inp want = Some res \<and> read_ended inp want k res) \<and>
    (\<exists>k res. anetWrite wr buf want = Some res \<and> write_ended wr buf want k res)"
  using anetRead_ends [OF assms(1,3)] anetWrite_ends [OF assms(2-4)] by simp

lemma whole_transfers_witness:
  "(\<exists>k res. anetRead (\<lambda>i k. Some (if 0 < k then ''a'' else [])) 2 = Some res \<and>
      read_ended (\<lambda>i k. Some (if 0 < k then ''a'' else [])) 2 k res) \<and>
   (\<exists>k res. anetWrite (\<lambda>i bs. int (length (take 1 bs))) ''xyz'' 3 = Some res \<and>
      write_ended (\<lambda>i bs. int (length (take 1 bs))) ''xyz'' 3 k res)"
proof -
  have "reader_ok (\<lambda>i k. Some (if 0 < k then ''a'' else []))" "writer_ok (\<lambda>i bs. int (length (take 1 bs)))"
    by (auto simp: reader_ok_def writer_ok_def)
  from whole_transfers [OF this, of 3 "''xyz''"] whole_transfers [OF this, of 2 "''xyz''"] show ?thesis by auto
qed

section \<open>The invariant of the server\<close>

text \<open>C12: a server that starts has satisfied references counts, empty databases, nothing
  to say to anyone and nothing to save.\<close>

theorem start_establishes_invariant:
  assumes "InitServer s = Returns s'" and "0 < db_num s" and "reply c = []" and "int (c_db c) < db_num s"
  shows "server_ok c s' \<and> keyspace s' = (\<lambda>i. Map.empty) \<and> pending c s' = [] \<and> dirty s' = 0 \<and>
    \<not> bg_saving s' \<and> length (dict s') = nat (db_num s)"
  using InitServer_ok [OF assms] by blast

lemma start_establishes_invariant_witness:
  "server_ok (caller [''ping'']) started \<and> length (dict started) = 16"
  using start_establishes_invariant [OF started_Returns, of "caller [''ping'']"] by (simp add: config_db_num)

section \<open>Strings\<close>

text \<open>C15: GET replies with the string at the key, with nil, or with an error for another type,
  and changes nothing.\<close>

theorem get_reads:
  assumes "server_ok c s" and "arg 1 c = Some k"
  shows "does c s (keyspace s) (get_reply (keyspace s (c_db c) k)) 0 (GetCommand c s)"
  by (rule GetCommand_does [OF assms])

lemma get_reads_witness:
  "does (client [''get'', ''k'']) server stock (bulk ''7'') 0 (GetCommand (client [''get'', ''k'']) server)"
  using get_reads [of "client [''get'', ''k'']" server "''k''"] by (simp add: get_reply_def)

text \<open>C14: SET binds the key to the string whatever was there, SETNX only a key that was free (and
  counts as a change, with +OK, either way).\<close>

theorem set_writes:
  assumes "server_ok c s" and "room (c_db c) s" and "arg 1 c = Some k" and "arg 2 c = Some v"
  shows "does c s
    (if nx \<and> keyspace s (c_db c) k \<noteq> None then keyspace s
     else ks_put (c_db c) k (VString v) (keyspace s)) (''+OK'' @ crlf) 1 (SetGenericCommand nx c s)"
  by (rule SetGenericCommand_does [OF assms])

lemma set_writes_witness:
  "does (client [''set'', ''l'', ''v'']) server (ks_put 0 ''l'' (VString ''v'') stock) (''+OK'' @ crlf) 1
     (SetGenericCommand False (client [''set'', ''l'', ''v'']) server)"
  using set_writes [of "client [''set'', ''l'', ''v'']" server "''l''" "''v''" False] by simp

text \<open>C30: EXISTS, TYPE, LLEN, SCARD and SISMEMBER report on the value at the key without any change.
  The names TYPE answers are in lower case, where the README has them in upper case; EXISTS answers 1 for a key
  that exists, where the README says 0.\<close>

theorem queries_only_read:
  assumes "server_ok c s" and "arg 1 c = Some k" and "r = keyspace s (c_db c) k"
  shows "does c s (keyspace s) ((if r = None then ''0'' else ''1'') @ crlf) 0 (ExistsCommand c s) \<and>
    does c s (keyspace s) (type_name r @ crlf) 0 (TypeCommand c s) \<and>
    does c s (keyspace s) (llen_reply r) 0 (LLenCommand c s) \<and>
    does c s (keyspace s) (scard_reply r) 0 (SCardCommand c s) \<and>
    (\<forall>v. arg 2 c = Some v \<longrightarrow> does c s (keyspace s) (sismember_reply v r) 0 (SIsMemberCommand c s))"
  using ExistsCommand_does [OF assms(1,2)] TypeCommand_does [OF assms(1,2)] LLenCommand_does [OF assms(1,2)]
    SCardCommand_does [OF assms(1,2)] SIsMemberCommand_does [OF assms(1,2)] assms(3) by simp

lemma queries_only_read_witness:
  "does (client [''llen'', ''l'', ''x'']) server stock (num_line 2) 0 (LLenCommand (client [''llen'', ''l'', ''x'']) server) \<and>
   does (client [''sismember'', ''m'', ''x'']) server stock (''1'' @ crlf) 0
     (SIsMemberCommand (client [''sismember'', ''m'', ''x'']) server)"
  using queries_only_read [of "client [''llen'', ''l'', ''x'']" server "''l''" "Some (VList [''a'', ''b''])"]
    queries_only_read [of "client [''sismember'', ''m'', ''x'']" server "''m''" "Some (VSet {''x'', ''y''})"]
  by (simp add: llen_reply_def sismember_reply_def as_int_def c_limits)

text \<open>C28: INCR and DECR store the number at the key plus the step, in decimal, and reply with it, as long
  as it fits 64 bits; a missing key and a value of another type count as 0.\<close>

theorem incr_adds:
  assumes "server_ok c s" and "room (c_db c) s" and "arg 1 c = Some k"
    and "n = num_of (keyspace s (c_db c) k) + i" and "LLONG_MIN \<le> n" and "n \<le> LLONG_MAX"
  shows "does c s (ks_put (c_db c) k (VString (show_int n)) (keyspace s)) (show_int n @ crlf) 1
    (IncrDecrCommand i c s)"
  by (rule IncrDecrCommand_does [OF assms])

lemma incr_adds_witness:
  "does (client [''incr'', ''k'']) server (ks_put 0 ''k'' (VString (show_int 8)) stock) (show_int 8 @ crlf) 1
     (IncrDecrCommand 1 (client [''incr'', ''k'']) server)"
  using incr_adds [of "client [''incr'', ''k'']" server "''k''" 8 1] by (simp add: seven c_limits)

section \<open>Lists\<close>

text \<open>C22: RPUSH and LPUSH put the value at their end of the list at the key, which they create, and refuse
  keys of other types.\<close>

theorem push_extends:
  assumes "server_ok c s" and "keyspace s (c_db c) k = None \<Longrightarrow> room (c_db c) s" and "arg 1 c = Some k" and "arg 2 c = Some v"
  shows "case keyspace s (c_db c) k of
      None \<Rightarrow> does c s (ks_put (c_db c) k (VList [v]) (keyspace s)) (''+OK'' @ crlf) 1 (PushGenericCommand side c s)
    | Some (VList xs) \<Rightarrow> does c s (ks_put (c_db c) k (VList (push_list side v xs)) (keyspace s)) (''+OK'' @ crlf) 1
        (PushGenericCommand side c s)
    | Some _ \<Rightarrow> does c s (keyspace s) (err_line ''push against existing key not holding a list '') 0
        (PushGenericCommand side c s)"
  by (rule PushGenericCommand_does [OF assms])

lemma push_extends_witness:
  "does (client [''lpush'', ''l'', ''v'']) server (ks_put 0 ''l'' (VList [''v'', ''a'', ''b'']) stock) (''+OK'' @ crlf) 1
     (PushGenericCommand CUTIS_HEAD (client [''lpush'', ''l'', ''v'']) server)"
  using push_extends [of "client [''lpush'', ''l'', ''v'']" server "''l''" "''v''" CUTIS_HEAD] by simp

text \<open>C21: RPOP and LPOP take the value off their end and reply with it; the key stays, with an empty
  list in the end.\<close>

theorem pop_removes:
  assumes "server_ok c s" and "arg 1 c = Some k"
  shows "case keyspace s (c_db c) k of
      None \<Rightarrow> does c s (keyspace s) (''nil'' @ crlf) 0 (PopGenericCommand side c s)
    | Some (VList xs) \<Rightarrow>
        if xs = [] then does c s (keyspace s) (''nil'' @ crlf) 0 (PopGenericCommand side c s)
        else does c s (ks_put (c_db c) k (VList (snd (end_elem side xs))) (keyspace s))
               (bulk (fst (end_elem side xs))) 1 (PopGenericCommand side c s)
    | Some _ \<Rightarrow> does c s (keyspace s) (err_bulk ''POP against key not holding a list value'') 0
        (PopGenericCommand side c s)"
  by (rule PopGenericCommand_does [OF assms])

lemma pop_removes_witness:
  "does (client [''rpop'', ''l'']) server (ks_put 0 ''l'' (VList [''a'']) stock) (bulk ''b'') 1
     (PopGenericCommand CUTIS_TAIL (client [''rpop'', ''l'']) server)"
  using pop_removes [of "client [''rpop'', ''l'']" server "''l''" CUTIS_TAIL] by simp

text \<open>C23: LRANGE replies with the elements from one index to another, both clamped to the list. A negative end
  is clamped to 0 before it is compared with the start, so 0 to -100 yields the first element of a shorter list,
  where the README promises an empty list for a start past the end.\<close>

theorem lrange_reads:
  assumes "server_ok c s" and "arg 1 c = Some k" and "arg 2 c = Some t" and "arg 3 c = Some u"
    and "fits (keyspace s (c_db c) k)"
  shows "does c s (keyspace s)
    (lrange_reply (atoi (cstr t)) (atoi (cstr u)) (keyspace s (c_db c) k)) 0 (LRangeCommand c s)"
  by (rule LRangeCommand_does [OF assms])

lemma lrange_reads_witness:
  "does (client [''lrange'', ''l'', ''0'', ''-1'']) server stock (num_line 2 @ bulk ''a'' @ bulk ''b'') 0
     (LRangeCommand (client [''lrange'', ''l'', ''0'', ''-1'']) server)"
  using lrange_reads [of "client [''lrange'', ''l'', ''0'', ''-1'']" server "''l''" "''0''" "''-1''"]
  by (simp add: numbers fits_def c_limits lrange_reply_def lrange_two)

text \<open>C24: LTRIM leaves what LRANGE with the same indices would show.\<close>

theorem ltrim_cuts:
  assumes "server_ok c s" and "arg 1 c = Some k" and "arg 2 c = Some t" and "arg 3 c = Some u"
    and "fits (keyspace s (c_db c) k)"
  shows "case keyspace s (c_db c) k of
      None \<Rightarrow> does c s (keyspace s) (err_line ''no such key'') 0 (LTrimCommand c s)
    | Some (VList xs) \<Rightarrow>
        does c s (ks_put (c_db c) k (VList (lrange xs (atoi (cstr t)) (atoi (cstr u)))) (keyspace s))
          (''+OK'' @ crlf) 1 (LTrimCommand c s)
    | Some _ \<Rightarrow> does c s (keyspace s) (err_line ''LTRIM against key not holding a list value'') 0
        (LTrimCommand c s)"
  by (rule LTrimCommand_does [OF assms])

lemma ltrim_cuts_witness:
  "does (client [''ltrim'', ''l'', ''-1'', ''-1'']) server (ks_put 0 ''l'' (VList [''b'']) stock) (''+OK'' @ crlf) 1
     (LTrimCommand (client [''ltrim'', ''l'', ''-1'', ''-1'']) server)"
  using ltrim_cuts [of "client [''ltrim'', ''l'', ''-1'', ''-1'']" server "''l''" "''-1''" "''-1''"]
  by (simp add: numbers fits_def c_limits lrange_two)

text \<open>C25: LSET replaces the element at an index inside the list and refuses every other index.\<close>

theorem lset_replaces:
  assumes "server_ok c s" and "arg 1 c = Some k" and "arg 2 c = Some t" and "arg 3 c = Some v"
    and "atoi (cstr t) \<noteq> INT_MIN"
  shows "case keyspace s (c_db c) k of
      None \<Rightarrow> does c s (keyspace s) (err_line ''no such key'') 0 (LSetCommand c s)
    | Some (VList xs) \<Rightarrow>
        if index_spec xs (atoi (cstr t)) = None
        then does c s (keyspace s) (err_line ''index out of range'') 0 (LSetCommand c s)
        else does c s (ks_put (c_db c) k (VList (xs[index_pos xs (atoi (cstr t)) := v])) (keyspace s))
               (''+OK'' @ crlf) 1 (LSetCommand c s)
    | Some _ \<Rightarrow> does c s (keyspace s) (err_line ''LSET against key not holding a list value'') 0
        (LSetCommand c s)"
  by (rule LSetCommand_does [OF assms])

lemma lset_replaces_witness:
  "does (client [''lset'', ''l'', ''-1'', ''v'']) server (ks_put 0 ''l'' (VList [''a'', ''v'']) stock) (''+OK'' @ crlf) 1
     (LSetCommand (client [''lset'', ''l'', ''-1'', ''v'']) server)"
  using lset_replaces [of "client [''lset'', ''l'', ''-1'', ''v'']" server "''l''" "''-1''" "''v''"]
  by (simp add: numbers c_limits index_spec_def index_pos_def)

section \<open>Sets\<close>

text \<open>C26: SADD puts the member into the set at the key, which it creates.\<close>

theorem sadd_inserts:
  assumes "server_ok c s" and "keyspace s (c_db c) k = None \<Longrightarrow> room (c_db c) s" and "arg 1 c = Some k" and "arg 2 c = Some v"
    and "\<And>A. keyspace s (c_db c) k = Some (VSet A) \<Longrightarrow> card A < 2 ^ 27"
  shows "case keyspace s (c_db c) k of
      None \<Rightarrow> does c s (ks_put (c_db c) k (VSet {v}) (keyspace s)) (''+OK'' @ crlf) 1 (SAddCommand c s)
    | Some (VSet A) \<Rightarrow> does c s (ks_put (c_db c) k (VSet (insert v A)) (keyspace s)) (''+OK'' @ crlf)
        (if v \<in> A then 0 else 1) (SAddCommand c s)
    | Some _ \<Rightarrow> does c s (keyspace s) (err_line ''SADD against key not holding a set value'') 0 (SAddCommand c s)"
  by (rule SAddCommand_does [OF assms])

lemma sadd_inserts_witness:
  "does (client [''sadd'', ''n'', ''z'']) server (ks_put 0 ''n'' (VSet {''z'', ''y''}) stock) (''+OK'' @ crlf) 1
     (SAddCommand (client [''sadd'', ''n'', ''z'']) server)"
  using sadd_inserts [of "client [''sadd'', ''n'', ''z'']" server "''n''" "''z''"] by simp

text \<open>C27: SREM takes the member out of the set at the key.\<close>

theorem srem_deletes:
  assumes "server_ok c s" and "arg 1 c = Some k" and "arg 2 c = Some v"
  shows "case keyspace s (c_db c) k of
      None \<Rightarrow> does c s (keyspace s) (err_line ''no such key'') 0 (SRemCommand c s)
    | Some (VSet A) \<Rightarrow> does c s (ks_put (c_db c) k (VSet (A - {v})) (keyspace s)) (''+OK'' @ crlf)
        (if v \<in> A then 1 else 0) (SRemCommand c s)
    | Some _ \<Rightarrow> does c s (keyspace s) (err_line ''SREM against key not holding a set value'') 0 (SRemCommand c s)"
  by (rule SRemCommand_does [OF assms])

lemma srem_deletes_witness:
  "does (client [''srem'', ''m'', ''y'']) server (ks_put 0 ''m'' (VSet {''x''}) stock) (''+OK'' @ crlf) 1
     (SRemCommand (client [''srem'', ''m'', ''y'']) server)"
  using srem_deletes [of "client [''srem'', ''m'', ''y'']" server "''m''" "''y''"] by (simp add: insert_Diff_if)

text \<open>C17: SINTER replies with the number of common members and then with each of them once,
  in some order, and leaves no trace of its bookkeeping.\<close>

theorem sinter_intersects:
  assumes "server_ok c s" and "drop 1 (argv c) = map Some ks" and "ks \<noteq> []"
    and "\<forall>k \<in> set ks. \<exists>A. keyspace s (c_db c) k = Some (VSet A)"
  shows "\<exists>ms. distinct ms \<and> set ms = (\<Inter>k \<in> set ks. set_of (keyspace s (c_db c) k)) \<and>
    does c s (keyspace s) (num_line (int (length ms)) @ concat (map bulk ms)) 0 (SInterCommand c s)"
  by (rule SInterCommand_does [OF assms])

lemma sinter_intersects_witness:
  "does (client [''sinter'', ''m'', ''n'']) server stock (num_line 1 @ bulk ''y'') 0
     (SInterCommand (client [''sinter'', ''m'', ''n'']) server)"
proof -
  let ?c = "client [''sinter'', ''m'', ''n'']"
  have common: "(\<Inter>k \<in> set [''m'', ''n'']. set_of (keyspace server (c_db ?c) k)) = {''y''}" by simp
  have "server_ok ?c server" "drop 1 (argv ?c) = map Some [''m'', ''n'']" "[''m'', ''n''] \<noteq> []"
    "\<forall>k \<in> set [''m'', ''n'']. \<exists>A. keyspace server (c_db ?c) k = Some (VSet A)" by (simp_all add: One_nat_def)
  from sinter_intersects [OF this] obtain ms where "distinct ms" "set ms = {''y''}"
    and res: "does ?c server (keyspace server) (num_line (int (length ms)) @ concat (map bulk ms)) 0 (SInterCommand ?c server)"
    unfolding common by blast
  then have "ms = [''y'']" by (blast intro: only_one)
  with res have "does ?c server (keyspace server) (num_line (int (length [''y''])) @ concat (map bulk [''y''])) 0
      (SInterCommand ?c server)" by blast
  then show ?thesis by simp
qed

text \<open>C29: when SINTER comes to a key of another type, the array of the tables it has found so far is
  allocated; the error goes out, with a meaningless number in the place of its text; the array is freed; and as the
  loop does not end there, the next assignment to the array makes the run undefined.\<close>

theorem sinter_wrong_type:
  assumes "server_ok c s" and "drop 1 (argv c) = map Some (ks @ m # ms)" and "keyspace s (c_db c) m = Some v"
    and "\<And>A. v \<noteq> VSet A" and "\<forall>k \<in> set ks. \<exists>A. keyspace s (c_db c) k = Some (VSet A)"
  shows "SInterCommand c s = None \<and> (\<exists>dv n c1 s1.
    sinter_sets (dict s ! c_db c) (map Some ks) 0 (Some (replicate (argc c - 1) None)) c s = Some (Inr (Some dv, c, s)) \<and>
    not_a_set (Some dv) c s = Some (None, c1, s1) \<and>
    does c s (keyspace s) (num_line (-42) @ num_line n) 0 (Some (c1, s1)))"
  by (rule SInterCommand_wrong [OF assms])

lemma sinter_wrong_type_witness:
  "SInterCommand (client [''sinter'', ''m'', ''k'']) server = None \<and>
   (\<exists>dv n c1 s1. not_a_set (Some dv) (client [''sinter'', ''m'', ''k'']) server = Some (None, c1, s1) \<and>
     does (client [''sinter'', ''m'', ''k'']) server stock (num_line (-42) @ num_line n) 0 (Some (c1, s1)))"
  using sinter_wrong_type [of "client [''sinter'', ''m'', ''k'']" server "[''m'']" "''k''" "[]" "VString ''7''"]
  by (auto simp: One_nat_def)

section \<open>Keys and databases\<close>

text \<open>C19: RENAME and RENAMENX move the value from one key to another; what the other key held is
  dropped, or makes RENAMENX refuse.\<close>

theorem rename_moves:
  assumes "server_ok c s" and "room (c_db c) s" and "arg 1 c = Some k1" and "arg 2 c = Some k2"
  shows "if k1 = k2 then does c s (keyspace s) (err_line ''src and dest key are the same'') 0 (RenameGenericCommand nx c s)
    else case keyspace s (c_db c) k1 of
      None \<Rightarrow> does c s (keyspace s) (err_line ''no such key'') 0 (RenameGenericCommand nx c s)
    | Some v \<Rightarrow>
        if nx \<and> keyspace s (c_db c) k2 \<noteq> None
        then does c s (keyspace s) (err_line ''destination key exists'') 0 (RenameGenericCommand nx c s)
        else does c s (ks_del (c_db c) k1 (ks_put (c_db c) k2 v (keyspace s))) (''+OK'' @ crlf) 1
          (RenameGenericCommand nx c s)"
  by (rule RenameGenericCommand_does [OF assms])

lemma rename_moves_witness:
  "does (client [''rename'', ''k'', ''l'']) server (ks_del 0 ''k'' (ks_put 0 ''l'' (VString ''7'') stock)) (''+OK'' @ crlf) 1
     (RenameGenericCommand False (client [''rename'', ''k'', ''l'']) server)"
  using rename_moves [of "client [''rename'', ''k'', ''l'']" server "''k''" "''l''" False] by simp

text \<open>C20: MOVE takes the key to another database that has no such key, and refuses every other case
  without a change: an index below 0 or past the last database, the database the client is in, a key that is not
  there, a target that has the key. The target, where there is one, must not be at the limit of its table.\<close>

theorem move_transfers:
  assumes "server_ok c s" and "0 \<le> j \<Longrightarrow> j < db_num s \<Longrightarrow> room (nat j) s" and "arg 1 c = Some k" and "arg 2 c = Some t"
    and "j = atoi (cstr t)"
  shows "if j < 0 \<or> j \<ge> db_num s then does c s (keyspace s) (err_line ''target DB out of range'') 0 (MoveCommand c s)
    else if nat j = c_db c
    then does c s (keyspace s) (err_line ''source DB is the same as target DB'') 0 (MoveCommand c s)
    else case keyspace s (c_db c) k of
      None \<Rightarrow> does c s (keyspace s) (err_line ''no such key'') 0 (MoveCommand c s)
    | Some v \<Rightarrow>
        if keyspace s (nat j) k \<noteq> None
        then does c s (keyspace s) (err_line ''target DB already contains the moved key'') 0 (MoveCommand c s)
        else does c s (ks_put (nat j) k v (ks_del (c_db c) k (keyspace s))) (''+OK'' @ crlf) 1 (MoveCommand c s)"
  by (rule MoveCommand_does [OF assms])

lemma move_transfers_witness:
  "does (client [''move'', ''k'', ''1'']) server (ks_put 1 ''k'' (VString ''7'') (ks_del 0 ''k'' stock)) (''+OK'' @ crlf) 1
     (MoveCommand (client [''move'', ''k'', ''1'']) server) \<and>
   does (client [''move'', ''k'', ''99'']) server stock (err_line ''target DB out of range'') 0
     (MoveCommand (client [''move'', ''k'', ''99'']) server)"
proof
  show "does (client [''move'', ''k'', ''1'']) server (ks_put 1 ''k'' (VString ''7'') (ks_del 0 ''k'' stock)) (''+OK'' @ crlf) 1
     (MoveCommand (client [''move'', ''k'', ''1'']) server)"
    using move_transfers [of "client [''move'', ''k'', ''1'']" server 1 "''k''" "''1''"] by (simp add: numbers)
  show "does (client [''move'', ''k'', ''99'']) server stock (err_line ''target DB out of range'') 0
     (MoveCommand (client [''move'', ''k'', ''99'']) server)"
  proof -
    let ?c = "client [''move'', ''k'', ''99'']"
    have far: "db_num server \<le> 99" "server_ok ?c server" "arg 1 ?c = Some ''k''" "arg 2 ?c = Some ''99''" by simp_all
    from move_transfers [OF far(2) _ far(3,4) numbers(4) [symmetric]] far(1)
    have "does ?c server (keyspace server) (err_line ''target DB out of range'') 0 (MoveCommand ?c server)" by auto
    then show ?thesis by simp
  qed
qed

text \<open>C31: KEYS replies with the keys the pattern matches, in the sense of \<open>glob\<close>, each once.\<close>

theorem keys_lists:
  assumes "server_ok c s" and "arg 1 c = Some pat" and "parse pat = Some ts" and "NUL \<notin> set pat"
    and "int (length pat) \<le> INT_MAX" and "keyspace s (c_db c) [] = None"
  shows "\<exists>ks. distinct ks \<and> set ks = {k \<in> dom (keyspace s (c_db c)). glob False ts k} \<and>
    does c s (keyspace s) (keys_reply ks) 0 (KeysCommand c s)"
  by (rule KeysCommand_does [OF assms])

lemma keys_lists_witness:
  "does (client [''keys'', ''[k-l]'']) server stock (keys_reply [''k'', ''l'']) 0 (KeysCommand (client [''keys'', ''[k-l]'']) server) \<or>
   does (client [''keys'', ''[k-l]'']) server stock (keys_reply [''l'', ''k'']) 0 (KeysCommand (client [''keys'', ''[k-l]'']) server)"
proof -
  let ?c = "client [''keys'', ''[k-l]'']" and ?ts = "[TSet False [Range (CHR ''k'') (CHR ''l'')]]"
  have p: "parse ''[k-l]'' = Some ?ts" "NUL \<notin> set ''[k-l]''" by (simp_all add: NUL_def)
  have g: "glob False ?ts ''k''" "glob False ?ts ''l''" "\<not> glob False ?ts ''m''" "\<not> glob False ?ts ''n''" by (simp_all add: in_range_def schar_def)
  have m: "{k \<in> dom (stock 0). glob False ?ts k} = {''k'', ''l''}" 
  proof -
    have "dom (stock 0) = {''k'', ''l'', ''m'', ''n''}" by auto
    then show ?thesis using g by blast
  qed
  have c: "server_ok ?c server" "arg 1 ?c = Some ''[k-l]''" "c_db ?c = 0" "keyspace server = stock" "stock 0 [] = None"
    "int (length ''[k-l]'') \<le> INT_MAX" by (simp_all add: c_limits)
  obtain ks where ks: "distinct ks" "set ks = {k \<in> dom (keyspace server (c_db ?c)). glob False ?ts k}"
    "does ?c server (keyspace server) (keys_reply ks) 0 (KeysCommand ?c server)"
    using keys_lists [OF c(1,2) p c(6)] unfolding c(3,4) using c(5) by blast
  have "set ks = {''k'', ''l''}" using ks(2) by (simp only: c(3,4) m)
  with ks(1) have "ks = [''k'', ''l''] \<or> ks = [''l'', ''k'']" by (rule two_only) simp
  then show ?thesis using ks(3) unfolding c(4) by (elim disjE) simp_all
qed

text \<open>C32: RANDOMKEY replies with some key, provided \<open>random()\<close> hits every slot sooner or later.\<close>

theorem randomkey_picks:
  assumes "server_ok c s" and "\<And>x. x < 2 ^ 27 \<Longrightarrow> \<exists>i. unat (rands (world s) (calls (world s)) i) = x"
  shows "if dom (keyspace s (c_db c)) = {} then does c s (keyspace s) crlf 0 (RandomKeyCommand c s)
    else \<exists>k \<in> dom (keyspace s (c_db c)). does c s (keyspace s) (k @ crlf) 0 (RandomKeyCommand c s)"
  by (rule RandomKeyCommand_does [OF assms])

lemma randomkey_picks_witness:
  "\<exists>k \<in> {''n'', ''m'', ''l'', ''k''}. does (client [''randomkey'']) (in_world fair_world server) stock (k @ crlf) 0
     (RandomKeyCommand (client [''randomkey'']) (in_world fair_world server))"
  using randomkey_picks [of "client [''randomkey'']" "in_world fair_world server"] fair_hits by simp

section \<open>Glob patterns\<close>

text \<open>C18: on every pattern that ends outside a set and an escape, matching decides the meaning
  of the pattern, and never reads past either string. At the end of the string this is said only of patterns that
  begin with neither a set nor a zero byte: there the matcher takes the terminator for a character, so that
  \<open>[^a]*\<close> matches the empty string although its meaning does not (\<open>StringMatch_negated_empty\<close>).\<close>

theorem match_is_glob:
  assumes "parse (drop i pat) = Some ts" and "i \<le> length pat"
    and "j < length str \<or> j = length str \<and> plain_start ts"
  shows "StringMatch pat i (int (length pat) - int i) str j (int (length str) - int j) nc =
    Some (glob nc ts (drop j str))"
  using assms(3) StringMatch_glob [OF assms(1,2)] StringMatch_glob_end [OF assms(1,2)] by auto

lemma match_is_glob_witness:
  "StringMatch ''k[^a]?*'' 0 7 ''kbcd'' 0 4 False = Some True \<and> StringMatch ''k[^a]?*'' 0 7 ''kacd'' 0 4 False = Some False \<and>
   StringMatch ''k[^a]?*'' 0 7 [] 0 0 False = Some False"
proof -
  have p: "parse (drop 0 ''k[^a]?*'') = Some [TLit (CHR ''k''), TSet True [Plain (CHR ''a'')], TAny, TStar]" by simp
  show ?thesis
    using match_is_glob [OF p, of 0 "''kbcd''" False] match_is_glob [OF p, of 0 "''kacd''" False]
      match_is_glob [OF p, of 0 "[]" False]
    by (simp add: glob_TStar_le same_char_def NUL_def) auto
qed

section \<open>Dynamic strings\<close>

text \<open>C36: appending keeps the layout and appends to the content, whatever room there was.\<close>

theorem cat_appends:
  assumes "sds_ok s" and "n \<le> length t" and "(length (content s) + n) * 2 < 2 ^ 63"
  shows "\<exists>s'. sdscatlen s t n = Some s' \<and> sds_ok s' \<and> content s' = content s @ take n t"
  by (rule sdscatlen_ok [OF assms])

lemma cat_appends_witness:
  "\<exists>s'. sdscatlen (the (sdsnewlen (Some ''ab'') 2)) ''cd'' 2 = Some s' \<and> sds_ok s' \<and> content s' = ''abcd''"
proof -
  from sdsnewlen_ok [of 2 "''ab''"] obtain s where "sdsnewlen (Some ''ab'') 2 = Some s" "sds_ok s" "content s = ''ab''"
    by auto
  then show ?thesis using cat_appends [of s 2 "''cd''"] by simp
qed

text \<open>C39: splitting at one character yields the fields of the string, as well-formed strings; for the empty
  string this is one empty field, where the comment above the function promises NULL. Below \<open>2 ^ 30\<close> bytes none of
  the \<open>int\<close>s that count elements and slots overflows.\<close>

theorem split_fields:
  assumes "length s < 2 ^ 30"
  shows "\<exists>toks. sdssplitlen s (int (length s)) [c] 1 = Some (Some toks) \<and>
    (\<forall>t \<in> set toks. sds_ok t) \<and> map content toks = Sds.fields c s"
  by (rule sdssplitlen_fields [OF assms])

lemma split_fields_witness:
  "\<exists>toks. sdssplitlen ''a,,b'' 4 '','' 1 = Some (Some toks) \<and> map content toks = [''a'', [], ''b'']"
  using split_fields [of "''a,,b''" "CHR '',''"] by auto

section \<open>Linked lists\<close>

text \<open>C40: unlinking a node leaves a well-formed list of the others, frees the node and its value, and
  touches no other node.\<close>

theorem list_delete:
  assumes "list_rep h l (xs @ (p, v) # ys)" and "free_value l v s = Some s'"
  shows "\<exists>h' l'. listDelNode l p h s = Some (h', l', s') \<and> list_rep h' l' (xs @ ys) \<and> h' p = None \<and>
    (\<forall>q. q \<notin> fst ` set (xs @ (p, v) # ys) \<longrightarrow> h' q = h q)"
  using listDelNode_rep [OF assms] by blast

lemma list_delete_witness:
  "\<exists>h' l'. listDelNode \<lparr>head = Some 1, tail = Some 2, l_dup = None, l_free = None, l_match = None, l_len = 2\<rparr> 1
     [1 \<mapsto> \<lparr>n_prev = None, n_next = Some 2, n_value = ''a''\<rparr>, 2 \<mapsto> \<lparr>n_prev = Some 1, n_next = None, n_value = ''b''\<rparr>] () =
     Some (h', l', ()) \<and> list_rep h' l' [(2, ''b'')]"
  using list_delete [of "[1 \<mapsto> \<lparr>n_prev = None, n_next = Some 2, n_value = ''a''\<rparr>, 2 \<mapsto> \<lparr>n_prev = Some 1, n_next = None, n_value = ''b''\<rparr>]"
      "\<lparr>head = Some 1, tail = Some 2, l_dup = None, l_free = None, l_match = None, l_len = 2\<rparr>" "[]" 1 "''a''" "[(2, ''b'')]" "()" "()"]
  by (force simp: list_rep_def free_value_def)

section \<open>Hash tables\<close>

text \<open>C16: adding to a table of the databases binds a free key and refuses a bound one, grows and
  rehashes when needed, and what was bound is found afterwards.\<close>

theorem dict_insert_lookup:
  assumes "dict_ok sdsDictType (\<lambda>k. k) d" and "unat (d_used d) < 2 ^ 27"
  shows "\<exists>r d'. DictAdd sdsDictType k a d = Some (r, d') \<and> dict_ok sdsDictType (\<lambda>k. k) d' \<and>
    (if dict_map (\<lambda>k. k) d k = None
     then r = DICT_OK \<and> dict_map (\<lambda>k. k) d' = (dict_map (\<lambda>k. k) d)(k \<mapsto> a)
     else r = DICT_ERR \<and> dict_map (\<lambda>k. k) d' = dict_map (\<lambda>k. k) d) \<and>
    (\<forall>k'. \<exists>e. DictFind sdsDictType k' d' = Some e \<and> map_option snd e = dict_map (\<lambda>k. k) d' k')"
  by (rule db_insert_lookup [OF assms])

lemma dict_insert_lookup_witness:
  "\<exists>r d'. DictAdd sdsDictType ''k'' 5 DictCreate = Some (r, d') \<and> dict_map (\<lambda>k. k) d' = [''k'' \<mapsto> 5]"
  using dict_insert_lookup [of DictCreate "''k''" 5] by (auto simp: DictCreate_def reset_empty)

text \<open>C33: deleting unbinds the key and frees what was stored under it, and only that.\<close>

theorem dict_delete:
  assumes "dict_ok sdsDictType (\<lambda>k. k) d"
  shows "case dict_map (\<lambda>k. k) d k of
      None \<Rightarrow> DictDelete sdsDictType k d h = Some (DICT_ERR, d, h)
    | Some a \<Rightarrow> \<exists>d'. DictDelete sdsDictType k d h = map_option (\<lambda>h. (DICT_OK, d', h)) (DecrRefCount a h) \<and>
        dict_ok sdsDictType (\<lambda>k. k) d' \<and> dict_map (\<lambda>k. k) d' = (dict_map (\<lambda>k. k) d)(k := None)"
  by (rule db_delete_map [OF assms])

lemma dict_delete_witness:
  "DictDelete sdsDictType ''k'' DictCreate empty_heap = Some (DICT_ERR, DictCreate, empty_heap)"
  using dict_delete [of DictCreate "''k''" empty_heap] by (simp add: DictCreate_def)

text \<open>C34: resizing keeps the entries and ends with the least power of two from 16 that holds them.\<close>

theorem dict_resize:
  assumes "dict_ok ty canon d" and "unat (d_used d) \<le> 2 ^ 27"
  shows "\<exists>d' m. DictResize ty d = Some (DICT_OK, d') \<and> dict_ok ty canon d' \<and>
    mset (entries d') = mset (entries d) \<and> dict_map canon d' = dict_map canon d \<and> d_size d' = 2 ^ m \<and>
    (m = 4 \<or> 2 ^ (m - 1) < unat (d_used d))"
  by (rule resize_keeps_map [OF assms])

lemma dict_resize_witness:
  "\<exists>d' m. DictResize sdsDictType DictCreate = Some (DICT_OK, d') \<and> mset (entries d') = {#} \<and> d_size d' = 2 ^ m \<and> m = (4 :: nat)"
  using dict_resize [of sdsDictType "\<lambda>k. k" DictCreate] by (auto simp: DictCreate_def reset_empty)

text \<open>C35: the iterator visits every entry once.\<close>

theorem dict_iterator:
  assumes "dict_ok ty canon d"
  shows "\<exists>es. dict_iterate d = Some es \<and> mset es = mset (entries d) \<and> distinct (map (canon \<circ> fst) es)"
  using dict_iterate_ok [OF assms] dict_ok_tableD(3) [OF assms] by simp

lemma dict_iterator_witness:
  "\<exists>es. dict_iterate (dict server ! 0) = Some es \<and> length es = 4 \<and> distinct (map fst es)"
proof -
  from dict_iterator [OF sample_table(1)] obtain es where "dict_iterate (dict server ! 0) = Some es"
    "mset es = mset (entries (dict server ! 0))" "distinct (map fst es)" by (auto simp: comp_def)
  with sample_table(2) show ?thesis by (metis mset_eq_length)
qed

section \<open>Objects and memory\<close>

text \<open>C13: giving back a reference keeps every count exact, frees the object and what it holds when it was
  the last one, and keeps the value of everything still referred to.\<close>

theorem decr_exact:
  assumes "heap_ok (add_mset a R) h"
  shows "\<exists>h'. DecrRefCount a h = Some h' \<and> heap_ok R h' \<and> (\<forall>b \<in># R. obj_value h' b = obj_value h b)"
  by (rule store.decr_law [OF assms])

lemma decr_exact_witness:
  "\<exists>h'. DecrRefCount (fst (CreateCutisObject (OString (Some ''a'')) empty_heap)) (snd (CreateCutisObject (OString (Some ''a'')) empty_heap)) = Some h' \<and>
     heap_ok {#} h'"
proof -
  obtain a h where "CreateCutisObject (OString (Some ''a'')) empty_heap = (a, h)" by force
  moreover from Create_value [OF heap_ok_empty this] have "heap_ok {#a#} h" by simp
  ultimately show ?thesis using decr_exact [of a "{#}" h] by auto
qed

section \<open>The event loop\<close>


end
